(* ===== verification/Trade_Prelude.thy ===== *)
theory Trade_Prelude
  imports Main "HOL-Library.Word"
begin

text \<open>
  Shared vocabulary of the development: the fixed-width aliases of
  \<^verbatim>\<open>include/types.hpp\<close>, the faults of the C++ abstract machine that the
  definitions make explicit (signed overflow, a write past the end of a fixed
  buffer, an index past the end of an array), and the generic facts on words,
  power-of-two masks and lists that the component theories use.

  Unsigned integers are words, so that \<open>+\<close>, \<open>-\<close> and \<open>*\<close> wrap around as in C++.
  Signed 64-bit integers are \<^typ>\<open>int\<close> values with an explicit range check:
  signed overflow is undefined behaviour in C++, and every operation that could
  overflow returns a \<open>fault\<close> instead of a value.
\<close>

unbundle bit_operations_syntax

type_synonym u8 = "8 word"
type_synonym u16 = "16 word"
type_synonym u32 = "32 word"
type_synonym u64 = "64 word"
type_synonym i64 = int

datatype fault = Signed_overflow | Buffer_overflow | Out_of_bounds | Bad_access | Bad_cast

type_synonym 'a cpp = "fault + 'a"

definition cpp_bind :: "'a cpp \<Rightarrow> ('a \<Rightarrow> 'b cpp) \<Rightarrow> 'b cpp" where
  "cpp_bind m f = (case m of Inl e \<Rightarrow> Inl e | Inr x \<Rightarrow> f x)"

definition i64_min :: int where "i64_min = - (2 ^ 63)"
definition i64_max :: int where "i64_max = 2 ^ 63 - 1"

definition i64_ok :: "int \<Rightarrow> bool" where
  "i64_ok x \<longleftrightarrow> i64_min \<le> x \<and> x \<le> i64_max"

definition i64_chk :: "int \<Rightarrow> i64 cpp" where
  "i64_chk x = (if i64_ok x then Inr x else Inl Signed_overflow)"

definition cdiv :: "int \<Rightarrow> int \<Rightarrow> int" where
  "cdiv a b = sgn a * sgn b * (\<bar>a\<bar> div \<bar>b\<bar>)"

definition pow2_assert :: "'a::len word \<Rightarrow> bool" where
  "pow2_assert c \<longleftrightarrow> c AND (c - 1) = 0"

definition align_up :: "u64 \<Rightarrow> u64 \<Rightarrow> u64" where
  "align_up x a = (x + (a - 1)) AND NOT (a - 1)"

named_theorems word_nat \<open>facts that move a word expression to natural numbers\<close>
named_theorems cpp_simps \<open>unfolding rules of the fault monad and the checked integers\<close>

section \<open>The fault monad\<close>

lemma cpp_bind_simps [simp, cpp_simps]:
  "cpp_bind (Inl e) f = Inl e" "cpp_bind (Inr x) f = f x"
  by (simp_all add: cpp_bind_def)

lemma cpp_bind_eq_Inr_iff:
  "cpp_bind m f = Inr y \<longleftrightarrow> (\<exists>x. m = Inr x \<and> f x = Inr y)"
  by (cases m) auto

lemma cpp_bind_cong [fundef_cong]:
  "m = m' \<Longrightarrow> (\<And>x. m' = Inr x \<Longrightarrow> f x = f' x) \<Longrightarrow> cpp_bind m f = cpp_bind m' f'"
  by (cases m') auto

lemmas i64_defs = i64_ok_def i64_min_def i64_max_def

lemma i64_chk_ok [simp]: "i64_ok x \<Longrightarrow> i64_chk x = Inr x"
  by (simp add: i64_chk_def)

lemma cdiv_nonneg: "0 \<le> a \<Longrightarrow> 0 \<le> b \<Longrightarrow> cdiv a b = a div b"
  by (cases "a = 0"; cases "b = 0") (simp_all add: cdiv_def)

section \<open>Power-of-two masks\<close>

lemma nat_and_pred_pow2:
  "(n::nat) \<noteq> 0 \<Longrightarrow> n AND (n - 1) = 0 \<Longrightarrow> \<exists>k. n = 2 ^ k"
proof (induction n rule: less_induct)
  case (less n)
  show ?case
  proof (cases "even n")
    case True
    then obtain m where m: "n = 2 * m" by blast
    with less.prems(1) have h: "(n - 1) div 2 = m - 1" "n div 2 = m" "0 < m" "m < n" by auto
    with less.prems(2) have "m AND (m - 1) = 0"
      by (simp add: and_nat_rec [of n "n - 1"] del: One_nat_def)
    with less.IH [OF h(4)] h(3) obtain k where "m = 2 ^ k" by auto
    with m have "n = 2 ^ Suc k" by simp
    then show ?thesis by blast
  next
    case False
    then obtain m where m: "n = 2 * m + 1" by (elim oddE)
    then have "n AND (n - 1) = 2 * m"
      by (simp add: and_nat_rec [of "Suc (2 * m)" "2 * m"])
    with less.prems(2) m have "n = 2 ^ 0" by simp
    then show ?thesis by blast
  qed
qed

lemma word_pow2_assert:
  fixes c :: "'a::len word"
  assumes "c \<noteq> 0" and "pow2_assert c"
  obtains k where "k < LENGTH('a)" and "c = 2 ^ k" and "unat c = 2 ^ k"
proof -
  have "unat (c AND (c - 1)) = unat c AND (unat c - 1)"
    using assms(1) by (simp add: unsigned_and_eq unat_minus_one)
  with assms have "unat c AND (unat c - 1) = 0" and "unat c \<noteq> 0"
    by (auto simp: pow2_assert_def unat_eq_0)
  then obtain k where k: "unat c = 2 ^ k" using nat_and_pred_pow2 by blast
  have "(2::nat) ^ k < 2 ^ LENGTH('a)" using unsigned_less [of c] unfolding k [symmetric] by simp
  then have "k < LENGTH('a)" by (rule power_less_imp_less_exp [rotated]) simp
  moreover have "of_nat (unat c) = c" by simp
  then have "c = 2 ^ k" by (simp add: k)
  ultimately show ?thesis using that k by blast
qed

lemma unat_and_mask [word_nat]:
  fixes x :: "'a::len word"
  assumes "k < LENGTH('a)"
  shows "unat (x AND (2 ^ k - 1)) = unat x mod 2 ^ k"
proof -
  have "x AND (2 ^ k - 1) = take_bit k x"
    by (simp only: take_bit_eq_mask mask_eq_exp_minus_1)
  moreover have "unat (take_bit k x) = take_bit k (unat x)"
    by (rule unsigned_take_bit_eq)
  ultimately show ?thesis by (simp only: take_bit_eq_mod)
qed

lemma unat_and_pred_pow2:
  fixes x c :: "'a::len word"
  assumes "c \<noteq> 0" and "pow2_assert c"
  shows "unat (x AND (c - 1)) = unat x mod unat c"
proof -
  from assms obtain k where "k < LENGTH('a)" "c = 2 ^ k" "unat c = 2 ^ k"
    by (rule word_pow2_assert)
  then show ?thesis by (simp add: unat_and_mask)
qed

lemma unat_of_nat_mod_pow2:
  fixes c :: "'a::len word"
  assumes "c \<noteq> 0" and "pow2_assert c"
  shows "unat (of_nat n AND (c - 1)) = n mod unat c"
proof -
  from assms obtain k where k: "k < LENGTH('a)" "c = 2 ^ k" "unat c = 2 ^ k"
    by (rule word_pow2_assert)
  have "unat (of_nat n AND (c - 1)) = (n mod 2 ^ LENGTH('a)) mod 2 ^ k"
    using unat_and_pred_pow2 [OF assms, of "of_nat n"] by (simp add: unat_of_nat k(3))
  also have "\<dots> = n mod 2 ^ k"
    using k(1) by (simp add: mod_mod_cancel le_imp_power_dvd)
  finally show ?thesis by (simp add: k(3))
qed

lemma unat_less_pow: "unat (w :: 'a::len word) < 2 ^ LENGTH('a)"
  by (rule unsigned_less)

lemma unat_u64_less: "unat (x :: u64) < 2 ^ 64"
  using unsigned_less [of x] by simp

lemma unat_of_nat_u64 [word_nat]: "n < 2 ^ 64 \<Longrightarrow> unat (of_nat n :: u64) = n"
  by (simp add: unat_of_nat)

lemma sint_of_nat_u64: "n < 2 ^ 63 \<Longrightarrow> sint (of_nat n :: u64) = int n"
  by (simp add: signed_of_nat signed_take_bit_int_eq_self)

lemma unat_two_power [word_nat]: "k < 64 \<Longrightarrow> unat ((2 :: u64) ^ k) = 2 ^ k"
proof -
  assume "k < 64"
  then have "(2::nat) ^ k < 2 ^ 64" by (rule power_strict_increasing) simp
  then have "unat (of_nat (2 ^ k) :: u64) = 2 ^ k" by (rule unat_of_nat_u64)
  then show ?thesis by simp
qed

lemma of_nat_diff_eq_iff:
  fixes c :: u64
  assumes "m \<le> n" and "n - m < 2 ^ 64"
  shows "of_nat n - of_nat m = c \<longleftrightarrow> n - m = unat c"
proof -
  have "of_nat n - of_nat m = (of_nat (n - m) :: u64)" using assms(1) by simp
  moreover have "unat (of_nat (n - m) :: u64) = n - m" using assms(2) by (rule unat_of_nat_u64)
  ultimately show ?thesis by (auto simp: word_unat_eq_iff)
qed

section \<open>Alignment\<close>

lemma and_not_mask_add: "(x AND NOT m) + (x AND m) = (x :: 'a::len word)"
proof -
  have "(x AND NOT m) AND (x AND m) = 0" by (rule bit_eqI) (auto simp: bit_simps)
  then have "(x AND NOT m) + (x AND m) = (x AND NOT m) OR (x AND m)"
    by (rule disjunctive_add_eq_or)
  also have "\<dots> = x" by (rule bit_eqI) (auto simp: bit_simps)
  finally show ?thesis .
qed

lemma unat_and_not_mask:
  fixes x c :: "'a::len word"
  assumes "c \<noteq> 0" and "pow2_assert c"
  shows "unat (x AND NOT (c - 1)) = (unat x div unat c) * unat c"
proof -
  have "x AND NOT (c - 1) = x - (x AND (c - 1))"
    using and_not_mask_add [of x "c - 1"] by (metis add_diff_cancel_right')
  moreover have "x AND (c - 1) \<le> x" by (simp add: word_and_le2)
  ultimately have "unat (x AND NOT (c - 1)) = unat x - unat x mod unat c"
    by (simp add: unat_sub unat_and_pred_pow2 [OF assms])
  then show ?thesis by (simp add: minus_mod_eq_div_mult)
qed

lemma align_up_nat:
  fixes x a :: u64
  assumes a: "a \<noteq> 0" "pow2_assert a" and ov: "unat x + unat a \<le> 2 ^ 64"
  shows "unat (align_up x a) = ((unat x + unat a - 1) div unat a) * unat a"
proof -
  have pos: "0 < unat a" using a(1) by (simp add: unat_gt_0)
  have "unat (x + (a - 1)) = unat x + (unat a - 1)"
    using a(1) ov pos by (subst unat_add_lem [THEN iffD1]) (simp_all add: unat_minus_one)
  then show ?thesis
    using pos by (simp add: align_up_def unat_and_not_mask [OF a])
qed

lemma round_up_div_bounds:
  fixes x a :: nat
  assumes "0 < a"
  shows "x \<le> ((x + a - 1) div a) * a" and "((x + a - 1) div a) * a < x + a"
proof -
  have d: "((x + a - 1) div a) * a = (x + a - 1) - (x + a - 1) mod a"
    by (simp add: minus_mod_eq_div_mult)
  have "(x + a - 1) mod a < a" using assms by simp
  then show "x \<le> ((x + a - 1) div a) * a" and "((x + a - 1) div a) * a < x + a"
    unfolding d using assms by linarith+
qed

lemma align_up_spec:
  fixes x a :: u64
  assumes a: "a \<noteq> 0" "pow2_assert a" and ov: "unat x + unat a \<le> 2 ^ 64"
  shows "unat a dvd unat (align_up x a)"
    and "unat x \<le> unat (align_up x a)"
    and "unat (align_up x a) < unat x + unat a"
  using round_up_div_bounds [of "unat a" "unat x"] a(1)
  by (simp_all add: align_up_nat [OF assms] unat_gt_0)

section \<open>First index of a range\<close>

lemma first_index:
  fixes n :: nat
  assumes "\<exists>j < n. P j"
  obtains j where "j < n" "P j" "\<And>l. l < j \<Longrightarrow> \<not> P l"
proof -
  from assms obtain j where "j < n \<and> P j" "\<forall>l < j. \<not> (l < n \<and> P l)"
    using exists_least_iff [of "\<lambda>j. j < n \<and> P j"] by blast
  then show ?thesis using that by (meson less_trans)
qed

lemma mod_eq_window:
  fixes i j n :: nat
  assumes "i mod n = j mod n" "i \<le> j" "j < i + n"
  shows "i = j"
proof -
  have "n dvd j - i" using assms(1,2) by (simp add: mod_eq_dvd_iff_nat [symmetric])
  with assms show ?thesis by (auto dest: dvd_imp_le)
qed

end
