(* ===== verification/Interfaces.thy ===== *)
theory Interfaces
  imports Trade_Prelude
begin

text \<open>
  The contracts the components promise each other, as locales. Each locale is
  interpreted in the theory of the component that provides it, on the definitions
  that model the code:

  \<^item> \<open>inductive_invariant\<close>: a state machine with an invariant that its steps keep
    (the interleaved producer and consumer of \<^verbatim>\<open>spsc.hpp\<close>, the threads on a histogram, the engine
    pipeline, engine and exchange together);
  \<^item> \<open>draining\<close>: a state machine that comes to rest within a bounded number of steps
    (the engine after the stop signal);
  \<^item> \<open>simulation\<close>: a state machine whose steps are steps of an abstract one
    (the engine and a pipeline of bounded queues, the ring and an atomic queue);
  \<^item> \<open>bounded_fifo\<close>: a queue of bounded capacity (\<^verbatim>\<open>SpscRing\<close>);
  \<^item> \<open>bounded_map\<close>: a map that may refuse an insertion (\<^verbatim>\<open>FlatMap\<close>);
  \<^item> \<open>slot_pool\<close>: a fixed set of slots handed out and taken back (\<^verbatim>\<open>ObjectPool\<close>);
  \<^item> \<open>arena\<close>: a bump allocator over one block (\<^verbatim>\<open>BumpAllocator\<close>, \<^verbatim>\<open>HugeArena\<close>).
\<close>

section \<open>State machines\<close>

inductive reach :: "('s \<Rightarrow> bool) \<Rightarrow> ('s \<Rightarrow> 's \<Rightarrow> bool) \<Rightarrow> 's \<Rightarrow> bool"
  for init step where
  reach_init: "init s \<Longrightarrow> reach init step s"
| reach_step: "reach init step s \<Longrightarrow> step s t \<Longrightarrow> reach init step t"

lemma reach_rtranclp: "step\<^sup>*\<^sup>* s t \<Longrightarrow> reach init step s \<Longrightarrow> reach init step t"
  by (induction rule: rtranclp_induct) (auto intro: reach.intros)

lemma reach_image:
  assumes "reach init step s" "\<And>s. init s \<Longrightarrow> init' (g s)" "\<And>s t. step s t \<Longrightarrow> step' (g s) (g t)"
  shows "reach init' step' (g s)"
  using assms(1) by (induction rule: reach.induct) (auto intro: reach.intros assms(2,3))

lemma reach_mono: "reach init step s \<Longrightarrow> (\<And>s t. step s t \<Longrightarrow> step' s t) \<Longrightarrow> reach init step' s"
  using reach_image [of init step s init "\<lambda>s. s" step'] by blast

locale inductive_invariant =
  fixes init :: "'s \<Rightarrow> bool"
    and step :: "'s \<Rightarrow> 's \<Rightarrow> bool"
    and inv :: "'s \<Rightarrow> bool"
  assumes inv_init: "init s \<Longrightarrow> inv s"
    and inv_step: "inv s \<Longrightarrow> step s t \<Longrightarrow> inv t"
begin

lemma reach_inv: "reach init step s \<Longrightarrow> inv s"
  by (induction rule: reach.induct) (auto intro: inv_init inv_step)

lemma steps_inv: "step\<^sup>*\<^sup>* s t \<Longrightarrow> inv s \<Longrightarrow> inv t"
  by (induction rule: rtranclp_induct) (auto intro: inv_step)

lemma reach_safe: "reach init step s \<Longrightarrow> (\<And>s. inv s \<Longrightarrow> P s) \<Longrightarrow> P s"
  by (blast intro: reach_inv)

end

text \<open>
  A machine that comes to rest: every step that changes the state lowers a measure, up to slips
  that raise it by at most \<open>loss\<close>, and while the machine is not at rest some step lowers it.
\<close>

locale draining =
  fixes step :: "'s \<Rightarrow> 's \<Rightarrow> bool"
    and slip :: "'s \<Rightarrow> 's \<Rightarrow> bool"
    and loss :: nat
    and ok :: "'s \<Rightarrow> bool"
    and at_rest :: "'s \<Rightarrow> bool"
    and left :: "'s \<Rightarrow> nat"
  assumes ok_step: "ok s \<Longrightarrow> step s t \<Longrightarrow> ok t"
    and step_lowers: "ok s \<Longrightarrow> step s t \<Longrightarrow> t = s \<or> left t < left s \<or> slip s t \<and> left t \<le> left s + loss"
    and progress: "ok s \<Longrightarrow> \<not> at_rest s \<Longrightarrow> \<exists>t. step s t \<and> left t < left s"
begin

lemma comes_to_rest: "ok s \<Longrightarrow> \<exists>t. step\<^sup>*\<^sup>* s t \<and> ok t \<and> at_rest t"
proof (induction "left s" arbitrary: s rule: less_induct)
  case less
  show ?case
  proof (cases "at_rest s")
    case False
    then obtain t where t: "step s t" "left t < left s" using progress [OF less.prems] by blast
    then show ?thesis using less.hyps [OF t(2) ok_step [OF less.prems t(1)]] converse_rtranclp_into_rtranclp [of step s t] by blast
  qed (use less.prems in blast)
qed

text \<open>
  The states of a run, without the steps that change nothing, are at most \<open>left\<close> many, and \<open>loss + 1\<close>
  more for each slip.
\<close>

lemma run_bounded:
  assumes "ok (f 0)" "\<And>i. i < n \<Longrightarrow> step (f i) (f (Suc i)) \<and> f (Suc i) \<noteq> f i"
  shows "n + left (f n) \<le> left (f 0) + Suc loss * card {i. i < n \<and> slip (f i) (f (Suc i))}"
proof -
  have "ok (f i) \<and> i + left (f i) \<le> left (f 0) + Suc loss * card {j. j < i \<and> slip (f j) (f (Suc j))}" if "i \<le> n" for i
    using that
  proof (induction i)
    case (Suc i)
    then have IH: "ok (f i)" "i + left (f i) \<le> left (f 0) + Suc loss * card {j. j < i \<and> slip (f j) (f (Suc j))}"
      and st: "step (f i) (f (Suc i))" "f (Suc i) \<noteq> f i" using assms(2) by auto
    have "{j. j < Suc i \<and> slip (f j) (f (Suc j))} =
        (if slip (f i) (f (Suc i)) then insert i else id) {j. j < i \<and> slip (f j) (f (Suc j))}"
      by (auto simp: less_Suc_eq)
    then have "card {j. j < Suc i \<and> slip (f j) (f (Suc j))} =
        card {j. j < i \<and> slip (f j) (f (Suc j))} + (if slip (f i) (f (Suc i)) then 1 else 0)" by simp
    then show ?case using IH ok_step [OF IH(1) st(1)] step_lowers [OF IH(1) st(1)] st(2) by auto
  qed (use assms(1) in simp)
  then show ?thesis by simp
qed

end

text \<open>An abstract machine that takes part in every step of a detailed one, or stands still.\<close>

locale simulation =
  fixes init :: "'s \<Rightarrow> bool"
    and step :: "'s \<Rightarrow> 's \<Rightarrow> bool"
    and inv :: "'s \<Rightarrow> bool"
    and abs :: "'s \<Rightarrow> 'a"
    and ainit :: "'a \<Rightarrow> bool"
    and astep :: "'a \<Rightarrow> 'a \<Rightarrow> bool"
  assumes reach_ok: "reach init step s \<Longrightarrow> inv s"
    and sim_init: "init s \<Longrightarrow> ainit (abs s)"
    and sim_step: "inv s \<Longrightarrow> step s t \<Longrightarrow> abs t = abs s \<or> astep (abs s) (abs t)"
begin

lemma reach_abs: "reach init step s \<Longrightarrow> reach ainit astep (abs s)"
proof (induction rule: reach.induct)
  case (reach_step s t)
  then show ?case using sim_step [OF reach_ok [OF reach_step.hyps(1)] reach_step.hyps(2)] by (auto intro: reach.intros)
qed (auto intro: reach.intros sim_init)

lemma abstract_safe: "reach init step s \<Longrightarrow> (\<And>a. reach ainit astep a \<Longrightarrow> P a) \<Longrightarrow> P (abs s)"
  by (blast intro: reach_abs)

end

section \<open>Bounded queues\<close>

datatype 'a qop = Push 'a | Pop

datatype 'a qres = Pushed bool | Popped "'a option"

fun run_ops :: "('a \<Rightarrow> 'q \<Rightarrow> bool \<times> 'q) \<Rightarrow> ('q \<Rightarrow> 'a option \<times> 'q) \<Rightarrow> 'a qop list \<Rightarrow> 'q
    \<Rightarrow> 'a qres list \<times> 'q" where
  "run_ops push pop [] q = ([], q)"
| "run_ops push pop (Push x # ops) q =
     (let (b, q1) = push x q; (rs, q2) = run_ops push pop ops q1 in (Pushed b # rs, q2))"
| "run_ops push pop (Pop # ops) q =
     (let (v, q1) = pop q; (rs, q2) = run_ops push pop ops q1 in (Popped v # rs, q2))"

definition list_push :: "nat \<Rightarrow> 'a \<Rightarrow> 'a list \<Rightarrow> bool \<times> 'a list" where
  "list_push n x xs = (if length xs < n then (True, xs @ [x]) else (False, xs))"

definition list_pop :: "'a list \<Rightarrow> 'a option \<times> 'a list" where
  "list_pop xs = (case xs of [] \<Rightarrow> (None, []) | y # ys \<Rightarrow> (Some y, ys))"

locale bounded_fifo =
  fixes cap :: nat
    and push :: "'a \<Rightarrow> 'q \<Rightarrow> bool \<times> 'q"
    and pop :: "'q \<Rightarrow> 'a option \<times> 'q"
    and contents :: "'q \<Rightarrow> 'a list"
    and ok :: "'q \<Rightarrow> bool"
  assumes ok_push: "ok q \<Longrightarrow> ok (snd (push x q))"
    and ok_pop: "ok q \<Longrightarrow> ok (snd (pop q))"
    and push_spec: "ok q \<Longrightarrow>
      list_push cap x (contents q) = (fst (push x q), contents (snd (push x q)))"
    and pop_spec: "ok q \<Longrightarrow> list_pop (contents q) = (fst (pop q), contents (snd (pop q)))"
    and contents_bound: "ok q \<Longrightarrow> length (contents q) \<le> cap"
begin

lemma ok_run: "ok q \<Longrightarrow> ok (snd (run_ops push pop ops q))"
proof (induction ops arbitrary: q)
  case (Cons op ops)
  then show ?case
    using ok_push ok_pop by (cases op) (auto simp: case_prod_unfold Let_def)
qed simp

lemma run_refines:
  assumes "ok q"
  shows "run_ops (list_push cap) list_pop ops (contents q) =
    (fst (run_ops push pop ops q), contents (snd (run_ops push pop ops q)))"
  using assms
proof (induction ops arbitrary: q)
  case (Cons op ops)
  show ?case
  proof (cases op)
    case (Push x)
    with Cons.IH [OF ok_push [OF Cons.prems, of x]] push_spec [OF Cons.prems, of x]
    show ?thesis by (simp add: case_prod_unfold Let_def)
  next
    case Pop
    with Cons.IH [OF ok_pop [OF Cons.prems]] pop_spec [OF Cons.prems]
    show ?thesis by (simp add: case_prod_unfold Let_def)
  qed
qed simp

lemma push_true_iff: "ok q \<Longrightarrow> fst (push x q) \<longleftrightarrow> length (contents q) < cap"
  using push_spec [of q x] by (auto simp: list_push_def split: if_splits)

lemma contents_push:
  "ok q \<Longrightarrow> contents (snd (push x q)) = (if length (contents q) < cap then contents q @ [x] else contents q)"
  using push_spec [of q x] by (auto simp: list_push_def split: if_splits)

lemma pop_none_iff: "ok q \<Longrightarrow> fst (pop q) = None \<longleftrightarrow> contents q = []"
  using pop_spec [of q] by (cases "contents q") (auto simp: list_pop_def eq_commute [of "Some _"])

lemma pop_cons: "ok q \<Longrightarrow> contents q = x # xs \<Longrightarrow> fst (pop q) = Some x \<and> contents (snd (pop q)) = xs"
  using pop_spec [of q] by (auto simp: list_pop_def)

lemma contents_pop: "ok q \<Longrightarrow> contents (snd (pop q)) = tl (contents q)"
  using pop_spec [of q] by (cases "contents q") (auto simp: list_pop_def)

end

section \<open>Bounded maps\<close>

locale bounded_map =
  fixes put :: "'k \<Rightarrow> 'v \<Rightarrow> 'm \<Rightarrow> bool \<times> 'm"
    and get :: "'k \<Rightarrow> 'm \<Rightarrow> 'v option"
    and cap :: nat
    and ok :: "'m \<Rightarrow> bool"
  assumes ok_put: "ok m \<Longrightarrow> ok (snd (put k v m))"
    and dom_finite: "ok m \<Longrightarrow> finite {k. get k m \<noteq> None} \<and> card {k. get k m \<noteq> None} \<le> cap"
    and put_true: "ok m \<Longrightarrow> fst (put k v m) \<longleftrightarrow> get k m \<noteq> None \<or> card {k. get k m \<noteq> None} < cap"
    and get_put: "ok m \<Longrightarrow> fst (put k v m) \<Longrightarrow> get k' (snd (put k v m)) = (if k' = k then Some v else get k' m)"
    and put_false: "ok m \<Longrightarrow> \<not> fst (put k v m) \<Longrightarrow> snd (put k v m) = m"
begin

lemma dom_put: "ok m \<Longrightarrow> fst (put k v m) \<Longrightarrow>
    {k'. get k' (snd (put k v m)) \<noteq> None} = insert k {k'. get k' m \<noteq> None}"
  by (auto simp: get_put)

lemma get_put_same: "ok m \<Longrightarrow> fst (put k v m) \<Longrightarrow> get k (snd (put k v m)) = Some v"
  by (simp add: get_put)

lemma put_keeps: "ok m \<Longrightarrow> k' \<noteq> k \<Longrightarrow> get k' (snd (put k v m)) = get k' m"
  by (cases "fst (put k v m)") (auto simp: get_put put_false)

lemma ok_fold: "ok m \<Longrightarrow> ok (fold (\<lambda>(k, v) m. snd (put k v m)) kvs m)"
  by (induction kvs arbitrary: m) (auto simp: ok_put)

lemma fold_put_get:
  assumes "ok m" and "card ({k. get k m \<noteq> None} \<union> fst ` set kvs) \<le> cap"
  shows "get k (fold (\<lambda>(k, v) m. snd (put k v m)) kvs m) =
    (case map_of (rev kvs) k of None \<Rightarrow> get k m | Some v \<Rightarrow> Some v)"
  using assms
proof (induction kvs arbitrary: m)
  case (Cons kv kvs)
  obtain a b where kv: "kv = (a, b)" by (cases kv)
  let ?D = "{k. get k m \<noteq> None}"
  have fin: "finite (?D \<union> fst ` set (kv # kvs))" using dom_finite [OF Cons.prems(1)] by simp
  have put: "fst (put a b m)"
  proof (cases "a \<in> ?D")
    case True
    then show ?thesis using put_true [OF Cons.prems(1)] by simp
  next
    case False
    have "card (insert a ?D) \<le> card (?D \<union> fst ` set (kv # kvs))"
      using fin kv by (intro card_mono) auto
    with False Cons.prems have "card ?D < cap" using dom_finite [OF Cons.prems(1)] by simp
    then show ?thesis using put_true [OF Cons.prems(1)] by simp
  qed
  have "card ({k. get k (snd (put a b m)) \<noteq> None} \<union> fst ` set kvs) \<le> cap"
    using Cons.prems(2) kv dom_put [OF Cons.prems(1) put] by simp
  then show ?case
    using Cons.IH [OF ok_put [OF Cons.prems(1)]] kv get_put [OF Cons.prems(1) put]
    by (auto simp: map_of_append map_add_def split: option.splits)
qed simp

end

section \<open>Pools of slots\<close>

text \<open>
  Every operation is total on well-formed pools: taking a slot never touches memory that is not
  a free slot, and giving back a slot that is out never faults.
\<close>

locale slot_pool =
  fixes acquire :: "'p \<Rightarrow> (nat option \<times> 'p) cpp"
    and release :: "nat \<Rightarrow> 'p \<Rightarrow> 'p cpp"
    and live :: "'p \<Rightarrow> nat set"
    and size :: nat
    and ok :: "'p \<Rightarrow> bool"
  assumes acquire_ok: "ok p \<Longrightarrow> \<exists>r q. acquire p = Inr (r, q) \<and> ok q"
    and acquire_none: "ok p \<Longrightarrow> acquire p = Inr (None, q) \<Longrightarrow> q = p \<and> live p = {..<size}"
    and acquire_some: "ok p \<Longrightarrow> acquire p = Inr (Some i, q) \<Longrightarrow>
      i < size \<and> i \<notin> live p \<and> live q = insert i (live p)"
    and release_ok: "ok p \<Longrightarrow> i \<in> live p \<Longrightarrow>
      \<exists>q. release i p = Inr q \<and> ok q \<and> live q = live p - {i}"
    and live_bound: "ok p \<Longrightarrow> live p \<subseteq> {..<size}"
begin

lemma acquire_succeeds:
  assumes "ok p" "card (live p) < size"
  shows "\<exists>i q. acquire p = Inr (Some i, q) \<and> i \<notin> live p \<and> ok q \<and> live q = insert i (live p)"
proof -
  obtain r q where rq: "acquire p = Inr (r, q)" "ok q" using acquire_ok [OF assms(1)] by blast
  then obtain i where "r = Some i" using acquire_none [OF assms(1), of q] assms(2) by (cases r) auto
  then show ?thesis using rq acquire_some [OF assms(1)] by blast
qed

lemma acquire_none_iff:
  assumes "ok p"
  shows "(\<exists>q. acquire p = Inr (None, q)) \<longleftrightarrow> live p = {..<size}"
proof -
  obtain r q where rq: "acquire p = Inr (r, q)" using acquire_ok [OF assms] by blast
  then show ?thesis
    using acquire_none [OF assms] acquire_some [OF assms, of _ q] by (cases r) auto
qed

lemma acquire_release:
  assumes "ok p" "acquire p = Inr (Some i, q)"
  shows "\<exists>p'. release i q = Inr p' \<and> ok p' \<and> live p' = live p"
proof -
  have "ok q" using acquire_ok [OF assms(1)] assms(2) by auto
  then show ?thesis using acquire_some [OF assms] release_ok [of q i] by auto
qed

end

section \<open>Arenas\<close>

text \<open>
  Allocation \<open>alloc n a s\<close> of \<open>n\<close> bytes at alignment \<open>a\<close> returns an address. The contract
  holds for requests that do not make the address computation wrap, which \<open>fits\<close> names.
\<close>

type_synonym grant = "u64 \<times> u64 \<times> u64"

fun alloc_run :: "(u64 \<Rightarrow> u64 \<Rightarrow> 's \<Rightarrow> u64 option \<times> 's) \<Rightarrow> (u64 \<times> u64) list \<Rightarrow> 's \<Rightarrow> grant list \<times> 's" where
  "alloc_run alloc [] s = ([], s)"
| "alloc_run alloc ((n, a) # rs) s =
     (let (p, s1) = alloc n a s; (gs, s2) = alloc_run alloc rs s1
      in (case p of None \<Rightarrow> gs | Some q \<Rightarrow> (n, a, q) # gs, s2))"

definition block_below :: "grant \<Rightarrow> grant \<Rightarrow> bool" where
  "block_below g h \<longleftrightarrow> (case g of (n, a, p) \<Rightarrow> case h of (m, b, q) \<Rightarrow> unat p + unat n \<le> unat q)"

definition block_within :: "nat \<Rightarrow> nat \<Rightarrow> grant \<Rightarrow> bool" where
  "block_within lo hi g \<longleftrightarrow> (case g of (n, a, p) \<Rightarrow> unat a dvd unat p \<and> lo \<le> unat p \<and> unat p + unat n \<le> hi)"

locale arena =
  fixes alloc :: "u64 \<Rightarrow> u64 \<Rightarrow> 's \<Rightarrow> u64 option \<times> 's"
    and base :: "'s \<Rightarrow> nat"
    and used :: "'s \<Rightarrow> nat"
    and limit :: "'s \<Rightarrow> nat"
    and fits :: "u64 \<Rightarrow> u64 \<Rightarrow> nat \<Rightarrow> bool"
    and ok :: "'s \<Rightarrow> bool"
  assumes ok_alloc: "ok s \<Longrightarrow> fits n a (base s + limit s) \<Longrightarrow> ok (snd (alloc n a s))"
    and frame: "base (snd (alloc n a s)) = base s \<and> limit (snd (alloc n a s)) = limit s"
    and alloc_none: "ok s \<Longrightarrow> fst (alloc n a s) = None \<Longrightarrow> snd (alloc n a s) = s"
    and alloc_refused: "ok s \<Longrightarrow> fits n a (base s + limit s) \<Longrightarrow>
      fst (alloc n a s) = None \<longleftrightarrow>
      base s + limit s < ((base s + used s + unat a - 1) div unat a) * unat a + unat n"
    and alloc_some: "ok s \<Longrightarrow> fits n a (base s + limit s) \<Longrightarrow> fst (alloc n a s) = Some p \<Longrightarrow>
      unat a dvd unat p \<and> base s + used s \<le> unat p \<and>
      base s + used (snd (alloc n a s)) = unat p + unat n \<and>
      used (snd (alloc n a s)) \<le> limit s"
begin

lemma used_mono: "ok s \<Longrightarrow> fits n a (base s + limit s) \<Longrightarrow> used s \<le> used (snd (alloc n a s))"
  using alloc_none [of s n a] alloc_some [of s n a] by (cases "fst (alloc n a s)") fastforce+

lemma alloc_run_blocks:
  assumes "ok s" and "\<And>n a. (n, a) \<in> set rs \<Longrightarrow> fits n a (base s + limit s)"
  shows "ok (snd (alloc_run alloc rs s)) \<and>
    list_all (block_within (base s + used s) (base s + limit s)) (fst (alloc_run alloc rs s)) \<and>
    sorted_wrt block_below (fst (alloc_run alloc rs s))"
  using assms
proof (induction rs arbitrary: s)
  case (Cons r rs)
  obtain n a where r: "r = (n, a)" by (cases r)
  let ?s = "snd (alloc n a s)"
  have fits: "fits n a (base s + limit s)" using Cons.prems(2) r by simp
  have ok: "ok ?s" using ok_alloc [OF Cons.prems(1) fits] .
  have fr: "base ?s = base s" "limit ?s = limit s" using frame [of n a s] by simp_all
  have IH: "ok (snd (alloc_run alloc rs ?s))"
    "list_all (block_within (base s + used ?s) (base s + limit s)) (fst (alloc_run alloc rs ?s))"
    "sorted_wrt block_below (fst (alloc_run alloc rs ?s))"
    using Cons.IH [OF ok] Cons.prems(2) by (simp_all add: fr)
  have mono: "used s \<le> used ?s" using used_mono [OF Cons.prems(1) fits] .
  have rest: "list_all (block_within (base s + used s) (base s + limit s)) (fst (alloc_run alloc rs ?s))"
    using IH(2) mono by (auto simp: list_all_iff block_within_def)
  show ?case
  proof (cases "fst (alloc n a s)")
    case None
    then show ?thesis using IH(1,3) rest by (simp add: r case_prod_unfold Let_def)
  next
    case (Some p)
    note S = alloc_some [OF Cons.prems(1) fits Some]
    have "\<forall>h \<in> set (fst (alloc_run alloc rs ?s)). block_below (n, a, p) h"
      using IH(2) S by (auto simp: list_all_iff block_within_def block_below_def)
    moreover have "block_within (base s + used s) (base s + limit s) (n, a, p)"
      using S by (simp add: block_within_def)
    ultimately show ?thesis using Some IH(1,3) rest by (simp add: r case_prod_unfold Let_def)
  qed
qed simp

end

end
