(* ===== verification/Spsc.thy ===== *)
theory Spsc
  imports Interfaces
begin

text \<open>
  \<^verbatim>\<open>include/spsc.hpp\<close>: the single-producer single-consumer ring.

  The first part models \<^verbatim>\<open>try_push\<close>, \<^verbatim>\<open>try_pop\<close> and \<^verbatim>\<open>size_approx\<close> as functions on the
  members of the class. The indices are 64-bit words that wrap around, the
  capacity is the template argument with the \<^verbatim>\<open>static_assert\<close> as \<open>pow2_assert\<close>,
  and a ring is related to the list of its pending elements.

  The second part is the concurrent object. Producer and consumer run
  concurrently, one shared access per step, under the C++ rules for the atomics the
  code uses: each index has a modification order (the list of values stored so
  far), an acquire load returns \<^emph>\<open>some\<close> store that is not older than the last one
  the same thread read (coherence), so a load may be stale. The slots are not
  atomic; that every access to one is ordered by an acquired release store is a
  theorem. \<open>pushed\<close> and \<open>popped\<close> are history variables.
\<close>

section \<open>The ring\<close>

record 'a ring =
  rtail :: u64
  rhead_cache :: u64
  rhead :: u64
  rtail_cache :: u64
  rbuf :: "'a list"

definition ring_new :: "u64 \<Rightarrow> 'a \<Rightarrow> 'a ring" where
  "ring_new cap d = \<lparr>rtail = 0, rhead_cache = 0, rhead = 0, rtail_cache = 0,
     rbuf = replicate (unat cap) d\<rparr>"

definition slot_of :: "u64 \<Rightarrow> u64 \<Rightarrow> nat" where
  "slot_of cap i = unat (i AND (cap - 1))"

definition try_push :: "u64 \<Rightarrow> 'a \<Rightarrow> 'a ring \<Rightarrow> bool \<times> 'a ring" where
  "try_push cap item r =
     (let t = rtail r;
          r1 = (if t - rhead_cache r = cap then r\<lparr>rhead_cache := rhead r\<rparr> else r)
      in if t - rhead_cache r = cap \<and> t - rhead_cache r1 = cap then (False, r1)
         else (True, r1\<lparr>rbuf := (rbuf r1)[slot_of cap t := item], rtail := t + 1\<rparr>))"

definition try_pop :: "u64 \<Rightarrow> 'a ring \<Rightarrow> 'a option \<times> 'a ring" where
  "try_pop cap r =
     (let h = rhead r;
          r1 = (if h = rtail_cache r then r\<lparr>rtail_cache := rtail r\<rparr> else r)
      in if h = rtail_cache r \<and> h = rtail_cache r1 then (None, r1)
         else (Some (rbuf r1 ! slot_of cap h), r1\<lparr>rhead := h + 1\<rparr>))"

definition size_approx :: "'a ring \<Rightarrow> u64" where
  "size_approx r = rtail r - rhead r"

text \<open>The pending elements: those between \<^verbatim>\<open>head_\<close> and \<^verbatim>\<open>tail_\<close>, oldest first.\<close>

definition ring_list :: "u64 \<Rightarrow> 'a ring \<Rightarrow> 'a list" where
  "ring_list cap r =
     map (\<lambda>i. rbuf r ! slot_of cap (rhead r + of_nat i)) [0..<unat (size_approx r)]"

definition ring_ok :: "u64 \<Rightarrow> 'a ring \<Rightarrow> bool" where
  "ring_ok cap r \<longleftrightarrow> pow2_assert cap \<and> length (rbuf r) = unat cap \<and>
     unat (rtail r - rhead r) \<le> unat (rtail r - rhead_cache r) \<and>
     unat (rtail r - rhead_cache r) \<le> unat cap \<and>
     unat (rtail_cache r - rhead r) \<le> unat (rtail r - rhead r)"

section \<open>The concurrent ring\<close>

text \<open>
  Program counters. A producer call holds the item and, once read, its own index;
  a consumer call holds its own index and, once read, the element.
\<close>

datatype 'a ppc = P_Idle | P_Check 'a u64 | P_Refresh 'a u64 | P_Recheck 'a u64
  | P_Write 'a u64 | P_Publish 'a u64

datatype 'a cpc = C_Idle | C_Check u64 | C_Refresh u64 | C_Recheck u64
  | C_Read u64 | C_Free u64 'a

record 'a spsc =
  tail_mo :: "u64 list"
  head_mo :: "u64 list"
  head_cache :: u64
  tail_cache :: u64
  slots :: "'a list"
  p_pc :: "'a ppc"
  c_pc :: "'a cpc"
  p_view :: nat
  c_view :: nat
  pushed :: "'a list"
  popped :: "'a list"

definition spsc_new :: "u64 \<Rightarrow> 'a \<Rightarrow> 'a spsc" where
  "spsc_new cap d = \<lparr>tail_mo = [0], head_mo = [0], head_cache = 0, tail_cache = 0,
     slots = replicate (unat cap) d, p_pc = P_Idle, c_pc = C_Idle, p_view = 0, c_view = 0,
     pushed = [], popped = []\<rparr>"

definition spsc_init :: "u64 \<Rightarrow> 'a spsc \<Rightarrow> bool" where
  "spsc_init cap s \<longleftrightarrow> pow2_assert cap \<and> (\<exists>d. s = spsc_new cap d)"

inductive producer_step :: "u64 \<Rightarrow> 'a spsc \<Rightarrow> 'a spsc \<Rightarrow> bool" for cap where
  p_begin: "p_pc s = P_Idle \<Longrightarrow>
    producer_step cap s (s\<lparr>p_pc := P_Check x (last (tail_mo s))\<rparr>)"
| p_looks_full: "p_pc s = P_Check x t \<Longrightarrow> t - head_cache s = cap \<Longrightarrow>
    producer_step cap s (s\<lparr>p_pc := P_Refresh x t\<rparr>)"
| p_has_room: "p_pc s = P_Check x t \<Longrightarrow> t - head_cache s \<noteq> cap \<Longrightarrow>
    producer_step cap s (s\<lparr>p_pc := P_Write x t\<rparr>)"
| p_refresh: "p_pc s = P_Refresh x t \<Longrightarrow> p_view s \<le> j \<Longrightarrow> j < length (head_mo s) \<Longrightarrow>
    producer_step cap s (s\<lparr>head_cache := head_mo s ! j, p_view := j, p_pc := P_Recheck x t\<rparr>)"
| p_full: "p_pc s = P_Recheck x t \<Longrightarrow> t - head_cache s = cap \<Longrightarrow>
    producer_step cap s (s\<lparr>p_pc := P_Idle\<rparr>)"
| p_freed: "p_pc s = P_Recheck x t \<Longrightarrow> t - head_cache s \<noteq> cap \<Longrightarrow>
    producer_step cap s (s\<lparr>p_pc := P_Write x t\<rparr>)"
| p_write: "p_pc s = P_Write x t \<Longrightarrow>
    producer_step cap s (s\<lparr>slots := (slots s)[slot_of cap t := x], p_pc := P_Publish x t\<rparr>)"
| p_publish: "p_pc s = P_Publish x t \<Longrightarrow>
    producer_step cap s
      (s\<lparr>tail_mo := tail_mo s @ [t + 1], pushed := pushed s @ [x], p_pc := P_Idle\<rparr>)"

inductive consumer_step :: "u64 \<Rightarrow> 'a spsc \<Rightarrow> 'a spsc \<Rightarrow> bool" for cap where
  c_begin: "c_pc s = C_Idle \<Longrightarrow>
    consumer_step cap s (s\<lparr>c_pc := C_Check (last (head_mo s))\<rparr>)"
| c_looks_empty: "c_pc s = C_Check h \<Longrightarrow> h = tail_cache s \<Longrightarrow>
    consumer_step cap s (s\<lparr>c_pc := C_Refresh h\<rparr>)"
| c_has_item: "c_pc s = C_Check h \<Longrightarrow> h \<noteq> tail_cache s \<Longrightarrow>
    consumer_step cap s (s\<lparr>c_pc := C_Read h\<rparr>)"
| c_refresh: "c_pc s = C_Refresh h \<Longrightarrow> c_view s \<le> j \<Longrightarrow> j < length (tail_mo s) \<Longrightarrow>
    consumer_step cap s (s\<lparr>tail_cache := tail_mo s ! j, c_view := j, c_pc := C_Recheck h\<rparr>)"
| c_empty: "c_pc s = C_Recheck h \<Longrightarrow> h = tail_cache s \<Longrightarrow>
    consumer_step cap s (s\<lparr>c_pc := C_Idle\<rparr>)"
| c_filled: "c_pc s = C_Recheck h \<Longrightarrow> h \<noteq> tail_cache s \<Longrightarrow>
    consumer_step cap s (s\<lparr>c_pc := C_Read h\<rparr>)"
| c_read: "c_pc s = C_Read h \<Longrightarrow>
    consumer_step cap s (s\<lparr>c_pc := C_Free h (slots s ! slot_of cap h)\<rparr>)"
| c_free: "c_pc s = C_Free h v \<Longrightarrow>
    consumer_step cap s
      (s\<lparr>head_mo := head_mo s @ [h + 1], popped := popped s @ [v], c_pc := C_Idle\<rparr>)"

definition spsc_step :: "u64 \<Rightarrow> 'a spsc \<Rightarrow> 'a spsc \<Rightarrow> bool" where
  "spsc_step cap s t \<longleftrightarrow> producer_step cap s t \<or> consumer_step cap s t"

text \<open>
  Ordering of the accesses to a slot. The producer may write element number
  \<open>length (pushed s)\<close> only after it acquired the head store that freed the previous
  occupant; the consumer may read element number \<open>length (popped s)\<close> only after it
  acquired the tail store that published it. \<open>slot_race\<close> is the state in which both
  threads are about to touch the same slot.
\<close>

definition write_ordered :: "u64 \<Rightarrow> 'a spsc \<Rightarrow> bool" where
  "write_ordered cap s \<longleftrightarrow> (case p_pc s of P_Write _ _ \<Rightarrow> length (pushed s) < p_view s + unat cap | _ \<Rightarrow> True)"

definition read_ordered :: "'a spsc \<Rightarrow> bool" where
  "read_ordered s \<longleftrightarrow> (case c_pc s of C_Read _ \<Rightarrow> length (popped s) < c_view s | _ \<Rightarrow> True)"

definition slot_race :: "u64 \<Rightarrow> 'a spsc \<Rightarrow> bool" where
  "slot_race cap s \<longleftrightarrow> (case (p_pc s, c_pc s) of
     (P_Write _ t, C_Read h) \<Rightarrow> slot_of cap t = slot_of cap h | _ \<Rightarrow> False)"

definition p_ok :: "u64 \<Rightarrow> 'a spsc \<Rightarrow> bool" where
  "p_ok cap s = (let T = length (pushed s) in case p_pc s of
     P_Idle \<Rightarrow> True
   | P_Check _ t \<Rightarrow> t = of_nat T
   | P_Refresh _ t \<Rightarrow> t = of_nat T
   | P_Recheck _ t \<Rightarrow> t = of_nat T
   | P_Write _ t \<Rightarrow> t = of_nat T \<and> T < p_view s + unat cap
   | P_Publish x t \<Rightarrow> t = of_nat T \<and> T < p_view s + unat cap \<and> slots s ! (T mod unat cap) = x)"

definition c_ok :: "u64 \<Rightarrow> 'a spsc \<Rightarrow> bool" where
  "c_ok cap s = (let H = length (popped s) in case c_pc s of
     C_Idle \<Rightarrow> True
   | C_Check h \<Rightarrow> h = of_nat H
   | C_Refresh h \<Rightarrow> h = of_nat H
   | C_Recheck h \<Rightarrow> h = of_nat H
   | C_Read h \<Rightarrow> h = of_nat H \<and> H < c_view s
   | C_Free h v \<Rightarrow> h = of_nat H \<and> H < c_view s \<and> v = pushed s ! H)"

definition idx_ok :: "u64 \<Rightarrow> 'a spsc \<Rightarrow> bool" where
  "idx_ok cap s \<longleftrightarrow>
     tail_mo s = map of_nat [0..<Suc (length (pushed s))] \<and>
     head_mo s = map of_nat [0..<Suc (length (popped s))] \<and>
     head_cache s = of_nat (p_view s) \<and> tail_cache s = of_nat (c_view s) \<and>
     p_view s \<le> length (popped s) \<and> length (popped s) \<le> c_view s \<and>
     c_view s \<le> length (pushed s) \<and> length (pushed s) \<le> p_view s + unat cap"

definition mem_ok :: "u64 \<Rightarrow> 'a spsc \<Rightarrow> bool" where
  "mem_ok cap s \<longleftrightarrow> length (slots s) = unat cap \<and>
     popped s = take (length (popped s)) (pushed s) \<and>
     (\<forall>i. length (popped s) \<le> i \<longrightarrow> i < length (pushed s) \<longrightarrow>
        slots s ! (i mod unat cap) = pushed s ! i)"

definition spsc_inv :: "u64 \<Rightarrow> 'a spsc \<Rightarrow> bool" where
  "spsc_inv cap s \<longleftrightarrow> idx_ok cap s \<and> mem_ok cap s \<and> p_ok cap s \<and> c_ok cap s"

text \<open>The steps a call still has to make, and the members of the class at a state.\<close>

fun p_rank :: "'a ppc \<Rightarrow> nat" where
  "p_rank P_Idle = 0"
| "p_rank (P_Check _ _) = 5"
| "p_rank (P_Refresh _ _) = 4"
| "p_rank (P_Recheck _ _) = 3"
| "p_rank (P_Write _ _) = 2"
| "p_rank (P_Publish _ _) = 1"

fun c_rank :: "'a cpc \<Rightarrow> nat" where
  "c_rank C_Idle = 0"
| "c_rank (C_Check _) = 5"
| "c_rank (C_Refresh _) = 4"
| "c_rank (C_Recheck _) = 3"
| "c_rank (C_Read _) = 2"
| "c_rank (C_Free _ _) = 1"

definition spsc_ring :: "'a spsc \<Rightarrow> 'a ring" where
  "spsc_ring s = \<lparr>rtail = last (tail_mo s), rhead_cache = head_cache s, rhead = last (head_mo s),
     rtail_cache = tail_cache s, rbuf = slots s\<rparr>"

section \<open>Facts on slots\<close>

lemma slot_of_nat:
  "cap \<noteq> 0 \<Longrightarrow> pow2_assert cap \<Longrightarrow> slot_of cap (of_nat n) = n mod unat cap"
  by (simp add: slot_of_def unat_of_nat_mod_pow2)

section \<open>The invariant is kept\<close>

lemma idx_ok_unfold:
  assumes "idx_ok cap s"
  shows "last (tail_mo s) = of_nat (length (pushed s))"
    and "last (head_mo s) = of_nat (length (popped s))"
    and "j < length (head_mo s) \<Longrightarrow> head_mo s ! j = of_nat j \<and> j \<le> length (popped s)"
    and "j < length (tail_mo s) \<Longrightarrow> tail_mo s ! j = of_nat j \<and> j \<le> length (pushed s)"
  using assms by (auto simp: idx_ok_def last_map less_Suc_eq_le simp del: upt_Suc)

lemma full_iff:
  assumes "idx_ok cap s"
  shows "of_nat (length (pushed s)) - head_cache s = cap \<longleftrightarrow>
    length (pushed s) = p_view s + unat cap"
proof -
  from assms have le: "p_view s \<le> length (pushed s)" and ub: "length (pushed s) \<le> p_view s + unat cap"
    and hc: "head_cache s = of_nat (p_view s)" by (auto simp: idx_ok_def)
  have "length (pushed s) - p_view s < 2 ^ 64"
    using ub unat_u64_less [of cap] by linarith
  then have "of_nat (length (pushed s)) - of_nat (p_view s) = cap \<longleftrightarrow>
      length (pushed s) - p_view s = unat cap"
    by (rule of_nat_diff_eq_iff [OF le])
  moreover have "length (pushed s) - p_view s = unat cap \<longleftrightarrow> length (pushed s) = p_view s + unat cap"
    using le by linarith
  ultimately show ?thesis by (simp only: hc)
qed

lemma empty_iff:
  assumes "idx_ok cap s"
  shows "of_nat (length (popped s)) = tail_cache s \<longleftrightarrow> length (popped s) = c_view s"
proof -
  from assms have le: "length (popped s) \<le> c_view s" and ub: "c_view s \<le> length (popped s) + unat cap"
    and tc: "tail_cache s = of_nat (c_view s)" by (auto simp: idx_ok_def)
  have "c_view s - length (popped s) < 2 ^ 64"
    using ub unat_u64_less [of cap] by linarith
  then have "of_nat (c_view s) - of_nat (length (popped s)) = (0 :: u64) \<longleftrightarrow>
      c_view s - length (popped s) = unat (0 :: u64)"
    by (rule of_nat_diff_eq_iff [OF le])
  moreover have "c_view s - length (popped s) = 0 \<longleftrightarrow> length (popped s) = c_view s"
    using le by linarith
  ultimately show ?thesis unfolding tc by (simp only: unsigned_0 right_minus_eq) (metis)
qed

lemmas spsc_defs = spsc_inv_def idx_ok_def mem_ok_def p_ok_def c_ok_def Let_def

lemma spsc_inv_new: "spsc_inv cap (spsc_new cap d)"
  by (simp add: spsc_defs spsc_new_def)

lemma c_ok_frame:
  "c_pc s' = c_pc s \<Longrightarrow> popped s' = popped s \<Longrightarrow> pushed s' = pushed s \<Longrightarrow> c_view s' = c_view s \<Longrightarrow>
   c_ok cap s' = c_ok cap s"
  by (simp add: c_ok_def Let_def split: cpc.split)

lemma p_ok_frame:
  "p_pc s' = p_pc s \<Longrightarrow> slots s' = slots s \<Longrightarrow> pushed s' = pushed s \<Longrightarrow> p_view s' = p_view s \<Longrightarrow>
   p_ok cap s' = p_ok cap s"
  by (simp add: p_ok_def Let_def split: ppc.split)

lemma write_keeps_mem:
  assumes inv: "spsc_inv cap s" and cap: "pow2_assert cap" and pc: "p_pc s = P_Write x t"
  shows "spsc_inv cap (s\<lparr>slots := (slots s)[slot_of cap t := x], p_pc := P_Publish x t\<rparr>)"
proof -
  let ?T = "length (pushed s)" and ?H = "length (popped s)"
  from inv pc have t: "t = of_nat ?T" and room: "?T < p_view s + unat cap"
    and V: "p_view s \<le> ?H" "?H \<le> ?T" and W: "c_view s \<le> ?T" and len: "length (slots s) = unat cap"
    by (auto simp: spsc_defs)
  have "cap \<noteq> 0" using room V by (auto simp: unat_eq_0)
  then have slot: "slot_of cap t = ?T mod unat cap" and pos: "0 < unat cap"
    using cap t by (simp_all add: slot_of_nat unat_gt_0)
  have other: "i mod unat cap \<noteq> ?T mod unat cap" if "?H \<le> i" "i < ?T" for i
    using mod_eq_window [of i "unat cap" ?T] that room V by auto
  have "(slots s)[?T mod unat cap := x] ! (i mod unat cap) = pushed s ! i"
    if "?H \<le> i" "i < ?T" for i
    using inv that other [OF that, symmetric] by (simp add: spsc_inv_def mem_ok_def)
  moreover have "c_ok cap (s\<lparr>slots := (slots s)[slot_of cap t := x], p_pc := P_Publish x t\<rparr>)"
    using inv by (subst c_ok_frame [of _ s]) (simp_all add: spsc_inv_def)
  ultimately show ?thesis
    using inv t room len pos by (simp add: spsc_inv_def idx_ok_def mem_ok_def p_ok_def slot [unfolded t] Let_def)
qed

lemma publish_keeps:
  assumes inv: "spsc_inv cap s" and pc: "p_pc s = P_Publish x t"
  shows "spsc_inv cap
    (s\<lparr>tail_mo := tail_mo s @ [t + 1], pushed := pushed s @ [x], p_pc := P_Idle\<rparr>)"
proof -
  from inv pc have "t = of_nat (length (pushed s))" and "length (pushed s) < p_view s + unat cap"
    and "slots s ! (length (pushed s) mod unat cap) = x"
    by (auto simp: spsc_defs)
  moreover have "c_ok cap (s\<lparr>tail_mo := tail_mo s @ [t + 1], pushed := pushed s @ [x], p_pc := P_Idle\<rparr>)"
    using inv by (auto simp: spsc_inv_def c_ok_def idx_ok_def nth_append Let_def split: cpc.splits)
  ultimately show ?thesis
    using inv by (auto simp: spsc_inv_def idx_ok_def mem_ok_def p_ok_def nth_append less_Suc_eq add.commute)
qed

lemma producer_keeps:
  assumes step: "producer_step cap s s'" and inv: "spsc_inv cap s" and cap: "pow2_assert cap"
  shows "spsc_inv cap s'"
  using step
proof cases
  case (p_write x t)
  then show ?thesis using write_keeps_mem [OF inv cap] by simp
next
  case (p_publish x t)
  then show ?thesis using publish_keeps [OF inv] by simp
next
  case (p_begin x)
  have "c_ok cap s'" using inv p_begin by (subst c_ok_frame [of _ s]) (simp_all add: spsc_inv_def)
  then show ?thesis using inv p_begin idx_ok_unfold(1) [of cap s]
    by (simp add: spsc_inv_def idx_ok_def mem_ok_def p_ok_def)
next
  case (p_refresh x t j)
  have "c_ok cap s'" using inv p_refresh by (subst c_ok_frame [of _ s]) (simp_all add: spsc_inv_def)
  then show ?thesis using inv p_refresh idx_ok_unfold(3) [of cap s j]
    by (auto simp: spsc_inv_def idx_ok_def mem_ok_def p_ok_def Let_def)
next
  case (p_has_room x t)
  have "c_ok cap s'" using inv p_has_room by (subst c_ok_frame [of _ s]) (simp_all add: spsc_inv_def)
  then show ?thesis using inv p_has_room full_iff [of cap s]
    by (auto simp: spsc_inv_def idx_ok_def mem_ok_def p_ok_def Let_def)
next
  case (p_freed x t)
  have "c_ok cap s'" using inv p_freed by (subst c_ok_frame [of _ s]) (simp_all add: spsc_inv_def)
  then show ?thesis using inv p_freed full_iff [of cap s]
    by (auto simp: spsc_inv_def idx_ok_def mem_ok_def p_ok_def Let_def)
qed (use inv in \<open>auto simp: spsc_inv_def idx_ok_def mem_ok_def p_ok_def c_ok_def Let_def split: ppc.splits cpc.splits\<close>)

lemma read_keeps:
  assumes inv: "spsc_inv cap s" and cap: "pow2_assert cap" and pc: "c_pc s = C_Read h"
  shows "spsc_inv cap (s\<lparr>c_pc := C_Free h (slots s ! slot_of cap h)\<rparr>)"
proof -
  let ?H = "length (popped s)"
  from inv pc have h: "h = of_nat ?H" and lt: "?H < c_view s" and ub: "c_view s \<le> length (pushed s)"
    and win: "length (pushed s) \<le> ?H + unat cap"
    by (auto simp: spsc_defs)
  have "cap \<noteq> 0" using lt ub win by (auto simp: unat_eq_0)
  then have "slot_of cap h = ?H mod unat cap" using cap h by (simp add: slot_of_nat)
  then have "slots s ! slot_of cap h = pushed s ! ?H"
    using inv lt ub by (auto simp: spsc_inv_def mem_ok_def)
  moreover have "p_ok cap (s\<lparr>c_pc := C_Free h (slots s ! slot_of cap h)\<rparr>)"
    using inv by (subst p_ok_frame [of _ s]) (simp_all add: spsc_inv_def)
  ultimately show ?thesis using inv h lt by (simp add: spsc_inv_def idx_ok_def mem_ok_def c_ok_def)
qed

lemma free_keeps:
  assumes inv: "spsc_inv cap s" and pc: "c_pc s = C_Free h v"
  shows "spsc_inv cap
    (s\<lparr>head_mo := head_mo s @ [h + 1], popped := popped s @ [v], c_pc := C_Idle\<rparr>)"
proof -
  let ?H = "length (popped s)"
  from inv pc have h: "h = of_nat ?H" and lt: "?H < c_view s" "c_view s \<le> length (pushed s)"
    and v: "v = pushed s ! ?H" by (auto simp: spsc_defs)
  have "popped s @ [v] = take (Suc ?H) (pushed s)"
    using inv lt v by (simp add: spsc_inv_def mem_ok_def take_Suc_conv_app_nth)
  moreover have "p_ok cap (s\<lparr>head_mo := head_mo s @ [h + 1], popped := popped s @ [v], c_pc := C_Idle\<rparr>)"
    using inv by (subst p_ok_frame [of _ s]) (simp_all add: spsc_inv_def)
  ultimately show ?thesis
    using inv h lt by (auto simp: spsc_inv_def idx_ok_def mem_ok_def c_ok_def add.commute)
qed

lemma consumer_keeps:
  assumes step: "consumer_step cap s s'" and inv: "spsc_inv cap s" and cap: "pow2_assert cap"
  shows "spsc_inv cap s'"
  using step
proof cases
  case (c_read h)
  then show ?thesis using read_keeps [OF inv cap] by simp
next
  case (c_free h v)
  then show ?thesis using free_keeps [OF inv] by simp
next
  case (c_begin)
  have "p_ok cap s'" using inv c_begin by (subst p_ok_frame [of _ s]) (simp_all add: spsc_inv_def)
  then show ?thesis using inv c_begin idx_ok_unfold(2) [of cap s]
    by (simp add: spsc_inv_def idx_ok_def mem_ok_def c_ok_def)
next
  case (c_refresh h j)
  have "p_ok cap s'" using inv c_refresh by (subst p_ok_frame [of _ s]) (simp_all add: spsc_inv_def)
  then show ?thesis using inv c_refresh idx_ok_unfold(4) [of cap s j]
    by (auto simp: spsc_inv_def idx_ok_def mem_ok_def c_ok_def Let_def)
next
  case (c_has_item h)
  have "p_ok cap s'" using inv c_has_item by (subst p_ok_frame [of _ s]) (simp_all add: spsc_inv_def)
  then show ?thesis using inv c_has_item empty_iff [of cap s]
    by (auto simp: spsc_inv_def idx_ok_def mem_ok_def c_ok_def Let_def)
next
  case (c_filled h)
  have "p_ok cap s'" using inv c_filled by (subst p_ok_frame [of _ s]) (simp_all add: spsc_inv_def)
  then show ?thesis using inv c_filled empty_iff [of cap s]
    by (auto simp: spsc_inv_def idx_ok_def mem_ok_def c_ok_def Let_def)
qed (use inv in \<open>auto simp: spsc_inv_def idx_ok_def mem_ok_def p_ok_def c_ok_def Let_def split: ppc.splits cpc.splits\<close>)

interpretation spsc: inductive_invariant "spsc_init cap" "spsc_step cap"
  "\<lambda>s. pow2_assert cap \<and> spsc_inv cap s" for cap
proof
  fix s :: "'a spsc"
  assume "spsc_init cap s"
  then show "pow2_assert cap \<and> spsc_inv cap s" by (auto simp: spsc_init_def spsc_inv_new)
next
  fix s t :: "'a spsc"
  assume "pow2_assert cap \<and> spsc_inv cap s" and "spsc_step cap s t"
  then show "pow2_assert cap \<and> spsc_inv cap t"
    by (auto simp: spsc_step_def intro: producer_keeps consumer_keeps)
qed

section \<open>The ring as a bounded queue\<close>

lemma slot_of_add:
  assumes "cap \<noteq> 0" "pow2_assert cap"
  shows "slot_of cap (h + of_nat i) = (unat h + i) mod unat cap"
proof -
  have "h + of_nat i = of_nat (unat h + i)" by simp
  then show ?thesis using slot_of_nat [OF assms] by metis
qed

lemma unat_Suc_diff:
  fixes t h cap :: u64
  assumes "unat (t - h) < unat cap"
  shows "unat (t + 1 - h) = Suc (unat (t - h))"
proof -
  have "unat (t - h) + unat (1 :: u64) < 2 ^ LENGTH(64)"
    using assms unat_u64_less [of cap] by simp
  then have "unat ((t - h) + 1) = unat (t - h) + 1"
    by (simp add: unat_add_lem [THEN iffD1])
  then show ?thesis by (simp add: algebra_simps)
qed

lemma unat_diff_Suc:
  fixes t h :: u64
  assumes "t \<noteq> h"
  shows "unat (t - (h + 1)) = unat (t - h) - 1" and "0 < unat (t - h)"
proof -
  have "t - h \<noteq> 0" using assms by simp
  then show "unat (t - (h + 1)) = unat (t - h) - 1" "0 < unat (t - h)"
    by (simp_all add: unat_minus_one unat_gt_0 diff_diff_eq [symmetric])
qed

lemma ring_list_length [simp]: "length (ring_list cap r) = unat (rtail r - rhead r)"
  by (simp add: ring_list_def size_approx_def)

lemma ring_store:
  assumes ok: "pow2_assert cap" "length (rbuf r) = unat cap"
    and room: "unat (rtail r - rhead r) < unat cap"
  shows "ring_list cap (r\<lparr>rhead_cache := c, rbuf := (rbuf r)[slot_of cap (rtail r) := x],
      rtail := rtail r + 1\<rparr>) = ring_list cap r @ [x]"
proof -
  let ?n = "unat (rtail r - rhead r)" and ?c = "unat cap" and ?h = "unat (rhead r)"
  have c0: "cap \<noteq> 0" using room by auto
  have "rtail r = rhead r + of_nat ?n" by simp
  then have st: "slot_of cap (rtail r) = (?h + ?n) mod ?c"
    using slot_of_add [OF c0 ok(1)] by metis
  have pos: "0 < ?c" using room by simp
  have neq: "(?h + i) mod ?c \<noteq> (?h + ?n) mod ?c" if "i < ?n" for i
    using mod_eq_window [of "?h + i" ?c "?h + ?n"] that room by auto
  have "(rbuf r)[(?h + ?n) mod ?c := x] ! ((?h + i) mod ?c) = rbuf r ! ((?h + i) mod ?c)"
    if "i < ?n" for i using neq [OF that] by (metis nth_list_update_neq)
  moreover have "(rbuf r)[(?h + ?n) mod ?c := x] ! ((?h + ?n) mod ?c) = x"
    using pos ok(2) by simp
  ultimately show ?thesis
    using unat_Suc_diff [OF room]
    by (simp add: ring_list_def size_approx_def st slot_of_add [OF c0 ok(1)])
qed

lemma ring_take:
  assumes ne: "rtail r \<noteq> rhead r"
  shows "ring_list cap r = rbuf r ! slot_of cap (rhead r) #
    ring_list cap (r\<lparr>rtail_cache := c, rhead := rhead r + 1\<rparr>)"
proof -
  let ?n = "unat (rtail r - rhead r)"
  obtain m where m: "?n = Suc m" using unat_diff_Suc(2) [OF ne] by (cases ?n) auto
  have "[0..<Suc m] = 0 # map Suc [0..<m]" by (simp add: map_Suc_upt upt_conv_Cons del: upt_Suc)
  then have "ring_list cap r = map (\<lambda>i. rbuf r ! slot_of cap (rhead r + of_nat i)) (0 # map Suc [0..<m])"
    by (simp only: ring_list_def size_approx_def m)
  then show ?thesis
    using unat_diff_Suc(1) [OF ne] m
    by (simp add: ring_list_def size_approx_def algebra_simps comp_def)
qed

lemma try_push_ring:
  assumes ok: "ring_ok cap r"
  shows "ring_ok cap (snd (try_push cap x r))"
    and "list_push (unat cap) x (ring_list cap r) =
      (fst (try_push cap x r), ring_list cap (snd (try_push cap x r)))"
proof -
  have p: "pow2_assert cap" "length (rbuf r) = unat cap"
    and a: "unat (rtail r - rhead r) \<le> unat (rtail r - rhead_cache r)"
    and b: "unat (rtail r - rhead_cache r) \<le> unat cap"
    and c: "unat (rtail_cache r - rhead r) \<le> unat (rtail r - rhead r)"
    using ok by (simp_all add: ring_ok_def)
  consider (full) "rtail r - rhead_cache r = cap" "rtail r - rhead r = cap"
    | (stale) "rtail r - rhead_cache r = cap" "unat (rtail r - rhead r) < unat cap"
    | (room) "unat (rtail r - rhead_cache r) < unat cap"
    using a b by (metis le_neq_implies_less le_trans word_unat_eq_iff)
  then have "ring_ok cap (snd (try_push cap x r)) \<and> list_push (unat cap) x (ring_list cap r) =
      (fst (try_push cap x r), ring_list cap (snd (try_push cap x r)))"
  proof cases
    case full
    then show ?thesis using ok by (simp add: try_push_def list_push_def ring_ok_def ring_list_def size_approx_def)
  next
    case stale
    then have "rtail r - rhead r \<noteq> cap" by auto
    then have e: "try_push cap x r = (True, r\<lparr>rhead_cache := rhead r,
        rbuf := (rbuf r)[slot_of cap (rtail r) := x], rtail := rtail r + 1\<rparr>)"
      using stale(1) by (simp add: try_push_def Let_def)
    show ?thesis
      using p c stale(2) unat_Suc_diff [OF stale(2)]
      by (simp add: e list_push_def ring_store ring_ok_def)
  next
    case room
    then have ne: "rtail r - rhead_cache r \<noteq> cap" by auto
    then have e: "try_push cap x r = (True, r\<lparr>rhead_cache := rhead_cache r,
        rbuf := (rbuf r)[slot_of cap (rtail r) := x], rtail := rtail r + 1\<rparr>)"
      by (simp add: try_push_def Let_def)
    have lt: "unat (rtail r - rhead r) < unat cap" using a room by simp
    show ?thesis
      using p a c room lt unat_Suc_diff [OF room] unat_Suc_diff [OF lt]
        ring_store [OF p lt, where c = "rhead_cache r" and x = x]
      by (simp add: e list_push_def ring_ok_def)
  qed
  then show "ring_ok cap (snd (try_push cap x r))"
    and "list_push (unat cap) x (ring_list cap r) =
      (fst (try_push cap x r), ring_list cap (snd (try_push cap x r)))" by auto
qed

lemma try_pop_ring:
  assumes ok: "ring_ok cap r"
  shows "ring_ok cap (snd (try_pop cap r))"
    and "list_pop (ring_list cap r) = (fst (try_pop cap r), ring_list cap (snd (try_pop cap r)))"
proof -
  have a: "unat (rtail r - rhead r) \<le> unat (rtail r - rhead_cache r)"
    and c: "unat (rtail_cache r - rhead r) \<le> unat (rtail r - rhead r)"
    using ok by (simp_all add: ring_ok_def)
  consider (empty) "rhead r = rtail_cache r" "rhead r = rtail r"
    | (stale) "rhead r = rtail_cache r" "rtail r \<noteq> rhead r"
    | (item) "rhead r \<noteq> rtail_cache r" "rtail r \<noteq> rhead r"
    using c by (metis eq_iff_diff_eq_0 le_zero_eq unat_eq_0)
  then have "ring_ok cap (snd (try_pop cap r)) \<and>
    list_pop (ring_list cap r) = (fst (try_pop cap r), ring_list cap (snd (try_pop cap r)))"
  proof cases
    case empty
    then show ?thesis using ok
      by (simp add: try_pop_def list_pop_def ring_ok_def ring_list_def size_approx_def)
  next
    case stale
    then have e: "try_pop cap r = (Some (rbuf r ! slot_of cap (rhead r)),
        r\<lparr>rtail_cache := rtail r, rhead := rhead r + 1\<rparr>)"
      by (simp add: try_pop_def Let_def)
    show ?thesis
      using ok a ring_take [OF stale(2), of cap "rtail r"] unat_diff_Suc [OF stale(2)]
      by (simp add: e list_pop_def ring_ok_def)
  next
    case item
    then have e: "try_pop cap r = (Some (rbuf r ! slot_of cap (rhead r)),
        r\<lparr>rtail_cache := rtail_cache r, rhead := rhead r + 1\<rparr>)"
      by (simp add: try_pop_def Let_def)
    show ?thesis
      using ok a c ring_take [OF item(2), of cap "rtail_cache r"] unat_diff_Suc [OF item(2)]
        unat_diff_Suc [OF item(1) [symmetric]]
      by (auto simp: e list_pop_def ring_ok_def)
  qed
  then show "ring_ok cap (snd (try_pop cap r))"
    and "list_pop (ring_list cap r) = (fst (try_pop cap r), ring_list cap (snd (try_pop cap r)))"
    by auto
qed

lemma ring_ok_new: "pow2_assert cap \<Longrightarrow> ring_ok cap (ring_new cap d)"
  by (simp add: ring_ok_def ring_new_def)

lemma ring_list_new [simp]: "ring_list cap (ring_new cap d) = []"
  by (simp add: ring_list_def ring_new_def size_approx_def)

interpretation ringq: bounded_fifo "unat cap" "try_push cap" "try_pop cap" "ring_list cap" "ring_ok cap"
  for cap :: u64
proof
  fix r :: "'a ring" and x
  assume ok: "ring_ok cap r"
  show "ring_ok cap (snd (try_push cap x r))" and "list_push (unat cap) x (ring_list cap r) =
      (fst (try_push cap x r), ring_list cap (snd (try_push cap x r)))"
    using try_push_ring [OF ok] by auto
  show "ring_ok cap (snd (try_pop cap r))" and "list_pop (ring_list cap r) =
      (fst (try_pop cap r), ring_list cap (snd (try_pop cap r)))"
    using try_pop_ring [OF ok] by auto
  show "length (ring_list cap r) \<le> unat cap" using ok by (simp add: ring_ok_def)
qed

section \<open>Calls of the concurrent ring\<close>

lemma producer_frame: "producer_step cap s s' \<Longrightarrow> c_pc s' = c_pc s \<and> popped s' = popped s"
  by (cases rule: producer_step.cases) auto

lemma consumer_frame: "consumer_step cap s s' \<Longrightarrow> p_pc s' = p_pc s \<and> pushed s' = pushed s"
  by (cases rule: consumer_step.cases) auto

lemma producer_rank:
  "producer_step cap s s' \<Longrightarrow> p_pc s \<noteq> P_Idle \<Longrightarrow> p_rank (p_pc s') < p_rank (p_pc s)"
  by (cases rule: producer_step.cases) auto

lemma consumer_rank:
  "consumer_step cap s s' \<Longrightarrow> c_pc s \<noteq> C_Idle \<Longrightarrow> c_rank (c_pc s') < c_rank (c_pc s)"
  by (cases rule: consumer_step.cases) auto

lemma producer_enabled:
  assumes "spsc_inv cap s" shows "\<exists>s'. producer_step cap s s'"
proof (cases "p_pc s")
  case (P_Refresh x t)
  have "p_view s < length (head_mo s)" using assms by (simp add: spsc_inv_def idx_ok_def)
  with P_Refresh show ?thesis by (blast intro: producer_step.p_refresh)
qed (blast intro: producer_step.intros)+

lemma consumer_enabled:
  assumes "spsc_inv cap s" shows "\<exists>s'. consumer_step cap s s'"
proof (cases "c_pc s")
  case (C_Refresh h)
  have "c_view s < length (tail_mo s)" using assms by (simp add: spsc_inv_def idx_ok_def)
  with C_Refresh show ?thesis by (blast intro: consumer_step.c_refresh)
qed (blast intro: consumer_step.intros)+

lemma write_run:
  assumes "p_pc u = P_Write x t"
  shows "(producer_step cap)\<^sup>*\<^sup>* u (u\<lparr>slots := (slots u)[slot_of cap t := x],
    tail_mo := tail_mo u @ [t + 1], pushed := pushed u @ [x], p_pc := P_Idle\<rparr>)"
proof -
  let ?u1 = "u\<lparr>slots := (slots u)[slot_of cap t := x], p_pc := P_Publish x t\<rparr>"
  have "producer_step cap u ?u1" using assms by (rule producer_step.p_write)
  moreover have "producer_step cap ?u1 (?u1\<lparr>tail_mo := tail_mo ?u1 @ [t + 1],
      pushed := pushed ?u1 @ [x], p_pc := P_Idle\<rparr>)"
    by (rule producer_step.p_publish) simp
  ultimately show ?thesis by simp
qed

lemma push_refresh_run:
  assumes ne: "head_mo u \<noteq> []" "p_view u \<le> length (head_mo u) - 1" and at: "p_pc u = P_Check x t" "t - head_cache u = cap"
  shows "(producer_step cap)\<^sup>*\<^sup>* u (u\<lparr>head_cache := last (head_mo u), p_view := length (head_mo u) - 1, p_pc := P_Recheck x t\<rparr>)"
proof -
  let ?j = "length (head_mo u) - 1" and ?u1 = "u\<lparr>p_pc := P_Refresh x t\<rparr>"
  have "producer_step cap u ?u1" using at by (rule producer_step.p_looks_full)
  moreover have "producer_step cap ?u1 (?u1\<lparr>head_cache := head_mo ?u1 ! ?j, p_view := ?j, p_pc := P_Recheck x t\<rparr>)"
    by (rule producer_step.p_refresh) (use ne in simp_all)
  ultimately show ?thesis using ne(1) by (simp add: last_conv_nth)
qed

lemma try_push_run:
  fixes x :: 'a and s :: "'a spsc"
  assumes inv: "spsc_inv cap s" and idle: "p_pc s = P_Idle"
  shows "\<exists>s'. (producer_step cap)\<^sup>*\<^sup>* s s' \<and> p_pc s' = P_Idle \<and>
    spsc_ring s' = snd (try_push cap x (spsc_ring s)) \<and>
    pushed s' = (if fst (try_push cap x (spsc_ring s)) then pushed s @ [x] else pushed s)"
proof -
  let ?t = "last (tail_mo s)" and ?j = "length (head_mo s) - 1"
  have ne: "head_mo s \<noteq> []" "tail_mo s \<noteq> []" and V: "p_view s \<le> ?j"
    using inv by (auto simp: spsc_inv_def idx_ok_def)
  have hj: "head_mo s ! ?j = last (head_mo s)" "?j < length (head_mo s)"
    using ne by (simp_all add: last_conv_nth)
  define s1 where "s1 = s\<lparr>p_pc := P_Check x ?t\<rparr>"
  define w where "w = (\<lambda>u :: 'a spsc. u\<lparr>slots := (slots u)[slot_of cap ?t := x],
    tail_mo := tail_mo u @ [?t + 1], pushed := pushed u @ [x], p_pc := P_Idle\<rparr>)"
  have b: "producer_step cap s s1" unfolding s1_def using idle by (rule producer_step.p_begin)
  show ?thesis
  proof (cases "?t - head_cache s = cap")
    case False
    define s2 where "s2 = s1\<lparr>p_pc := P_Write x ?t\<rparr>"
    have "producer_step cap s1 s2"
      unfolding s2_def by (rule producer_step.p_has_room) (use False in \<open>simp_all add: s1_def\<close>)
    with b have "(producer_step cap)\<^sup>*\<^sup>* s (w s2)"
      using write_run [of s2 x ?t cap] by (simp add: s2_def w_def)
    then show ?thesis
      using False by (intro exI [of _ "w s2"]) (simp add: w_def s2_def s1_def try_push_def spsc_ring_def Let_def)
  next
    case True
    define s3 where "s3 = s1\<lparr>head_cache := last (head_mo s), p_view := ?j, p_pc := P_Recheck x ?t\<rparr>"
    have run: "(producer_step cap)\<^sup>*\<^sup>* s s3"
      using b push_refresh_run [of s1 x ?t cap] ne(1) V True by (simp add: s3_def s1_def)
    show ?thesis
    proof (cases "?t - last (head_mo s) = cap")
      case full: True
      have "producer_step cap s3 (s3\<lparr>p_pc := P_Idle\<rparr>)"
        by (rule producer_step.p_full) (use full hj in \<open>simp_all add: s3_def s1_def\<close>)
      with run show ?thesis using True full hj
        by (intro exI [of _ "s3\<lparr>p_pc := P_Idle\<rparr>"])
          (simp add: s3_def s1_def try_push_def spsc_ring_def)
    next
      case room: False
      define s4 where "s4 = s3\<lparr>p_pc := P_Write x ?t\<rparr>"
      have "producer_step cap s3 s4"
        unfolding s4_def by (rule producer_step.p_freed) (use room hj in \<open>simp_all add: s3_def s1_def\<close>)
      with run have "(producer_step cap)\<^sup>*\<^sup>* s (w s4)" using write_run [of s4 x ?t cap] by (simp add: s4_def w_def)
      then show ?thesis using True room hj
        by (intro exI [of _ "w s4"])
          (simp add: w_def s4_def s3_def s1_def try_push_def spsc_ring_def Let_def)
    qed
  qed
qed

lemma read_run:
  assumes "c_pc u = C_Read h"
  shows "(consumer_step cap)\<^sup>*\<^sup>* u (u\<lparr>head_mo := head_mo u @ [h + 1],
    popped := popped u @ [slots u ! slot_of cap h], c_pc := C_Idle\<rparr>)"
proof -
  let ?v = "slots u ! slot_of cap h"
  let ?u1 = "u\<lparr>c_pc := C_Free h ?v\<rparr>"
  have "consumer_step cap u ?u1" using assms by (rule consumer_step.c_read)
  moreover have "consumer_step cap ?u1 (?u1\<lparr>head_mo := head_mo ?u1 @ [h + 1],
      popped := popped ?u1 @ [?v], c_pc := C_Idle\<rparr>)"
    by (rule consumer_step.c_free) simp
  ultimately show ?thesis by simp
qed

lemma pop_refresh_run:
  assumes ne: "tail_mo u \<noteq> []" "c_view u \<le> length (tail_mo u) - 1" and at: "c_pc u = C_Check h" "h = tail_cache u"
  shows "(consumer_step cap)\<^sup>*\<^sup>* u (u\<lparr>tail_cache := last (tail_mo u), c_view := length (tail_mo u) - 1, c_pc := C_Recheck h\<rparr>)"
proof -
  let ?j = "length (tail_mo u) - 1" and ?u1 = "u\<lparr>c_pc := C_Refresh h\<rparr>"
  have "consumer_step cap u ?u1" using at by (rule consumer_step.c_looks_empty)
  moreover have "consumer_step cap ?u1 (?u1\<lparr>tail_cache := tail_mo ?u1 ! ?j, c_view := ?j, c_pc := C_Recheck h\<rparr>)"
    by (rule consumer_step.c_refresh) (use ne in simp_all)
  ultimately show ?thesis using ne(1) by (simp add: last_conv_nth)
qed

lemma try_pop_run:
  fixes s :: "'a spsc"
  assumes inv: "spsc_inv cap s" and idle: "c_pc s = C_Idle"
  shows "\<exists>s'. (consumer_step cap)\<^sup>*\<^sup>* s s' \<and> c_pc s' = C_Idle \<and>
    spsc_ring s' = snd (try_pop cap (spsc_ring s)) \<and>
    popped s' = (case fst (try_pop cap (spsc_ring s)) of None \<Rightarrow> popped s | Some v \<Rightarrow> popped s @ [v])"
proof -
  let ?h = "last (head_mo s)" and ?j = "length (tail_mo s) - 1"
  have ne: "head_mo s \<noteq> []" "tail_mo s \<noteq> []" and V: "c_view s \<le> ?j"
    using inv by (auto simp: spsc_inv_def idx_ok_def)
  have tj: "tail_mo s ! ?j = last (tail_mo s)" "?j < length (tail_mo s)"
    using ne by (simp_all add: last_conv_nth)
  define s1 where "s1 = s\<lparr>c_pc := C_Check ?h\<rparr>"
  define w where "w = (\<lambda>u :: 'a spsc. u\<lparr>head_mo := head_mo u @ [?h + 1],
    popped := popped u @ [slots u ! slot_of cap ?h], c_pc := C_Idle\<rparr>)"
  have b: "consumer_step cap s s1" unfolding s1_def using idle by (rule consumer_step.c_begin)
  show ?thesis
  proof (cases "?h = tail_cache s")
    case False
    define s2 where "s2 = s1\<lparr>c_pc := C_Read ?h\<rparr>"
    have "consumer_step cap s1 s2"
      unfolding s2_def by (rule consumer_step.c_has_item) (use False in \<open>simp_all add: s1_def\<close>)
    with b have "(consumer_step cap)\<^sup>*\<^sup>* s (w s2)"
      using read_run [of s2 ?h cap] by (simp add: s2_def w_def)
    then show ?thesis
      using False by (intro exI [of _ "w s2"]) (simp add: w_def s2_def s1_def try_pop_def spsc_ring_def Let_def)
  next
    case True
    define s3 where "s3 = s1\<lparr>tail_cache := last (tail_mo s), c_view := ?j, c_pc := C_Recheck ?h\<rparr>"
    have run: "(consumer_step cap)\<^sup>*\<^sup>* s s3"
      using b pop_refresh_run [of s1 ?h cap] ne(2) V True by (simp add: s3_def s1_def)
    show ?thesis
    proof (cases "?h = last (tail_mo s)")
      case empty: True
      have "consumer_step cap s3 (s3\<lparr>c_pc := C_Idle\<rparr>)"
        by (rule consumer_step.c_empty) (use empty tj in \<open>simp_all add: s3_def s1_def\<close>)
      with run have "(consumer_step cap)\<^sup>*\<^sup>* s (s3\<lparr>c_pc := C_Idle\<rparr>)" by simp
      then show ?thesis using True empty tj
        by (intro exI [of _ "s3\<lparr>c_pc := C_Idle\<rparr>"])
          (simp add: s3_def s1_def try_pop_def spsc_ring_def Let_def)
    next
      case item: False
      define s4 where "s4 = s3\<lparr>c_pc := C_Read ?h\<rparr>"
      have "consumer_step cap s3 s4"
        unfolding s4_def by (rule consumer_step.c_filled) (use item tj in \<open>simp_all add: s3_def s1_def\<close>)
      with run have "(consumer_step cap)\<^sup>*\<^sup>* s (w s4)"
        using read_run [of s4 ?h cap] by (simp add: s4_def w_def)
      then show ?thesis using True item tj
        by (intro exI [of _ "w s4"])
          (simp add: w_def s4_def s3_def s1_def try_pop_def spsc_ring_def Let_def)
    qed
  qed
qed

lemma race_free_inv:
  assumes inv: "spsc_inv cap s" and cap: "pow2_assert cap"
  shows "\<not> slot_race cap s"
proof
  assume "slot_race cap s"
  then obtain x t h where pc: "p_pc s = P_Write x t" "c_pc s = C_Read h"
    and eq: "slot_of cap t = slot_of cap h"
    by (auto simp: slot_race_def split: ppc.splits cpc.splits)
  let ?T = "length (pushed s)" and ?H = "length (popped s)"
  from inv pc have t: "t = of_nat ?T" "h = of_nat ?H" and b: "?T < p_view s + unat cap"
    "p_view s \<le> ?H" "?H < c_view s" "c_view s \<le> ?T" by (auto simp: spsc_defs)
  then have "cap \<noteq> 0" by auto
  then have "?T mod unat cap = ?H mod unat cap" using eq t cap by (simp add: slot_of_nat)
  with mod_eq_window [of ?H "unat cap" ?T] b show False by simp
qed

lemma ordered_inv: "spsc_inv cap s \<Longrightarrow> write_ordered cap s \<and> read_ordered s"
  by (auto simp: write_ordered_def read_ordered_def spsc_defs split: ppc.split cpc.split)

lemma fifo_inv:
  assumes "spsc_inv cap s"
  shows "popped s = take (length (popped s)) (pushed s) \<and>
    length (popped s) \<le> length (pushed s) \<and> length (pushed s) \<le> length (popped s) + unat cap"
  using assms by (auto simp: spsc_inv_def idx_ok_def mem_ok_def)

lemma producer_run_reach:
  "reach (spsc_init cap) (spsc_step cap) s \<Longrightarrow> (producer_step cap)\<^sup>*\<^sup>* s t \<Longrightarrow>
   reach (spsc_init cap) (spsc_step cap) t"
  by (rule reach_rtranclp [OF mono_rtranclp [rule_format]]) (auto simp: spsc_step_def)

lemma spsc_run_push_example:
  "\<exists>s. reach (spsc_init 2) (spsc_step 2) s \<and> pushed s = [7 :: nat] \<and> popped s = [] \<and> p_pc s = P_Idle"
proof -
  have cap: "pow2_assert (2 :: u64)" by (simp add: pow2_assert_def)
  let ?s = "spsc_new 2 (0 :: nat)"
  have r: "reach (spsc_init 2) (spsc_step 2) ?s"
    by (rule reach_init) (use cap in \<open>auto simp: spsc_init_def\<close>)
  obtain s' where "(producer_step 2)\<^sup>*\<^sup>* ?s s'" "pushed s' = [7]" "p_pc s' = P_Idle"
    using try_push_run [OF spsc_inv_new, of 2 0 7]
    by (auto simp: spsc_new_def try_push_def spsc_ring_def)
  moreover have "popped s' = []" if "(producer_step 2)\<^sup>*\<^sup>* ?s s'" for s'
    using that by (induction rule: rtranclp_induct) (auto simp: spsc_new_def dest: producer_frame)
  ultimately show ?thesis using producer_run_reach [OF r] by blast
qed

section \<open>Properties\<close>

text \<open>
  C4. FIFO delivery across the two threads. In every reachable state of the
  interleaved producer and consumer, with loads that may be stale and indices that
  wrap around at \<open>2 ^ 64\<close>, the sequence of popped elements is a prefix of the sequence of
  pushed elements (nothing is lost, duplicated, reordered or invented), and never more
  than the capacity is in flight.
\<close>

theorem spsc_fifo_delivery:
  assumes "reach (spsc_init cap) (spsc_step cap) s"
  shows "popped s = take (length (popped s)) (pushed s) \<and>
    length (popped s) \<le> length (pushed s) \<and> length (pushed s) \<le> length (popped s) + unat cap"
  using spsc.reach_inv [OF assms] fifo_inv by blast

theorem spsc_fifo_delivery_witness:
  "\<exists>s. reach (spsc_init 2) (spsc_step 2) s \<and> pushed s = [7 :: nat] \<and>
     popped s = take (length (popped s)) (pushed s) \<and> length (pushed s) \<le> length (popped s) + unat (2 :: u64)"
proof -
  obtain s :: "nat spsc" where s: "reach (spsc_init 2) (spsc_step 2) s" "pushed s = [7]"
    using spsc_run_push_example by blast
  show ?thesis using s spsc_fifo_delivery [OF s(1)] by blast
qed

text \<open>
  C10. No data race on a slot. In every reachable state the two threads are never about
  to touch the same slot, the producer writes a slot only after it acquired the head
  store that released the slot's previous occupant, and the consumer reads a slot only
  after it acquired the tail store that published it.
\<close>

theorem spsc_no_slot_race:
  assumes "reach (spsc_init cap) (spsc_step cap) s"
  shows "\<not> slot_race cap s \<and> write_ordered cap s \<and> read_ordered s"
  using spsc.reach_inv [OF assms] race_free_inv ordered_inv by blast

theorem spsc_no_slot_race_witness:
  "\<exists>s. reach (spsc_init 2) (spsc_step 2) s \<and> pushed s = [7 :: nat] \<and>
     \<not> slot_race 2 s \<and> write_ordered 2 s \<and> read_ordered s"
proof -
  obtain s :: "nat spsc" where s: "reach (spsc_init 2) (spsc_step 2) s" "pushed s = [7]"
    using spsc_run_push_example by blast
  show ?thesis using s spsc_no_slot_race [OF s(1)] by blast
qed

text \<open>
  The ring is a bounded queue. From a new ring of a capacity that passes the
  \<^verbatim>\<open>static_assert\<close>, every sequence of \<^verbatim>\<open>try_push\<close> and \<^verbatim>\<open>try_pop\<close> calls returns exactly the
  results of a list that refuses a push when it holds \<open>cap\<close> elements, and leaves the
  list's elements pending in the ring.
\<close>

lemma ring_refines_bounded_queue:
  assumes "pow2_assert cap"
  shows "run_ops (list_push (unat cap)) list_pop ops [] =
    (fst (run_ops (try_push cap) (try_pop cap) ops (ring_new cap d)),
     ring_list cap (snd (run_ops (try_push cap) (try_pop cap) ops (ring_new cap d))))"
  using ringq.run_refines [OF ring_ok_new [OF assms], of ops d] by simp

text \<open>
  C30. Wait-freedom. In every reachable state a thread inside a call has an enabled step
  whatever the other thread does, each of its steps lowers the number of steps left of
  the call (at most five), and the other thread's steps do not change it.
\<close>

theorem spsc_wait_free:
  assumes "reach (spsc_init cap) (spsc_step cap) s"
  shows "(\<exists>s'. producer_step cap s s') \<and> (\<exists>s'. consumer_step cap s s') \<and>
    (\<forall>s'. producer_step cap s s' \<longrightarrow> c_pc s' = c_pc s \<and>
       (p_pc s \<noteq> P_Idle \<longrightarrow> p_rank (p_pc s') < p_rank (p_pc s))) \<and>
    (\<forall>s'. consumer_step cap s s' \<longrightarrow> p_pc s' = p_pc s \<and>
       (c_pc s \<noteq> C_Idle \<longrightarrow> c_rank (c_pc s') < c_rank (c_pc s))) \<and>
    p_rank (p_pc s) \<le> 5 \<and> c_rank (c_pc s) \<le> 5"
proof -
  have inv: "spsc_inv cap s" using spsc.reach_inv [OF assms] by blast
  have "p_rank (p_pc s) \<le> 5" and "c_rank (c_pc s) \<le> 5"
    by (cases "p_pc s"; simp) (cases "c_pc s"; simp)
  with producer_enabled [OF inv] consumer_enabled [OF inv] show ?thesis
    using producer_frame producer_rank consumer_frame consumer_rank by blast
qed

theorem spsc_wait_free_witness:
  "\<exists>s :: nat spsc. reach (spsc_init 2) (spsc_step 2) s \<and> (\<exists>s'. producer_step 2 s s') \<and>
     (\<exists>s'. consumer_step 2 s s')"
proof -
  obtain s :: "nat spsc" where s: "reach (spsc_init 2) (spsc_step 2) s"
    using spsc_run_push_example by blast
  show ?thesis using s spsc_wait_free [OF s] by blast
qed

text \<open>
  The calls of the concurrent ring. From any reachable state in which the thread is
  between calls, running a whole \<^verbatim>\<open>try_push\<close> (respectively \<^verbatim>\<open>try_pop\<close>) with fresh loads has
  exactly the effect of the function on the members of the class: the two models of the
  ring agree.
\<close>

lemma spsc_calls_agree:
  assumes "reach (spsc_init cap) (spsc_step cap) s"
  shows "(p_pc s = P_Idle \<longrightarrow> (\<exists>s'. (producer_step cap)\<^sup>*\<^sup>* s s' \<and> p_pc s' = P_Idle \<and>
      spsc_ring s' = snd (try_push cap x (spsc_ring s)) \<and>
      pushed s' = (if fst (try_push cap x (spsc_ring s)) then pushed s @ [x] else pushed s)))
    \<and> (c_pc s = C_Idle \<longrightarrow> (\<exists>s'. (consumer_step cap)\<^sup>*\<^sup>* s s' \<and> c_pc s' = C_Idle \<and>
      spsc_ring s' = snd (try_pop cap (spsc_ring s)) \<and>
      popped s' = (case fst (try_pop cap (spsc_ring s)) of None \<Rightarrow> popped s | Some v \<Rightarrow> popped s @ [v])))"
proof -
  have inv: "spsc_inv cap s" using spsc.reach_inv [OF assms] by blast
  show ?thesis by (intro conjI impI try_push_run [OF inv] try_pop_run [OF inv])
qed

end
