(* ===== verification/Doubles.thy ===== *)
theory Doubles
  imports Trade_Prelude
begin

text \<open>
  The part of IEEE 754 double arithmetic the sources use: conversion from an unsigned
  integer, multiplication, division and truncation back to an integer, on values that
  are finite, not negative and inside the exponent range (every such value of the
  program is a count, a number of nanoseconds or the ratio of the two). A double is a
  mantissa times a power of two; each operation rounds the exact result to 53 bits,
  to nearest and ties to even.
\<close>

datatype dbl = Dbl (mant: nat) (expo: int)

fun nbits :: "nat \<Rightarrow> nat" where
  "nbits n = (if n = 0 then 0 else Suc (nbits (n div 2)))"

declare nbits.simps [simp del]

definition rne :: "nat \<Rightarrow> nat \<Rightarrow> nat" where
  "rne k m =
     (if k = 0 then m
      else let q = m div 2 ^ k; r = m mod 2 ^ k; h = 2 ^ (k - 1)
           in if h < r \<or> r = h \<and> odd q then Suc q else q)"

definition excess :: "nat \<Rightarrow> nat" where
  "excess m = nbits m - 53"

definition dround :: "nat \<Rightarrow> int \<Rightarrow> dbl" where
  "dround m e = Dbl (rne (excess m) m) (e + int (excess m))"

definition dbl_of_nat :: "nat \<Rightarrow> dbl" where
  "dbl_of_nat n = dround n 0"

definition dmul :: "dbl \<Rightarrow> dbl \<Rightarrow> dbl" where
  "dmul x y = dround (mant x * mant y) (expo x + expo y)"

definition ddiv :: "dbl \<Rightarrow> dbl \<Rightarrow> dbl" where
  "ddiv x y =
     (let k = 55 + nbits (mant y); n = mant x * 2 ^ k; q = n div mant y
      in dround (2 * q + (if n mod mant y = 0 then 0 else 1)) (expo x - expo y - int k - 1))"

definition dtrunc :: "dbl \<Rightarrow> nat" where
  "dtrunc x = (if 0 \<le> expo x then mant x * 2 ^ nat (expo x) else mant x div 2 ^ nat (- expo x))"

definition dbl_to_u64 :: "dbl \<Rightarrow> u64 cpp" where
  "dbl_to_u64 x = (if dtrunc x < 2 ^ 64 then Inr (of_nat (dtrunc x)) else Inl Bad_cast)"

text \<open>Rounding as a function on integers: the nearest multiple of \<open>2 ^ excess m\<close>.\<close>

definition rnd53 :: "nat \<Rightarrow> nat" where
  "rnd53 m = rne (excess m) m * 2 ^ excess m"

text \<open>The product of a converted integer and a double, truncated.\<close>

definition scaled :: "nat \<Rightarrow> dbl \<Rightarrow> nat" where
  "scaled n x = dtrunc (dmul (dbl_of_nat n) x)"

section \<open>Bit lengths\<close>

lemma nbits_0 [simp]: "nbits 0 = 0"
  by (simp add: nbits.simps)

lemma nbits_bounds: "0 < n \<Longrightarrow> 2 ^ (nbits n - 1) \<le> n \<and> n < 2 ^ nbits n \<and> 0 < nbits n"
proof (induction n rule: nbits.induct)
  case (1 n)
  show ?case
  proof (cases "n div 2 = 0")
    case True
    with "1.prems" have "n = 1" by linarith
    then show ?thesis by (simp add: nbits.simps)
  next
    case False
    with 1 have ih: "2 ^ (nbits (n div 2) - 1) \<le> n div 2" "n div 2 < 2 ^ nbits (n div 2)"
      "0 < nbits (n div 2)" by simp_all
    then obtain k where k: "nbits (n div 2) = Suc k" by (cases "nbits (n div 2)") auto
    have "nbits n = Suc (Suc k)" using "1.prems" k by (simp add: nbits.simps [of n])
    moreover have "2 ^ Suc k \<le> n" "n < 2 * 2 ^ Suc k" using ih k by simp_all
    ultimately show ?thesis by simp
  qed
qed

lemma nbits_unique: "2 ^ k \<le> n \<Longrightarrow> n < 2 ^ Suc k \<Longrightarrow> nbits n = Suc k"
proof -
  assume a: "2 ^ k \<le> n" "n < 2 ^ Suc k"
  then have "0 < n" by (metis gr0I le_zero_eq power_not_zero zero_neq_numeral)
  then have b: "2 ^ (nbits n - 1) \<le> n" "n < 2 ^ nbits n" and pos: "0 < nbits n"
    using nbits_bounds by auto
  have "(2::nat) ^ (nbits n - 1) < 2 ^ Suc k" "(2::nat) ^ k < 2 ^ nbits n"
    using b a by linarith+
  then have "nbits n - 1 < Suc k" "k < nbits n"
    by (metis power_less_imp_less_exp one_less_numeral_iff semiring_norm(76))+
  with pos show ?thesis by linarith
qed

lemma nbits_mono: "m \<le> n \<Longrightarrow> nbits m \<le> nbits n"
proof (rule ccontr)
  assume mn: "m \<le> n" and "\<not> nbits m \<le> nbits n"
  then have lt: "nbits n \<le> nbits m - 1" "0 < nbits m" by auto
  then have "0 < m" by (metis gr0I nbits_0)
  then have "2 ^ (nbits m - 1) \<le> m" using nbits_bounds by blast
  moreover have "n < 2 ^ nbits n" using nbits_bounds [of n] by (cases n) auto
  moreover have "(2::nat) ^ nbits n \<le> 2 ^ (nbits m - 1)" using lt by (simp add: power_increasing)
  ultimately show False using mn by linarith
qed

lemma nbits_shift: "0 < m \<Longrightarrow> nbits (m * 2 ^ k) = nbits m + k"
proof -
  assume "0 < m"
  then have b: "2 ^ (nbits m - 1) \<le> m" "m < 2 ^ nbits m" "0 < nbits m" using nbits_bounds by auto
  have "2 ^ (nbits m - 1 + k) \<le> m * 2 ^ k" using b(1) by (simp add: power_add)
  moreover have "m * 2 ^ k < 2 ^ Suc (nbits m - 1 + k)"
    using b by (simp add: power_add power_Suc [symmetric] del: power_Suc)
  ultimately show ?thesis using nbits_unique b(3) by fastforce
qed

section \<open>Rounding\<close>

lemma rne_bounds:
  fixes k m :: nat
  shows "m div 2 ^ k \<le> rne k m" "rne k m \<le> Suc (m div 2 ^ k)"
  by (auto simp: rne_def Let_def)

lemma rne_mono: "m \<le> n \<Longrightarrow> rne k m \<le> rne k n"
proof (cases "m div 2 ^ k = n div 2 ^ k")
  case True
  moreover assume "m \<le> n"
  ultimately have "m mod 2 ^ k \<le> n mod 2 ^ k"
    by (metis add_le_cancel_left mult_div_mod_eq)
  with True show ?thesis by (auto simp: rne_def Let_def)
next
  case False
  moreover assume "m \<le> n"
  ultimately have "m div 2 ^ k < n div 2 ^ k" by (simp add: div_le_mono le_neq_implies_less)
  then show ?thesis using rne_bounds(2) [of k m] rne_bounds(1) [of n k] by linarith
qed

lemma rne_exact: "rne k (m * 2 ^ k) = m"
  by (simp add: rne_def)

lemma rnd53_small: "m < 2 ^ 53 \<Longrightarrow> rnd53 m = m"
proof -
  assume m: "m < 2 ^ 53"
  have "nbits m \<le> 53"
  proof (cases "m = 0")
    case False
    then have "(2::nat) ^ (nbits m - 1) < 2 ^ 53" using nbits_bounds [of m] m by linarith
    then have "nbits m - 1 < 53" using power_strict_increasing_iff [of "2::nat"] by fastforce
    then show ?thesis by simp
  qed simp
  then show ?thesis by (simp add: rnd53_def excess_def rne_def)
qed

lemma rnd53_le_pow: "rnd53 m \<le> 2 ^ nbits m"
proof (cases "excess m = 0")
  case True
  have "m \<le> 2 ^ nbits m" using nbits_bounds [of m] by (cases "m = 0") auto
  with True show ?thesis by (simp add: rnd53_def rne_def)
next
  case False
  then have nb: "nbits m = 53 + excess m" and "0 < m" by (auto simp: excess_def intro: gr0I)
  then have "m < 2 ^ 53 * 2 ^ excess m" using nbits_bounds [of m] by (simp add: power_add)
  then have "m div 2 ^ excess m < 2 ^ 53" by (simp add: less_mult_imp_div_less)
  then have "rne (excess m) m \<le> 2 ^ 53" using rne_bounds(2) [of "excess m" m] by linarith
  then show ?thesis by (simp add: rnd53_def nb power_add)
qed

lemma rnd53_ge_pow: "0 < m \<Longrightarrow> 2 ^ (nbits m - 1) \<le> rnd53 m"
proof (cases "excess m = 0")
  case True
  then show "0 < m \<Longrightarrow> 2 ^ (nbits m - 1) \<le> rnd53 m"
    using nbits_bounds [of m] by (simp add: rnd53_def rne_def)
next
  case False
  assume "0 < m"
  from False have nb: "nbits m - 1 = 52 + excess m" by (auto simp: excess_def)
  have "2 ^ 52 * 2 ^ excess m \<le> m" using nbits_bounds [OF \<open>0 < m\<close>] nb by (simp add: power_add)
  then have "2 ^ 52 \<le> m div 2 ^ excess m" by (simp add: less_eq_div_iff_mult_less_eq)
  then have "2 ^ 52 \<le> rne (excess m) m" using rne_bounds(1) [of m "excess m"] by linarith
  then show ?thesis unfolding rnd53_def nb power_add by (rule mult_le_mono1)
qed

lemma rnd53_mono: "m \<le> n \<Longrightarrow> rnd53 m \<le> rnd53 n"
proof (cases "nbits m = nbits n")
  case True
  moreover assume "m \<le> n"
  ultimately show ?thesis by (simp add: rnd53_def excess_def rne_mono)
next
  case False
  assume mn: "m \<le> n"
  with False have lt: "nbits m < nbits n" using nbits_mono [OF mn] by simp
  then have "0 < n" by (metis gr0I nbits_0 not_less_zero)
  have "rnd53 m \<le> 2 ^ nbits m" by (rule rnd53_le_pow)
  also have "\<dots> \<le> 2 ^ (nbits n - 1)" using lt by (simp add: power_increasing)
  also have "\<dots> \<le> rnd53 n" using \<open>0 < n\<close> by (rule rnd53_ge_pow)
  finally show ?thesis .
qed

lemma rnd53_error: "rnd53 m \<le> m + 2 ^ excess m" "m \<le> rnd53 m + 2 ^ excess m"
proof -
  let ?k = "excess m"
  have m: "m = m div 2 ^ ?k * 2 ^ ?k + m mod 2 ^ ?k" by (rule div_mult_mod_eq [symmetric])
  have r: "m mod 2 ^ ?k < 2 ^ ?k" by simp
  have "rnd53 m \<le> Suc (m div 2 ^ ?k) * 2 ^ ?k"
    unfolding rnd53_def by (intro mult_le_mono1 rne_bounds(2))
  with m show "rnd53 m \<le> m + 2 ^ ?k" by simp
  have "m div 2 ^ ?k * 2 ^ ?k \<le> rnd53 m"
    unfolding rnd53_def by (intro mult_le_mono1 rne_bounds(1))
  with m r show "m \<le> rnd53 m + 2 ^ ?k" by linarith
qed

lemma rne_shift: "rne (Suc k + j) (m * 2 ^ j) = rne (Suc k) m"
proof -
  have d: "m * 2 ^ j div 2 ^ (Suc k + j) = m div 2 ^ Suc k"
    by (simp only: power_add) (simp only: div_mult_mult2 power_not_zero [OF zero_neq_numeral [symmetric]]
        not_False_eq_True simp_thms)
  have r: "m * 2 ^ j mod 2 ^ (Suc k + j) = (m mod 2 ^ Suc k) * 2 ^ j"
    by (simp only: power_add mod_mult_mult2)
  have h: "(2::nat) ^ (Suc k + j - 1) = 2 ^ k * 2 ^ j" by (simp add: power_add)
  have c: "(x * 2 ^ j < y * 2 ^ j) = (x < y)" "(x * 2 ^ j = y * 2 ^ j) = (x = y)" for x y :: nat
    by simp_all
  show ?thesis unfolding rne_def Let_def d r h c by simp
qed

lemma rnd53_shift: "rnd53 (m * 2 ^ j) = rnd53 m * 2 ^ j"
proof (cases "m = 0")
  case True
  then show ?thesis by (simp add: rnd53_small)
next
  case False
  then have nb: "nbits (m * 2 ^ j) = nbits m + j" by (simp add: nbits_shift)
  show ?thesis
  proof (cases "excess m = 0")
    case True
    let ?e = "excess (m * 2 ^ j)"
    define i where "i = j - ?e"
    have "j = i + ?e" using True nb by (simp add: i_def excess_def)
    then have e: "m * 2 ^ j = (m * 2 ^ i) * 2 ^ ?e" by (metis mult.assoc power_add)
    have "rnd53 (m * 2 ^ j) = rne ?e (m * 2 ^ j) * 2 ^ ?e" by (simp only: rnd53_def)
    also have "rne ?e (m * 2 ^ j) = m * 2 ^ i" by (subst e) (rule rne_exact)
    also have "m * 2 ^ i * 2 ^ ?e = rnd53 m * 2 ^ j" using e [symmetric] True by (simp add: rnd53_def [of m] rne_def)
    finally show ?thesis .
  next
    case False
    then obtain k where k: "excess m = Suc k" by (cases "excess m") auto
    then have "excess (m * 2 ^ j) = Suc k + j" using nb by (simp add: excess_def)
    then show ?thesis unfolding rnd53_def k by (simp only: rne_shift power_add mult.assoc)
  qed
qed

lemma dtrunc_dround:
  "dtrunc (dround m e) = (if 0 \<le> e then rnd53 m * 2 ^ nat e else rnd53 m div 2 ^ nat (- e))"
proof -
  let ?k = "excess m" and ?q = "rne (excess m) m"
  consider "0 \<le> e" | "e < 0" "0 \<le> e + int ?k" | "e + int ?k < 0" by linarith
  then show ?thesis
  proof cases
    case 1
    then show ?thesis by (simp add: dtrunc_def dround_def rnd53_def nat_add_distrib power_add mult_ac)
  next
    case 2
    define i where "i = ?k - nat (- e)"
    have i: "?k = nat (- e) + i" using 2 by (simp add: i_def)
    then have "nat (e + int ?k) = i" using 2 by simp
    then show ?thesis using 2 i by (simp add: dtrunc_def dround_def rnd53_def power_add)
  next
    case 3
    then have "nat (- e) = nat (- (e + int ?k)) + ?k" by simp
    then show ?thesis using 3 by (simp add: dtrunc_def dround_def rnd53_def power_add)
  qed
qed

lemma dtrunc_dround_shift: "dtrunc (dround m (int j + e)) = dtrunc (dround (m * 2 ^ j) e)"
proof -
  consider "0 \<le> e" | "e < 0" "0 \<le> int j + e" | "int j + e < 0" by linarith
  then show ?thesis
  proof cases
    case 1
    then show ?thesis by (simp add: dtrunc_dround rnd53_shift nat_add_distrib power_add mult_ac)
  next
    case 2
    define i where "i = j - nat (- e)"
    have i: "j = nat (- e) + i" using 2 by (simp add: i_def)
    then have "nat (int j + e) = i" using 2 by simp
    moreover have "rnd53 (m * 2 ^ j) div 2 ^ nat (- e) = rnd53 m * 2 ^ i"
      unfolding rnd53_shift by (simp add: i power_add)
    ultimately show ?thesis using 2 by (simp add: dtrunc_dround)
  next
    case 3
    then have "nat (- e) = nat (- (int j + e)) + j" by simp
    then show ?thesis using 3 by (simp add: dtrunc_dround rnd53_shift power_add)
  qed
qed

lemma scaled_eq:
  "scaled n (Dbl p e) =
     (if 0 \<le> e then rnd53 (rnd53 n * p) * 2 ^ nat e else rnd53 (rnd53 n * p) div 2 ^ nat (- e))"
proof -
  have "scaled n (Dbl p e) = dtrunc (dround (rne (excess n) n * p) (int (excess n) + e))"
    by (simp add: scaled_def dmul_def dbl_of_nat_def dround_def)
  also have "\<dots> = dtrunc (dround (rnd53 n * p) e)"
    by (simp add: dtrunc_dround_shift rnd53_def mult_ac)
  finally show ?thesis by (simp add: dtrunc_dround)
qed

lemma scaled_mono: "m \<le> n \<Longrightarrow> scaled m x \<le> scaled n x"
  by (cases x) (simp add: scaled_eq div_le_mono rnd53_mono)

lemma scaled_0 [simp]: "scaled 0 x = 0"
  by (cases x) (simp add: scaled_eq rnd53_small)

end
