(* ===== verification/Hist.thy ===== *)
theory Hist
  imports Interfaces Doubles "HOL-Library.Multiset"
begin

text \<open>
  \<^verbatim>\<open>include/hist.hpp\<close>: the HDR-style latency histogram. The four atomics are the fields
  of a record; the gateway thread is the only writer of a histogram, so \<^verbatim>\<open>record\<close> is one
  state transition, except for its compare-exchange loop, whose weak exchanges may fail
  spuriously: the list \<open>fs\<close> says which attempts do. \<^verbatim>\<open>percentile\<close> computes its rank in
  double arithmetic, modelled in \<open>Doubles\<close>.
\<close>

definition kSubBits :: nat where "kSubBits = 6"
definition kSub :: nat where "kSub = 2 ^ kSubBits"
definition kLinear :: nat where "kLinear = 2 * kSub"
definition kMaxOctave :: nat where "kMaxOctave = 40"
definition kBuckets :: nat where "kBuckets = kLinear + (kMaxOctave - (kSubBits + 1)) * kSub"

text \<open>\<^verbatim>\<open>__builtin_clzll\<close> on a value that is not zero.\<close>

definition clzll :: "u64 \<Rightarrow> nat" where
  "clzll v = 64 - nbits (unat v)"

definition i32_chk :: "nat \<Rightarrow> nat cpp" where
  "i32_chk n = (if n < 2 ^ 31 then Inr n else Inl Signed_overflow)"

definition bucket_of :: "u64 \<Rightarrow> nat cpp" where
  "bucket_of v =
     (if v < of_nat kLinear then Inr (unat v)
      else let oct0 = 63 - clzll v;
               oct = (if oct0 \<ge> kMaxOctave then kMaxOctave - 1 else oct0);
               sub = drop_bit (oct - kSubBits) (v - push_bit oct 1)
           in i32_chk (kLinear + (oct - (kSubBits + 1)) * kSub + unat sub))"

definition value_of :: "nat \<Rightarrow> u64" where
  "value_of b =
     (if b < kLinear then of_nat b
      else let idx = b - kLinear;
               oct = kSubBits + 1 + idx div kSub;
               sub = idx mod kSub;
               base = push_bit oct 1;
               width = push_bit (oct - kSubBits) 1
           in base + of_nat sub * width + width div 2)"

record histogram =
  buckets :: "u64 list"
  count :: u64
  sum_ns :: u64
  max_ns :: u64

definition hist_new :: histogram where
  "hist_new = \<lparr>buckets = replicate kBuckets 0, count = 0, sum_ns = 0, max_ns = 0\<rparr>"

text \<open>
  The loop \<^verbatim>\<open>while (ns > cur && !max_.compare_exchange_weak(cur, ns))\<close>: the head of
  \<open>fs\<close> says whether this exchange fails spuriously; a failed exchange reloads \<^verbatim>\<open>cur\<close>.
\<close>

function max_loop :: "bool list \<Rightarrow> u64 \<Rightarrow> u64 \<Rightarrow> u64 \<Rightarrow> u64" where
  "max_loop fs ns cur mx =
     (if cur < ns then
        if mx = cur \<and> (fs = [] \<or> \<not> hd fs) then ns else max_loop (tl fs) ns mx mx
      else mx)"
  by pat_completeness auto
termination
  by (relation "measure (\<lambda>(fs, ns, cur, mx). length fs + (if mx = cur then 0 else 1))")
    (auto simp: neq_Nil_conv)

declare max_loop.simps [simp del]

definition hist_record :: "bool list \<Rightarrow> u64 \<Rightarrow> histogram \<Rightarrow> histogram cpp" where
  "hist_record fs ns h =
     cpp_bind (bucket_of ns) (\<lambda>b.
       if b < length (buckets h) then
         Inr \<lparr>buckets = (buckets h)[b := buckets h ! b + 1], count = count h + 1,
           sum_ns = sum_ns h + ns, max_ns = max_loop fs ns (max_ns h) (max_ns h)\<rparr>
       else Inl Out_of_bounds)"

fun hist_records :: "u64 list \<Rightarrow> histogram \<Rightarrow> histogram cpp" where
  "hist_records [] h = Inr h"
| "hist_records (x # xs) h = cpp_bind (hist_record [] x h) (hist_records xs)"

record snapshot =
  s_count :: u64
  s_mean :: u64
  s_p50 :: u64
  s_p99 :: u64
  s_p999 :: u64
  s_max :: u64

fun pct_scan :: "u64 \<Rightarrow> u64 \<Rightarrow> nat \<Rightarrow> u64 list \<Rightarrow> u64" where
  "pct_scan target cum i [] = value_of (kBuckets - 1)"
| "pct_scan target cum i (b # bs) =
     (let cum' = cum + b in if cum' \<ge> target then value_of i else pct_scan target cum' (Suc i) bs)"

definition percentile :: "u64 list \<Rightarrow> u64 \<Rightarrow> dbl \<Rightarrow> u64 cpp" where
  "percentile b tot p =
     cpp_bind (dbl_to_u64 (dmul (dbl_of_nat (unat tot)) p)) (\<lambda>target.
       Inr (pct_scan target 0 0 b))"

text \<open>The literals \<^verbatim>\<open>0.50\<close>, \<^verbatim>\<open>0.99\<close> and \<^verbatim>\<open>0.999\<close> as doubles.\<close>

definition d50 :: dbl where "d50 = Dbl 4503599627370496 (- 53)"
definition d99 :: dbl where "d99 = Dbl 8917127262193582 (- 53)"
definition d999 :: dbl where "d999 = Dbl 8998192055486251 (- 53)"

definition hist_snapshot :: "histogram \<Rightarrow> snapshot cpp" where
  "hist_snapshot h =
     (let b = buckets h; tot = sum_list b;
          s = \<lparr>s_count = tot, s_mean = 0, s_p50 = 0, s_p99 = 0, s_p999 = 0, s_max = max_ns h\<rparr>
      in if tot = 0 then Inr s
         else cpp_bind (percentile b tot d50) (\<lambda>p50.
              cpp_bind (percentile b tot d99) (\<lambda>p99.
              cpp_bind (percentile b tot d999) (\<lambda>p999.
                Inr (s\<lparr>s_mean := sum_ns h div tot, s_p50 := p50, s_p99 := p99, s_p999 := p999\<rparr>)))))"

definition hist_reset :: "histogram \<Rightarrow> histogram" where
  "hist_reset h = \<lparr>buckets = map (\<lambda>_. 0) (buckets h), count = 0, sum_ns = 0, max_ns = 0\<rparr>"

text \<open>
  Reference definitions on natural numbers: the bucket of a value below \<open>2 ^ 40\<close>, and
  the samples a histogram has recorded.
\<close>

definition octave :: "nat \<Rightarrow> nat" where
  "octave v = nbits v - 1"

definition bucket_nat :: "nat \<Rightarrow> nat" where
  "bucket_nat v = (if v < 128 then v else 128 + (octave v - 7) * 64 + (v - 2 ^ octave v) div 2 ^ (octave v - 6))"

definition value_nat :: "nat \<Rightarrow> nat" where
  "value_nat b = (if b < 128 then b
     else let oct = 7 + (b - 128) div 64; sub = (b - 128) mod 64
          in 2 ^ oct + sub * 2 ^ (oct - 6) + 2 ^ (oct - 7))"

definition in_range :: "u64 \<Rightarrow> bool" where
  "in_range v \<longleftrightarrow> unat v < 2 ^ 40"

definition hist_of :: "u64 list \<Rightarrow> histogram \<Rightarrow> bool" where
  "hist_of xs h \<longleftrightarrow> length (buckets h) = kBuckets \<and>
     (\<forall>i < kBuckets. buckets h ! i = of_nat (length (filter (\<lambda>x. bucket_of x = Inr i) xs))) \<and>
     count h = of_nat (length xs) \<and> sum_ns h = sum_list xs \<and> max_ns h = fold max xs 0"

definition within_128th :: "u64 \<Rightarrow> u64 \<Rightarrow> bool" where
  "within_128th a v \<longleftrightarrow> 127 * unat v \<le> 128 * unat a \<and> 128 * unat a \<le> 129 * unat v"

lemmas hist_consts = kSubBits_def kSub_def kLinear_def kMaxOctave_def kBuckets_def

section \<open>Buckets\<close>

lemma octave_bounds: "0 < v \<Longrightarrow> 2 ^ octave v \<le> v \<and> v < 2 ^ Suc (octave v)"
  using nbits_bounds [of v] by (auto simp: octave_def)

lemma octave_unique: "2 ^ k \<le> v \<Longrightarrow> v < 2 ^ Suc k \<Longrightarrow> octave v = k"
  using nbits_unique by (simp add: octave_def)

lemma octave_mono: "v \<le> w \<Longrightarrow> octave v \<le> octave w"
  using nbits_mono by (auto simp: octave_def diff_le_mono)

lemma pow_mono_exp: "(2::nat) ^ a < 2 ^ b \<Longrightarrow> a < b"
  by (metis power_less_imp_less_exp one_less_numeral_iff semiring_norm(76))

lemma octave_range:
  assumes "128 \<le> v" "v < 2 ^ n"
  shows "7 \<le> octave v" "octave v < n"
proof -
  have b: "2 ^ octave v \<le> v" "v < 2 ^ Suc (octave v)" using octave_bounds [of v] assms(1) by auto
  have "(2::nat) ^ 7 < 2 ^ Suc (octave v)" using b(2) assms(1) by simp
  then have "7 < Suc (octave v)" by (rule pow_mono_exp)
  then show "7 \<le> octave v" by simp
  have "(2::nat) ^ octave v < 2 ^ n" using b(1) assms(2) by linarith
  then show "octave v < n" by (rule pow_mono_exp)
qed

lemma clzll_octave:
  assumes "0 < unat v"
  shows "63 - clzll v = octave (unat v)"
proof -
  have "(2::nat) ^ (nbits (unat v) - 1) < 2 ^ 64"
    using nbits_bounds [OF assms] unat_u64_less [of v] by linarith
  then have "nbits (unat v) - 1 < 64" by (rule pow_mono_exp)
  then show ?thesis using nbits_bounds [OF assms] by (simp add: clzll_def octave_def)
qed

lemma unat_sub_octave:
  assumes "k < 64" "2 ^ k \<le> unat (v :: u64)" "j \<le> k"
  shows "unat (drop_bit j (v - push_bit k 1)) = (unat v - 2 ^ k) div 2 ^ j"
proof -
  have "push_bit k 1 \<le> v" using assms(1,2) by (simp add: word_le_nat_alt unat_two_power)
  then have "unat (v - push_bit k 1) = unat v - 2 ^ k" using assms(1) by (simp add: unat_sub unat_two_power)
  then show ?thesis using assms(1,3) by (simp add: drop_bit_eq_div unat_div unat_two_power)
qed

lemma linear_iff: "v < of_nat kLinear \<longleftrightarrow> unat (v :: u64) < 128"
  by (simp add: word_less_nat_alt hist_consts)

lemma not_linear: "\<not> unat (v :: u64) < 128 \<Longrightarrow> \<not> v < 128"
  by (simp add: word_less_nat_alt)

lemma sub_lt: "0 < v \<Longrightarrow> 6 \<le> octave v \<Longrightarrow> (v - 2 ^ octave v) div 2 ^ (octave v - 6) < 64"
proof -
  assume "0 < v" and o: "6 \<le> octave v"
  then have "v < 2 * 2 ^ octave v" using octave_bounds [of v] by simp
  moreover have "(2::nat) ^ octave v = 64 * 2 ^ (octave v - 6)"
    using power_add [of "2::nat" 6 "octave v - 6"] o by simp
  ultimately show ?thesis by (simp add: less_mult_imp_div_less)
qed

lemma bucket_of_nat:
  assumes "in_range v"
  shows "bucket_of v = Inr (bucket_nat (unat v))"
proof (cases "unat v < 128")
  case True
  then show ?thesis by (simp add: bucket_of_def linear_iff bucket_nat_def)
next
  case False
  let ?o = "octave (unat v)"
  have o: "7 \<le> ?o" "?o < 40" using octave_range [of "unat v" 40] False assms by (auto simp: in_range_def)
  have b: "2 ^ ?o \<le> unat v" using octave_bounds [of "unat v"] False by simp
  have s: "unat (drop_bit (?o - 6) (v - push_bit ?o 1)) = (unat v - 2 ^ ?o) div 2 ^ (?o - 6)"
    using unat_sub_octave [OF _ b] o by simp
  have "(unat v - 2 ^ ?o) div 2 ^ (?o - 6) < 64" using sub_lt [of "unat v"] False o by simp
  moreover have "(?o - 7) * 64 \<le> 2048" using o by simp
  ultimately have "128 + (?o - 7) * 64 + (unat v - 2 ^ ?o) div 2 ^ (?o - 6) < 2 ^ 31" by simp
  then show ?thesis using False not_linear [OF False] o s clzll_octave [of v]
    by (simp add: bucket_of_def linear_iff bucket_nat_def i32_chk_def Let_def hist_consts)
qed

lemma bucket_nat_lt: "v < 2 ^ 40 \<Longrightarrow> bucket_nat v < kBuckets"
proof (cases "v < 128")
  case False
  assume "v < 2 ^ 40"
  with False have o: "7 \<le> octave v" "octave v < 40" using octave_range [of v 40] by auto
  then have "(v - 2 ^ octave v) div 2 ^ (octave v - 6) < 64" using sub_lt [of v] False by simp
  moreover have "(octave v - 7) * 64 \<le> 32 * 64" using o by simp
  ultimately show ?thesis using False by (simp add: bucket_nat_def hist_consts)
qed (simp add: bucket_nat_def hist_consts)

lemma bucket_of_overrun:
  assumes "\<not> in_range v"
  shows "bucket_of v = Inl Signed_overflow \<or> (\<exists>b \<ge> kBuckets. bucket_of v = Inr b)"
proof -
  have v: "2 ^ 40 \<le> unat v" using assms by (simp add: in_range_def)
  have "2 ^ 40 \<le> unat v" "unat v < 2 ^ 64" using v unat_u64_less [of v] by auto
  then have "(2::nat) ^ 40 < 2 ^ Suc (octave (unat v))" using octave_bounds [of "unat v"] by simp
  then have "40 \<le> octave (unat v)" using pow_mono_exp [of 40] by fastforce
  then have oct: "kMaxOctave \<le> 63 - clzll v" using clzll_octave [of v] v by (simp add: hist_consts)
  have "unat (drop_bit 33 (v - push_bit 39 1)) = (unat v - 2 ^ 39) div 2 ^ 33"
    using unat_sub_octave [of 39 v 33] v by simp
  moreover have "64 \<le> (unat v - 2 ^ 39) div 2 ^ 33" using v by simp
  ultimately have "kBuckets \<le> kLinear + (39 - (kSubBits + 1)) * kSub + unat (drop_bit 33 (v - push_bit 39 1))"
    by (simp add: hist_consts)
  then show ?thesis using oct v
    by (auto simp: bucket_of_def linear_iff i32_chk_def Let_def kMaxOctave_def kSubBits_def)
qed

section \<open>Representatives\<close>

lemma pow_split6: "7 \<le> k \<Longrightarrow> (2::nat) ^ k = 64 * 2 ^ (k - 6) \<and> (2::nat) ^ (k - 6) = 2 * 2 ^ (k - 7)"
  using power_add [of "2::nat" 6 "k - 6"] power_add [of "2::nat" 1 "k - 7"]
  by (simp add: Suc_diff_le [symmetric] numeral_eq_Suc)

lemma value_nat_bound:
  assumes "b < kBuckets" shows "value_nat b < 2 ^ 40"
proof (cases "b < 128")
  case False
  define k where "k = 7 + (b - 128) div 64"
  define s where "s = (b - 128) mod 64"
  have k: "k < 40" "7 \<le> k" using assms by (simp_all add: hist_consts k_def)
  have "s * 2 ^ (k - 6) \<le> 63 * 2 ^ (k - 6)" by (rule mult_le_mono1) (simp add: s_def)
  then have "2 ^ k + s * 2 ^ (k - 6) + 2 ^ (k - 7) < 2 ^ Suc k"
    using pow_split6 [OF k(2)] zero_less_power [of "2::nat" "k - 7"] by simp
  moreover have "value_nat b = 2 ^ k + s * 2 ^ (k - 6) + 2 ^ (k - 7)"
    using False by (simp add: value_nat_def k_def s_def Let_def)
  moreover have "(2::nat) ^ Suc k \<le> 2 ^ 40" using k by (intro power_increasing) simp_all
  ultimately show ?thesis by linarith
qed (simp add: value_nat_def)

lemma word_half_pow: "Suc j < 64 \<Longrightarrow> (2 :: u64) ^ Suc j div 2 = 2 ^ j"
  by (simp only: word_unat_eq_iff unat_div unat_two_power) (simp add: unat_two_power)

lemma value_of_nat:
  assumes "b < kBuckets" shows "value_of b = of_nat (value_nat b)"
proof (cases "b < 128")
  case True
  then show ?thesis by (simp add: value_of_def value_nat_def hist_consts)
next
  case False
  let ?k = "7 + (b - 128) div 64"
  have "?k - 6 = Suc (?k - 7)" "?k < 40" using assms by (simp_all add: hist_consts)
  then have "(2 :: u64) ^ (?k - 6) div 2 = 2 ^ (?k - 7)" using word_half_pow [of "?k - 7"] by simp
  then show ?thesis using False
    by (simp add: value_of_def value_nat_def hist_consts Let_def)
qed

lemma unat_value_of: "b < kBuckets \<Longrightarrow> unat (value_of b) = value_nat b"
  using value_nat_bound [of b] by (simp add: value_of_nat unat_of_nat)

lemma bucket_decompose:
  assumes v: "128 \<le> v" "v < 2 ^ 40"
  defines "k \<equiv> octave v"
  defines "s \<equiv> (v - 2 ^ k) div 2 ^ (k - 6)"
  shows "bucket_nat v = 128 + (k - 7) * 64 + s" and "s < 64" and "7 \<le> k"
    and "2 ^ k + s * 2 ^ (k - 6) \<le> v" and "v < 2 ^ k + (s + 1) * 2 ^ (k - 6)"
    and "value_nat (bucket_nat v) = 2 ^ k + s * 2 ^ (k - 6) + 2 ^ (k - 7)"
proof -
  show k: "7 \<le> k" using octave_range [OF v] by (simp add: k_def)
  show s: "s < 64" using sub_lt [of v] v k by (simp add: s_def k_def)
  show b: "bucket_nat v = 128 + (k - 7) * 64 + s" using v by (simp add: bucket_nat_def k_def s_def)
  have low: "2 ^ k \<le> v" using octave_bounds [of v] v by (simp add: k_def)
  have "v - 2 ^ k = s * 2 ^ (k - 6) + (v - 2 ^ k) mod 2 ^ (k - 6)"
    unfolding s_def by (rule div_mult_mod_eq [symmetric])
  moreover have "(v - 2 ^ k) mod 2 ^ (k - 6) < 2 ^ (k - 6)" by simp
  ultimately show "2 ^ k + s * 2 ^ (k - 6) \<le> v" "v < 2 ^ k + (s + 1) * 2 ^ (k - 6)"
    using low by (simp_all only: add_mult_distrib mult_1 nat_1_eq_mult_iff)
  have "((k - 7) * 64 + s) div 64 = k - 7" "((k - 7) * 64 + s) mod 64 = s" using s by simp_all
  then show "value_nat (bucket_nat v) = 2 ^ k + s * 2 ^ (k - 6) + 2 ^ (k - 7)"
    using k by (simp add: b value_nat_def Let_def)
qed

lemma value_error:
  assumes "v < 2 ^ 40"
  shows "128 * value_nat (bucket_nat v) \<le> 129 * v" and "127 * v \<le> 128 * value_nat (bucket_nat v)"
proof -
  have "128 * value_nat (bucket_nat v) \<le> 129 * v \<and> 127 * v \<le> 128 * value_nat (bucket_nat v)"
  proof (cases "v < 128")
    case True
    then show ?thesis by (simp add: bucket_nat_def value_nat_def)
  next
    case False
    define k where "k = octave v"
    define s where "s = (v - 2 ^ k) div 2 ^ (k - 6)"
    note d = bucket_decompose [of v, folded k_def, folded s_def]
    have h: "(2::nat) ^ k = 64 * 2 ^ (k - 6)" "(2::nat) ^ (k - 6) = 2 * 2 ^ (k - 7)"
      using pow_split6 [of k] d(3) False assms by auto
    then show ?thesis using d(4-6) False assms by (simp add: algebra_simps)
  qed
  then show "128 * value_nat (bucket_nat v) \<le> 129 * v" "127 * v \<le> 128 * value_nat (bucket_nat v)" by auto
qed

lemma bucket_nat_value:
  assumes "b < kBuckets" shows "bucket_nat (value_nat b) = b"
proof (cases "b < 128")
  case True
  then show ?thesis by (simp add: bucket_nat_def value_nat_def)
next
  case False
  define k where "k = 7 + (b - 128) div 64"
  define s where "s = (b - 128) mod 64"
  have k: "7 \<le> k" and s: "s < 64" by (simp_all add: k_def s_def)
  have h: "(2::nat) ^ k = 64 * 2 ^ (k - 6)" "(2::nat) ^ (k - 6) = 2 * 2 ^ (k - 7)"
    using pow_split6 [OF k] by auto
  have val: "value_nat b = 2 ^ k + (s * 2 ^ (k - 6) + 2 ^ (k - 7))"
    using False by (simp add: value_nat_def k_def s_def Let_def)
  have "s * 2 ^ (k - 6) \<le> 63 * 2 ^ (k - 6)" using s by (intro mult_le_mono1) simp
  then have "value_nat b < 2 ^ Suc k" using val h by simp
  then have oct: "octave (value_nat b) = k" using val by (intro octave_unique) simp_all
  have "(s * 2 ^ (k - 6) + 2 ^ (k - 7)) div 2 ^ (k - 6) = s"
    using h(2) by (simp add: div_nat_eqI)
  moreover have "(2::nat) ^ 7 \<le> 2 ^ k" using k by (rule power_increasing) simp
  then have "128 \<le> value_nat b" using val by simp
  ultimately have "bucket_nat (value_nat b) = 128 + (k - 7) * 64 + s"
    by (simp add: bucket_nat_def oct [unfolded val] val)
  then show ?thesis using False by (simp add: k_def s_def)
qed

lemma bucket_nat_mono:
  assumes "v \<le> w" "w < 2 ^ 40" shows "bucket_nat v \<le> bucket_nat w"
proof (cases "v < 128")
  case True
  then show ?thesis using assms by (auto simp: bucket_nat_def)
next
  case False
  then have v: "128 \<le> v" "v < 2 ^ 40" and w: "128 \<le> w" using assms by auto
  show ?thesis
  proof (cases "octave v = octave w")
    case True
    then show ?thesis using v w assms by (simp add: bucket_nat_def diff_le_mono div_le_mono)
  next
    case False
    then have "octave v - 7 < octave w - 7"
      using octave_mono [OF assms(1)] octave_range [OF v] by linarith
    then have "(octave v - 7) * 64 + 64 \<le> (octave w - 7) * 64" by linarith
    then show ?thesis using bucket_decompose(1,2) [OF v] bucket_decompose(1) [OF w assms(2)] by linarith
  qed
qed

section \<open>Recording\<close>

lemma max_loop_eq: "cur \<le> mx \<Longrightarrow> max_loop fs ns cur mx = max ns mx"
proof (induction fs ns cur mx rule: max_loop.induct)
  case (1 fs ns cur mx)
  then show ?case
    by (subst max_loop.simps) (auto simp: max_def)
qed

lemma hist_of_new: "hist_of [] hist_new"
  by (simp add: hist_of_def hist_new_def)

lemma hist_record_step:
  assumes h: "hist_of xs h" and x: "in_range x"
  shows "\<exists>h'. hist_record fs x h = Inr h' \<and> hist_of (xs @ [x]) h'"
proof -
  let ?b = "bucket_nat (unat x)"
  have b: "?b < kBuckets" using x by (simp add: in_range_def bucket_nat_lt)
  have bo: "bucket_of x = Inr ?b" using x by (rule bucket_of_nat)
  have "hist_record fs x h = Inr \<lparr>buckets = (buckets h)[?b := buckets h ! ?b + 1],
      count = count h + 1, sum_ns = sum_ns h + x, max_ns = max x (max_ns h)\<rparr>"
    using h b by (simp add: hist_record_def bo hist_of_def max_loop_eq)
  moreover have "hist_of (xs @ [x]) \<lparr>buckets = (buckets h)[?b := buckets h ! ?b + 1],
      count = count h + 1, sum_ns = sum_ns h + x, max_ns = max x (max_ns h)\<rparr>"
    using h b by (auto simp: hist_of_def bo nth_list_update add.commute)
  ultimately show ?thesis by blast
qed

lemma hist_records_of:
  assumes "hist_of xs h" "list_all in_range ys"
  shows "\<exists>h'. hist_records ys h = Inr h' \<and> hist_of (xs @ ys) h'"
  using assms
proof (induction ys arbitrary: xs h)
  case (Cons y ys)
  then obtain h1 where h1: "hist_record [] y h = Inr h1" "hist_of (xs @ [y]) h1"
    using hist_record_step [of xs h y "[]"] by auto
  with Cons.IH [OF h1(2)] Cons.prems show ?case by simp
qed simp

lemma hist_record_overrun:
  assumes "length (buckets h) = kBuckets" "\<not> in_range x"
  shows "hist_record fs x h = Inl Out_of_bounds \<or> hist_record fs x h = Inl Signed_overflow"
  using bucket_of_overrun [OF assms(2)] assms(1) by (auto simp: hist_record_def)

section \<open>Ranks and percentiles\<close>

lemma pct_scan_eq:
  assumes "j < length cs" "\<And>k. k < j \<Longrightarrow> c + sum_list (take (Suc k) cs) < T"
    "T \<le> c + sum_list (take (Suc j) cs)" "c + sum_list cs < 2 ^ 64"
  shows "pct_scan (of_nat T) (of_nat c) i (map of_nat cs) = value_of (i + j)"
  using assms
proof (induction cs arbitrary: c i j)
  case (Cons d cs)
  have t: "T < 2 ^ 64"
    using Cons.prems(3,4) sum_list_append [of "take (Suc j) (d # cs)" "drop (Suc j) (d # cs)"]
    by (metis append_take_drop_id le_add1 add_left_mono le_less_trans)
  have ge: "of_nat T \<le> (of_nat (c + d) :: u64) \<longleftrightarrow> T \<le> c + d"
    using t Cons.prems(4) by (simp add: word_le_nat_alt unat_of_nat_u64 del: of_nat_add)
  show ?case
  proof (cases j)
    case 0
    then show ?thesis using Cons.prems(3) ge by simp
  next
    case (Suc j')
    then have "c + d < T" using Cons.prems(2) [of 0] by simp
    moreover have "pct_scan (of_nat T) (of_nat (c + d)) (Suc i) (map of_nat cs) = value_of (Suc i + j')"
    proof (rule Cons.IH)
      show "c + d + sum_list (take (Suc k) cs) < T" if "k < j'" for k
        using Cons.prems(2) [of "Suc k"] that Suc by (simp add: add.assoc)
    qed (use Cons.prems Suc in \<open>simp_all add: add.assoc\<close>)
    ultimately show ?thesis using ge Suc by simp
  qed
qed simp

lemma sum_counts:
  fixes g :: "'a \<Rightarrow> nat"
  shows "sum_list (map (\<lambda>i. length (filter (\<lambda>x. g x = i) xs)) [0..<n]) = length (filter (\<lambda>x. g x < n) xs)"
proof (induction n)
  case (Suc n)
  have "length (filter (\<lambda>x. g x < Suc n) xs) =
      length (filter (\<lambda>x. g x < n) xs) + length (filter (\<lambda>x. g x = n) xs)"
    by (induction xs) (auto simp: less_Suc_eq)
  then show ?case using Suc by simp
qed simp

lemma sorted_rank:
  fixes g :: "'a::linorder \<Rightarrow> nat"
  assumes mono: "\<And>x y. x \<in> set xs \<Longrightarrow> y \<in> set xs \<Longrightarrow> x \<le> y \<Longrightarrow> g x \<le> g y"
    and T: "0 < T" "T \<le> length xs"
  shows "T \<le> length (filter (\<lambda>x. g x \<le> g (sort xs ! (T - 1))) xs)"
    and "k < g (sort xs ! (T - 1)) \<Longrightarrow> length (filter (\<lambda>x. g x \<le> k) xs) < T"
proof -
  let ?ys = "sort xs" and ?y = "sort xs ! (T - 1)"
  have same: "length (filter P xs) = length (filter P ?ys)" for P
    by (metis mset_filter mset_sort size_mset)
  have split: "length (filter P ?ys) = length (filter P (take n ?ys)) + length (filter P (drop n ?ys))" for P n
    by (metis append_take_drop_id filter_append length_append)
  have in_set: "?ys ! i \<in> set xs" if "i < length xs" for i using that by (metis length_sort nth_mem set_sort)
  have low: "g (?ys ! i) \<le> g ?y" if "i < T" for i
    using that T by (intro mono in_set) (auto intro: sorted_nth_mono)
  have high: "g ?y \<le> g (?ys ! i)" if "T - 1 \<le> i" "i < length xs" for i
    using that T by (intro mono in_set) (auto intro: sorted_nth_mono)
  have "filter (\<lambda>x. g x \<le> g ?y) (take T ?ys) = take T ?ys"
    using low T by (intro filter_True) (auto simp: in_set_conv_nth)
  then show "T \<le> length (filter (\<lambda>x. g x \<le> g ?y) xs)"
    using same split [of _ T] T by simp
  assume k: "k < g ?y"
  have "g x > k" if "x \<in> set (drop (T - 1) ?ys)" for x
  proof -
    from that obtain j where "j < length xs - (T - 1)" "x = ?ys ! (T - 1 + j)"
      by (auto simp: in_set_conv_nth)
    moreover from this have "T - 1 + j < length xs" by linarith
    ultimately show ?thesis using high [of "T - 1 + j"] k by simp
  qed
  then have "filter (\<lambda>x. g x \<le> k) (drop (T - 1) ?ys) = []" by (simp add: filter_empty_conv not_le)
  moreover have "length (filter (\<lambda>x. g x \<le> k) (take (T - 1) ?ys)) \<le> T - 1"
    by (rule le_trans [OF length_filter_le]) simp
  ultimately show "length (filter (\<lambda>x. g x \<le> k) xs) < T"
    using same split [of _ "T - 1"] T by simp
qed

lemma hist_of_buckets:
  assumes "hist_of xs h" "list_all in_range xs"
  shows "buckets h = map of_nat
    (map (\<lambda>i. length (filter (\<lambda>x. bucket_nat (unat x) = i) xs)) [0..<kBuckets])"
proof -
  have "filter (\<lambda>x. bucket_of x = Inr i) xs = filter (\<lambda>x. bucket_nat (unat x) = i) xs" for i
    using assms(2) by (intro filter_cong) (auto simp: list_all_iff bucket_of_nat)
  then show ?thesis using assms(1) by (intro nth_equalityI) (auto simp: hist_of_def)
qed

lemma hist_of_total:
  assumes "hist_of xs h" "list_all in_range xs"
  shows "sum_list (buckets h) = of_nat (length xs)"
proof -
  let ?cs = "map (\<lambda>i. length (filter (\<lambda>x. bucket_nat (unat x) = i) xs)) [0..<kBuckets]"
  have "filter (\<lambda>x. bucket_nat (unat x) < kBuckets) xs = xs"
    using assms(2) by (intro filter_True) (auto simp: list_all_iff in_range_def bucket_nat_lt)
  then have "sum_list ?cs = length xs" by (simp add: sum_counts)
  moreover have "sum_list (map of_nat ns) = (of_nat (sum_list ns) :: u64)" for ns
    by (induction ns) auto
  ultimately show ?thesis by (simp only: hist_of_buckets [OF assms])
qed

lemma pct_rank:
  assumes h: "hist_of xs h" and xs: "list_all in_range xs" "length xs < 2 ^ 64"
    and T: "0 < T" "T \<le> length xs"
  shows "pct_scan (of_nat T) 0 0 (buckets h) = value_of (bucket_nat (unat (sort xs ! (T - 1))))"
proof -
  define g where "g = (\<lambda>x :: u64. bucket_nat (unat x))"
  define cs where "cs = map (\<lambda>i. length (filter (\<lambda>x. g x = i) xs)) [0..<kBuckets]"
  let ?j = "g (sort xs ! (T - 1))"
  have mem: "sort xs ! (T - 1) \<in> set xs"
    using T by (metis One_nat_def Suc_le_eq diff_less le_trans length_sort less_imp_le less_le_trans nth_mem
        set_sort zero_less_one)
  then have j: "?j < kBuckets" using xs(1) by (auto simp: g_def list_all_iff in_range_def bucket_nat_lt)
  have mono: "g x \<le> g y" if "x \<in> set xs" "y \<in> set xs" "x \<le> y" for x y
    using that xs(1) unfolding g_def
    by (intro bucket_nat_mono) (auto simp: word_le_nat_alt list_all_iff in_range_def)
  have take: "sum_list (take (Suc k) cs) = length (filter (\<lambda>x. g x \<le> k) xs)" if "k < kBuckets" for k
    using that sum_counts [of g xs "Suc k"] by (simp add: cs_def take_map less_Suc_eq_le del: upt_Suc)
  have "sum_list cs \<le> length xs" using sum_counts [of g xs kBuckets] by (simp add: cs_def)
  then have "pct_scan (of_nat T) (of_nat 0) 0 (map of_nat cs) = value_of (0 + ?j)"
    using j take sorted_rank [OF mono T] xs(2) by (intro pct_scan_eq) (auto simp: cs_def)
  then show ?thesis by (simp add: hist_of_buckets [OF h xs(1)] cs_def g_def)
qed

lemma scaled_fraction:
  assumes "n < 2 ^ 53" "q \<le> 2 ^ 53"
  shows "scaled n (Dbl q (- 53)) \<le> n"
proof -
  have "rnd53 (rnd53 n * q) \<le> rnd53 (n * 2 ^ 53)"
    using assms by (intro rnd53_mono) (simp add: rnd53_small)
  also have "\<dots> = n * 2 ^ 53" using assms(1) by (simp only: rnd53_shift rnd53_small)
  finally have "rnd53 (rnd53 n * q) div 2 ^ 53 \<le> n * 2 ^ 53 div 2 ^ 53" by (rule div_le_mono)
  then show ?thesis by (simp add: scaled_eq)
qed

lemma scaled_half: "n < 2 ^ 53 \<Longrightarrow> scaled n d50 = n div 2"
proof -
  assume n: "n < 2 ^ 53"
  have "rnd53 (n * 2 ^ 52) = n * 2 ^ 52" using n by (simp only: rnd53_shift rnd53_small)
  then show ?thesis using n by (simp add: scaled_eq d50_def rnd53_small)
qed

lemma scaled_two: "q < 2 ^ 53 \<Longrightarrow> scaled 2 (Dbl q (- 53)) = 2 * q div 2 ^ 53"
  using rnd53_shift [of q 1] by (simp add: scaled_eq rnd53_small mult.commute)

lemma scaled_lower:
  assumes "2 \<le> n" "p \<in> {d50, d99, d999}"
  shows "1 \<le> scaled n p"
proof -
  have "scaled 2 d50 = 1" "scaled 2 d99 = 1" "scaled 2 d999 = 1"
    by (simp_all add: d50_def d99_def d999_def scaled_two)
  then have "scaled 2 p = 1" using assms(2) by auto
  with scaled_mono [OF assms(1), of p] show ?thesis by simp
qed

lemma percentile_eq:
  assumes h: "hist_of xs h" "list_all in_range xs" and n: "2 \<le> length xs" "length xs < 2 ^ 53"
    and p: "p \<in> {d50, d99, d999}"
  shows "percentile (buckets h) (of_nat (length xs)) p =
    Inr (value_of (bucket_nat (unat (sort xs ! (scaled (length xs) p - 1)))))"
proof -
  let ?T = "scaled (length xs) p"
  have le: "?T \<le> length xs"
    using p scaled_fraction [OF n(2)] by (auto simp: d50_def d99_def d999_def)
  have n64: "length xs < 2 ^ 64" using n(2) by simp
  then have t: "dtrunc (dmul (dbl_of_nat (unat (of_nat (length xs) :: u64))) p) = ?T"
    by (simp add: scaled_def unat_of_nat_u64)
  have "pct_scan (of_nat ?T) 0 0 (buckets h) = value_of (bucket_nat (unat (sort xs ! (?T - 1))))"
    using pct_rank [OF h n64 _ le] scaled_lower [OF n(1) p] by simp
  moreover have "?T < 2 ^ 64" using le n64 by simp
  ultimately show ?thesis by (simp add: percentile_def dbl_to_u64_def t)
qed

lemma snapshot_eq:
  assumes h: "hist_of xs h" "list_all in_range xs" and n: "2 \<le> length xs" "length xs < 2 ^ 53"
  shows "hist_snapshot h = Inr \<lparr>s_count = of_nat (length xs), s_mean = sum_list xs div of_nat (length xs),
    s_p50 = value_of (bucket_nat (unat (sort xs ! (length xs div 2 - 1)))),
    s_p99 = value_of (bucket_nat (unat (sort xs ! (scaled (length xs) d99 - 1)))),
    s_p999 = value_of (bucket_nat (unat (sort xs ! (scaled (length xs) d999 - 1)))),
    s_max = fold max xs 0\<rparr>"
proof -
  have "unat (of_nat (length xs) :: u64) = length xs" using n(2) by (intro unat_of_nat_u64) simp
  then have "(of_nat (length xs) :: u64) \<noteq> 0" using n(1) by auto
  moreover have "max_ns h = fold max xs 0" "sum_ns h = sum_list xs" using h(1) by (simp_all add: hist_of_def)
  ultimately show ?thesis
    using percentile_eq [OF h n, of d50] percentile_eq [OF h n, of d99] percentile_eq [OF h n, of d999]
      scaled_half [OF n(2)]
    by (simp add: hist_snapshot_def hist_of_total [OF h] Let_def)
qed

lemma unat_value_bucket: "in_range x \<Longrightarrow> unat (value_of (bucket_nat (unat x))) = value_nat (bucket_nat (unat x))"
  by (simp add: unat_value_of bucket_nat_lt in_range_def)

lemma sort_nth_in_range: "list_all in_range xs \<Longrightarrow> i < length xs \<Longrightarrow> in_range (sort xs ! i)"
  by (metis length_sort list_all_iff nth_mem set_sort)

lemma within_bucket: "in_range v \<Longrightarrow> within_128th (value_of (bucket_nat (unat v))) v"
  using value_error [of "unat v"] by (simp add: within_128th_def unat_value_bucket in_range_def)

text \<open>
  One sample. With a single recorded value every rank truncates to zero, so the first
  bucket already reaches it: the snapshot reports 0 for all three percentiles whatever
  the value was, while mean and maximum report the value.
\<close>

lemma snapshot_single_sample:
  assumes "unat x < 2 ^ 40"
  shows "\<exists>h s. hist_records [x] hist_new = Inr h \<and> hist_snapshot h = Inr s \<and> s_count s = 1 \<and>
    s_p50 s = 0 \<and> s_p99 s = 0 \<and> s_p999 s = 0 \<and> s_mean s = x \<and> s_max s = x"
proof -
  have x: "list_all in_range [x]" using assms by (simp add: in_range_def)
  obtain h where h: "hist_records [x] hist_new = Inr h" "hist_of [x] h"
    using hist_records_of [OF hist_of_new x] by auto
  have "0 < length (buckets h)" using h(2) by (simp add: hist_of_def hist_consts)
  then have z: "pct_scan 0 0 0 (buckets h) = 0"
    by (cases "buckets h") (auto simp: value_of_def hist_consts)
  have one: "scaled 1 (Dbl q (- 53)) = 0" if "q < 2 ^ 53" for q using that by (simp add: scaled_eq rnd53_small)
  then have "scaled 1 d50 = 0" "scaled 1 d99 = 0" "scaled 1 d999 = 0"
    by (simp_all add: d50_def d99_def d999_def)
  then have "percentile (buckets h) 1 p = Inr 0" if "p \<in> {d50, d99, d999}" for p
    using that z by (auto simp: percentile_def dbl_to_u64_def scaled_def)
  moreover have "sum_list (buckets h) = 1" using hist_of_total [OF h(2) x] by simp
  ultimately show ?thesis
    using h by (auto simp: hist_snapshot_def hist_of_def Let_def)
qed

section \<open>Properties\<close>

text \<open>
  C36. The exact domain of the histogram. A value has a bucket inside the array if and
  only if it is below \<open>2 ^ 40\<close>: the clamp of the octave does not clamp the sub-bucket, so
  every larger value is mapped past the end of the array.
\<close>

theorem bucket_of_in_array_iff:
  "(\<exists>b < kBuckets. bucket_of v = Inr b) \<longleftrightarrow> unat v < 2 ^ 40"
proof (cases "in_range v")
  case True
  then show ?thesis using bucket_of_nat [OF True] by (auto simp: in_range_def bucket_nat_lt)
next
  case False
  then show ?thesis using bucket_of_overrun [OF False] by (auto simp: in_range_def)
qed

text \<open>
  Recording. On a histogram that holds the samples \<open>xs\<close>, recording a value below
  \<open>2 ^ 40\<close> yields the histogram of \<open>xs\<close> and that value, whatever exchanges fail spuriously:
  one bucket, the count and the sum grow, and the maximum is the largest sample. Recording
  any other value writes out of bounds (or overflows the bucket index).
\<close>

lemma hist_record_correct:
  assumes "hist_of xs h"
  shows "if unat ns < 2 ^ 40 then \<exists>h'. hist_record fs ns h = Inr h' \<and> hist_of (xs @ [ns]) h'
    else hist_record fs ns h = Inl Out_of_bounds \<or> hist_record fs ns h = Inl Signed_overflow"
  using hist_record_step [OF assms, of ns fs] hist_record_overrun [of h ns fs] assms
  by (auto simp: in_range_def hist_of_def)

text \<open>
  Resolution. The representative of a value's bucket is the value itself below 128
  and is within one part in 128 of it up to \<open>2 ^ 40\<close>, in both directions.
\<close>

lemma bucket_resolution:
  assumes "unat v < 2 ^ 40"
  shows "\<exists>b. bucket_of v = Inr b \<and> within_128th (value_of b) v \<and> (unat v < 128 \<longrightarrow> value_of b = v)"
proof -
  have "unat v < 128 \<longrightarrow> value_of (bucket_nat (unat v)) = v"
    by (auto simp: bucket_nat_def value_of_def hist_consts)
  then show ?thesis using bucket_of_nat [of v] within_bucket [of v] assms by (auto simp: in_range_def)
qed

text \<open>
  Buckets and representatives. Every bucket is the bucket of its own representative,
  and the bucket number grows with the value: distinct buckets have representatives in
  the order of the buckets.
\<close>

lemma bucket_roundtrip_mono:
  assumes "b < kBuckets"
  shows "bucket_of (value_of b) = Inr b \<and>
    (\<forall>v w bv bw. v \<le> w \<longrightarrow> unat w < 2 ^ 40 \<longrightarrow> bucket_of v = Inr bv \<longrightarrow> bucket_of w = Inr bw \<longrightarrow> bv \<le> bw)"
proof -
  have "in_range (value_of b)" using value_nat_bound [OF assms] by (simp add: in_range_def unat_value_of [OF assms])
  then have "bucket_of (value_of b) = Inr b"
    using bucket_of_nat bucket_nat_value [OF assms] by (simp add: unat_value_of [OF assms])
  moreover have "bv \<le> bw" if "v \<le> w" "unat w < 2 ^ 40" "bucket_of v = Inr bv" "bucket_of w = Inr bw"
    for v w bv bw
  proof -
    have le: "unat v \<le> unat w" using that(1) by (simp add: word_le_nat_alt)
    then have "in_range v" "in_range w" using that(2) by (simp_all add: in_range_def)
    then show ?thesis using that(3,4) bucket_of_nat bucket_nat_mono [OF le that(2)] by simp
  qed
  ultimately show ?thesis by blast
qed

text \<open>What a percentile shows of a rank (from 1): the representative of the bucket of the element at that rank in sorted order.\<close>

definition rank_shown :: "u64 list \<Rightarrow> nat \<Rightarrow> u64 \<Rightarrow> bool" where
  "rank_shown xs r p \<longleftrightarrow> (\<exists>b < kBuckets. bucket_of (sort xs ! (r - 1)) = Inr b \<and> p = value_of b) \<and>
     within_128th p (sort xs ! (r - 1))"

lemma rank_shown_bucket:
  assumes "list_all in_range xs" "r - 1 < length xs"
  shows "rank_shown xs r (value_of (bucket_nat (unat (sort xs ! (r - 1)))))"
  using sort_nth_in_range [OF assms] bucket_of_nat within_bucket bucket_nat_lt
  by (auto simp: rank_shown_def in_range_def)

text \<open>
  C24. Percentiles. After recording fewer than \<open>2 ^ 53\<close> values \<open>xs\<close>, each below \<open>2 ^ 40\<close>, the snapshot counts them and its
  maximum is the largest. If there are at least two of them, its p50, p99 and p99.9 are the representatives of the buckets of
  the elements of the sorted samples at the ranks the code computes, and within one part in 128 of these elements;
  for p50 that rank is exactly half the number of samples. With one sample or none the three percentiles are 0.
\<close>

theorem snapshot_percentiles:
  assumes "list_all in_range xs" and "length xs < 2 ^ 53"
  shows "\<exists>h s. hist_records xs hist_new = Inr h \<and> hist_snapshot h = Inr s \<and>
    s_count s = of_nat (length xs) \<and> s_max s = fold max xs 0 \<and>
    (2 \<le> length xs \<longrightarrow> rank_shown xs (length xs div 2) (s_p50 s) \<and>
       rank_shown xs (scaled (length xs) d99) (s_p99 s) \<and> rank_shown xs (scaled (length xs) d999) (s_p999 s)) \<and>
    (length xs < 2 \<longrightarrow> s_p50 s = 0 \<and> s_p99 s = 0 \<and> s_p999 s = 0)"
proof (cases "2 \<le> length xs")
  case True
  obtain h where h: "hist_records xs hist_new = Inr h" "hist_of xs h"
    using hist_records_of [OF hist_of_new assms(1)] by auto
  have "scaled (length xs) d99 \<le> length xs" "scaled (length xs) d999 \<le> length xs"
    using scaled_fraction [OF assms(2)] by (simp_all add: d99_def d999_def)
  then have "length xs div 2 - 1 < length xs" "scaled (length xs) d99 - 1 < length xs"
    "scaled (length xs) d999 - 1 < length xs" using True by simp_all
  then show ?thesis
    using h snapshot_eq [OF h(2) assms(1) True assms(2)] rank_shown_bucket [OF assms(1)] True by simp
next
  case False
  then consider "xs = []" | x where "xs = [x]" by (cases xs rule: remdups_adj.cases) auto
  then show ?thesis
  proof cases
    case 1
    then show ?thesis by (simp add: hist_snapshot_def hist_new_def Let_def sum_list_replicate)
  next
    case 2
    then show ?thesis using snapshot_single_sample [of x] assms(1) by (auto simp: in_range_def)
  qed
qed

theorem snapshot_percentiles_witness:
  "\<exists>h s. hist_records [770, 800, 5] hist_new = Inr h \<and> hist_snapshot h = Inr s \<and>
     s_count s = 3 \<and> s_max s = 800 \<and> rank_shown [770, 800, 5] 1 (s_p50 s)"
proof -
  have "list_all in_range [770, 800, 5]" "length [770, 800, 5 :: u64] < 2 ^ 53"
    by (simp_all add: in_range_def)
  from snapshot_percentiles [OF this] show ?thesis by (auto simp: max_def)
qed

end
