(* ===== verification/Pool.thy ===== *)
theory Pool
  imports Interfaces
begin

text \<open>
  \<^verbatim>\<open>include/pool.hpp\<close>: the object pool with its intrusive free list. A pointer to a slot is the
  slot's index, \<^verbatim>\<open>nullptr\<close> is \<open>None\<close>, and the union \<^verbatim>\<open>Slot\<close> is a datatype whose constructor is the
  active member: reading \<^verbatim>\<open>next\<close> of a slot that stores an object, or destroying the object of a
  slot that stores none, is the fault \<open>Bad_access\<close>.
\<close>

datatype 'a pslot = Link "nat option" | Storage 'a

record 'a pool =
  pslots :: "'a pslot list"
  pfree :: "nat option"

fun thread_slots :: "nat \<Rightarrow> nat \<Rightarrow> 'a pslot list" where
  "thread_slots i 0 = []"
| "thread_slots i (Suc 0) = [Link None]"
| "thread_slots i (Suc (Suc n)) = Link (Some (Suc i)) # thread_slots (Suc i) (Suc n)"

definition pool_new :: "nat \<Rightarrow> 'a pool cpp" where
  "pool_new n = (if n = 0 then Inl Out_of_bounds else Inr \<lparr>pslots = thread_slots 0 n, pfree = Some 0\<rparr>)"

definition slot_next :: "nat \<Rightarrow> 'a pool \<Rightarrow> nat option cpp" where
  "slot_next s p = (if s < length (pslots p)
     then (case pslots p ! s of Link nx \<Rightarrow> Inr nx | Storage _ \<Rightarrow> Inl Bad_access)
     else Inl Out_of_bounds)"

definition pool_acquire :: "'a \<Rightarrow> 'a pool \<Rightarrow> (nat option \<times> 'a pool) cpp" where
  "pool_acquire v p = (case pfree p of None \<Rightarrow> Inr (None, p)
     | Some s \<Rightarrow> cpp_bind (slot_next s p) (\<lambda>nx.
         Inr (Some s, p\<lparr>pfree := nx, pslots := (pslots p)[s := Storage v]\<rparr>)))"

definition destroy :: "nat \<Rightarrow> 'a pool \<Rightarrow> unit cpp" where
  "destroy s p = (if s < length (pslots p)
     then (case pslots p ! s of Link _ \<Rightarrow> Inl Bad_access | Storage _ \<Rightarrow> Inr ())
     else Inl Out_of_bounds)"

definition pool_release :: "nat option \<Rightarrow> 'a pool \<Rightarrow> 'a pool cpp" where
  "pool_release ptr p = (case ptr of None \<Rightarrow> Inr p
     | Some s \<Rightarrow> cpp_bind (destroy s p) (\<lambda>_.
         Inr (p\<lparr>pslots := (pslots p)[s := Link (pfree p)], pfree := Some s\<rparr>)))"

definition pool_empty :: "'a pool \<Rightarrow> bool" where
  "pool_empty p \<longleftrightarrow> pfree p = None"

text \<open>
  The live objects, and the invariant: the free list runs through exactly the slots that store
  no object, each once.
\<close>

definition pool_map :: "'a pool \<Rightarrow> nat \<rightharpoonup> 'a" where
  "pool_map p i = (if i < length (pslots p)
     then (case pslots p ! i of Storage v \<Rightarrow> Some v | Link _ \<Rightarrow> None) else None)"

fun free_chain :: "'a pslot list \<Rightarrow> nat option \<Rightarrow> nat list \<Rightarrow> bool" where
  "free_chain sl nx [] \<longleftrightarrow> nx = None"
| "free_chain sl nx (i # is) \<longleftrightarrow>
     nx = Some i \<and> i < length sl \<and> (\<exists>nx'. sl ! i = Link nx' \<and> free_chain sl nx' is)"

definition pool_ok :: "nat \<Rightarrow> 'a pool \<Rightarrow> bool" where
  "pool_ok n p \<longleftrightarrow> length (pslots p) = n \<and>
     (\<exists>fl. distinct fl \<and> free_chain (pslots p) (pfree p) fl \<and> set fl = {..<n} - dom (pool_map p))"

lemma free_chain_update: "i \<notin> set fl \<Longrightarrow> free_chain (sl[i := x]) nx fl = free_chain sl nx fl"
  by (induction fl arbitrary: nx) auto

lemma free_chain_less: "free_chain sl nx fl \<Longrightarrow> i \<in> set fl \<Longrightarrow> i < length sl"
  by (induction fl arbitrary: nx) auto

lemma pool_map_update:
  "i < length (pslots p) \<Longrightarrow> pool_map (p\<lparr>pslots := (pslots p)[i := x], pfree := f\<rparr>) =
    (pool_map p)(i := (case x of Storage v \<Rightarrow> Some v | Link _ \<Rightarrow> None))"
  by (rule ext) (auto simp: pool_map_def nth_list_update)

lemma pool_map_dom: "dom (pool_map p) \<subseteq> {..<length (pslots p)}"
  by (auto simp: pool_map_def split: if_splits)

section \<open>Construction\<close>

lemma thread_slots_length [simp]: "length (thread_slots i n) = n"
  by (induction i n rule: thread_slots.induct) auto

lemma thread_slots_nth: "k < n \<Longrightarrow> thread_slots i n ! k = Link (if Suc k < n then Some (i + Suc k) else None)"
  by (induction i n arbitrary: k rule: thread_slots.induct) (auto simp: nth_Cons less_Suc_eq_0_disj split: nat.splits)

lemma free_chain_upt:
  assumes "length sl = n" "\<And>k. k < n \<Longrightarrow> sl ! k = Link (if Suc k < n then Some (Suc k) else None)"
  shows "k \<le> n \<Longrightarrow> free_chain sl (if k < n then Some k else None) [k..<n]"
proof (induction "n - k" arbitrary: k)
  case (Suc d)
  then have "k < n" "free_chain sl (if Suc k < n then Some (Suc k) else None) [Suc k..<n]" by simp_all
  then show ?case using assms by (simp add: upt_conv_Cons)
qed simp

lemma pool_new_ok:
  assumes "0 < n"
  shows "\<exists>p. pool_new n = Inr p \<and> pool_ok n p \<and> pool_map p = Map.empty \<and>
    free_chain (pslots p) (pfree p) [0..<n]"
proof -
  let ?p = "\<lparr>pslots = thread_slots 0 n, pfree = Some 0\<rparr> :: 'a pool"
  have c: "free_chain (thread_slots 0 n :: 'a pslot list) (Some 0) [0..<n]"
    using free_chain_upt [of "thread_slots 0 n :: 'a pslot list" n 0] assms
    by (simp add: thread_slots_nth cong: if_cong)
  have m: "pool_map ?p = Map.empty" by (rule ext) (simp add: pool_map_def thread_slots_nth)
  have "pool_ok n ?p"
    unfolding pool_ok_def using c m by (intro conjI exI [of _ "[0..<n]"]) auto
  then show ?thesis using assms c m by (simp add: pool_new_def)
qed

section \<open>Acquire and release\<close>

lemma pool_acquire_spec:
  assumes "pool_ok n p"
  obtains (drained) "pool_acquire v p = Inr (None, p)" "dom (pool_map p) = {..<n}"
  | (slot) i q where "pool_acquire v p = Inr (Some i, q)" "pool_ok n q" "i < n" "pool_map p i = None"
      "pool_map q = (pool_map p)(i \<mapsto> v)"
proof -
  from assms obtain fl where len: "length (pslots p) = n" and fl: "distinct fl"
    "free_chain (pslots p) (pfree p) fl" "set fl = {..<n} - dom (pool_map p)" by (auto simp: pool_ok_def)
  show thesis
  proof (cases fl)
    case Nil
    then have "dom (pool_map p) = {..<n}" using fl(3) pool_map_dom [of p] len by auto
    moreover have "pool_acquire v p = Inr (None, p)" using Nil fl(2) by (simp add: pool_acquire_def)
    ultimately show thesis by (rule drained [rotated])
  next
    case (Cons i "is")
    with fl(2) len obtain nx where i: "pfree p = Some i" "i < n" "pslots p ! i = Link nx"
      "free_chain (pslots p) nx is" by auto
    let ?q = "p\<lparr>pslots := (pslots p)[i := Storage v], pfree := nx\<rparr>"
    have m: "pool_map ?q = (pool_map p)(i \<mapsto> v)" using pool_map_update [of i p nx "Storage v"] i(2) len by simp
    have "pool_ok n ?q"
      unfolding pool_ok_def m using i fl Cons len
      by (intro conjI exI [of _ "is"]) (auto simp: free_chain_update)
    moreover have "pool_acquire v p = Inr (Some i, ?q)"
      using i len by (simp add: pool_acquire_def slot_next_def)
    moreover have "pool_map p i = None" using fl(3) Cons by auto
    ultimately show thesis using i(2) m slot by blast
  qed
qed

lemma pool_release_spec:
  assumes "pool_ok n p" "pool_map p i = Some v"
  shows "\<exists>q. pool_release (Some i) p = Inr q \<and> pool_ok n q \<and> pool_map q = (pool_map p)(i := None) \<and>
    pfree q = Some i"
proof -
  from assms obtain fl where len: "length (pslots p) = n" and fl: "distinct fl"
    "free_chain (pslots p) (pfree p) fl" "set fl = {..<n} - dom (pool_map p)" by (auto simp: pool_ok_def)
  from assms len have i: "i < n" "pslots p ! i = Storage v"
    by (auto simp: pool_map_def split: if_splits pslot.splits)
  let ?q = "p\<lparr>pslots := (pslots p)[i := Link (pfree p)], pfree := Some i\<rparr>"
  have m: "pool_map ?q = (pool_map p)(i := None)"
    using pool_map_update [of i p "Some i" "Link (pfree p)"] i(1) len by simp
  have nfl: "i \<notin> set fl" using fl(3) assms(2) by auto
  have "pool_ok n ?q"
    unfolding pool_ok_def m using i fl len nfl
    by (intro conjI exI [of _ "i # fl"]) (auto simp: free_chain_update)
  then show ?thesis using i len m by (simp add: pool_release_def destroy_def)
qed

interpretation pool: slot_pool "pool_acquire v" "\<lambda>i. pool_release (Some i)" "\<lambda>p. dom (pool_map p)" n "pool_ok n"
  for v :: 'a and n
proof unfold_locales
  fix p :: "'a pool"
  assume ok: "pool_ok n p"
  show "\<exists>r q. pool_acquire v p = Inr (r, q) \<and> pool_ok n q"
    using ok by (cases rule: pool_acquire_spec [OF ok, of v]) blast+
  show "dom (pool_map p) \<subseteq> {..<n}" using pool_map_dom [of p] ok by (simp add: pool_ok_def)
  show "\<exists>q. pool_release (Some i) p = Inr q \<and> pool_ok n q \<and> dom (pool_map q) = dom (pool_map p) - {i}"
    if "i \<in> dom (pool_map p)" for i
    using pool_release_spec [OF ok] that by (fastforce simp: domIff)
  show "q = p \<and> dom (pool_map p) = {..<n}" if "pool_acquire v p = Inr (None, q)" for q
    using that by (cases rule: pool_acquire_spec [OF ok, of v]) simp_all
  show "i < n \<and> i \<notin> dom (pool_map p) \<and> dom (pool_map q) = insert i (dom (pool_map p))"
    if "pool_acquire v p = Inr (Some i, q)" for i q
    using that by (cases rule: pool_acquire_spec [OF ok, of v]) auto
qed

section \<open>Pools in use\<close>

text \<open>
  The states a program reaches from a constructed pool when it releases only what it holds.
\<close>

inductive pool_step :: "'a pool \<Rightarrow> 'a pool \<Rightarrow> bool" where
  step_acquire: "pool_acquire v p = Inr (r, q) \<Longrightarrow> pool_step p q"
| step_release: "i \<in> dom (pool_map p) \<Longrightarrow> pool_release (Some i) p = Inr q \<Longrightarrow> pool_step p q"
| step_release_null: "pool_release None p = Inr q \<Longrightarrow> pool_step p q"

inductive_cases pool_stepE: "pool_step p q"

lemma pool_ok_results:
  assumes "pool_ok n p"
  shows "pool_acquire v p = Inr (r, q) \<Longrightarrow> pool_ok n q"
    and "i \<in> dom (pool_map p) \<Longrightarrow> pool_release (Some i) p = Inr q \<Longrightarrow> pool_ok n q"
  using pool.acquire_ok [OF assms, of v] pool.release_ok [OF assms, of i] by auto

lemma pool_null_same: "pool_ok n p \<Longrightarrow> pool_release None p = Inr q \<Longrightarrow> pool_ok n q"
  by (simp add: pool_release_def)

interpretation pool_inv: inductive_invariant "\<lambda>p. pool_new n = Inr p" pool_step "pool_ok n" for n
proof unfold_locales
  fix p q :: "'a pool"
  show "pool_ok n p" if "pool_new n = Inr p"
    using that pool_new_ok [of n] by (cases "n = 0") (auto simp: pool_new_def)
  show "pool_ok n q" if "pool_ok n p" "pool_step p q"
    using that by (elim pool_stepE) (erule (1) pool_ok_results(1), erule (2) pool_ok_results(2), erule (1) pool_null_same)
qed

fun pool_acquires :: "'a list \<Rightarrow> 'a pool \<Rightarrow> (nat option list \<times> 'a pool) cpp" where
  "pool_acquires [] p = Inr ([], p)"
| "pool_acquires (v # vs) p = cpp_bind (pool_acquire v p) (\<lambda>(r, q).
     cpp_bind (pool_acquires vs q) (\<lambda>(rs, q'). Inr (r # rs, q')))"

lemma pool_acquires_chain:
  assumes "free_chain (pslots p) (pfree p) fl" "distinct fl"
  shows "\<exists>q. pool_acquires vs p = Inr (map Some (take (length vs) fl) @ replicate (length vs - length fl) None, q)"
  using assms
proof (induction vs arbitrary: p fl)
  case (Cons v vs)
  show ?case
  proof (cases fl)
    case Nil
    then show ?thesis
      using Cons.IH [of p "[]"] Cons.prems by (auto simp: pool_acquire_def)
  next
    case (Cons i "is")
    then obtain nx where nx: "pfree p = Some i" "i < length (pslots p)" "pslots p ! i = Link nx"
      "free_chain (pslots p) nx is" "i \<notin> set is" "distinct is" using Cons.prems by auto
    let ?q = "p\<lparr>pfree := nx, pslots := (pslots p)[i := Storage v]\<rparr>"
    have "pool_acquire v p = Inr (Some i, ?q)" using nx by (simp add: pool_acquire_def slot_next_def)
    moreover have "free_chain (pslots ?q) (pfree ?q) is" using nx by (simp add: free_chain_update)
    ultimately show ?thesis using Cons.IH [of ?q "is"] Cons nx(6) by auto
  qed
qed simp

text \<open>
  C23. \<^verbatim>\<open>acquire\<close> never faults on a pool in use and never hands out a slot that is in use: it
  returns \<^verbatim>\<open>nullptr\<close> and changes nothing exactly when all \<^verbatim>\<open>N\<close> slots hold live objects, and
  otherwise returns a slot below \<^verbatim>\<open>N\<close> that holds none, constructs the object there and leaves
  every live object as it was.
\<close>

theorem pool_acquire_correct:
  assumes "reach (\<lambda>p. pool_new n = Inr p) pool_step p"
  shows "(dom (pool_map p) = {..<n} \<and> pool_acquire v p = Inr (None, p)) \<or>
    (\<exists>i q. pool_acquire v p = Inr (Some i, q) \<and> i < n \<and> pool_map p i = None \<and>
       pool_map q = (pool_map p)(i \<mapsto> v))"
  using pool_inv.reach_inv [OF assms] by (cases rule: pool_acquire_spec [where v = v]) blast+

theorem pool_acquire_correct_witness:
  "\<exists>p i q. pool_new 2 = Inr p \<and> pool_acquire True p = Inr (Some i, q) \<and> pool_map q = [i \<mapsto> True]"
proof -
  obtain p :: "bool pool" where p: "pool_new 2 = Inr p" "pool_map p = Map.empty"
    using pool_new_ok [of 2] by auto
  then have "reach (\<lambda>p. pool_new 2 = Inr p) pool_step p" by (auto intro: reach_init)
  from pool_acquire_correct [OF this, of True] p show ?thesis by (auto simp: lessThan_empty_iff eq_commute [of "{}"])
qed

text \<open>
  Releasing a live object never faults, ends the lifetime of that object only, and the slot
  is reused last-in first-out: the next \<^verbatim>\<open>acquire\<close> returns it.
\<close>

lemma pool_release_correct:
  assumes "reach (\<lambda>p. pool_new n = Inr p) pool_step p" and "pool_map p i = Some v"
  shows "\<exists>q. pool_release (Some i) p = Inr q \<and> pool_map q = (pool_map p)(i := None) \<and>
    \<not> pool_empty q \<and> (\<forall>w. \<exists>q'. pool_acquire w q = Inr (Some i, q') \<and> pool_map q' = (pool_map p)(i \<mapsto> w))"
proof -
  from pool_release_spec [OF pool_inv.reach_inv [OF assms(1)] assms(2)] obtain q where
    q: "pool_release (Some i) p = Inr q" "pool_ok n q" "pool_map q = (pool_map p)(i := None)" "pfree q = Some i"
    by blast
  have "\<exists>q'. pool_acquire w q = Inr (Some i, q') \<and> pool_map q' = (pool_map p)(i \<mapsto> w)" for w
    using q(2)
  proof (cases rule: pool_acquire_spec [where v = w])
    case drained
    then show ?thesis using q(4) by (auto simp: pool_acquire_def cpp_bind_eq_Inr_iff)
  next
    case (slot j q')
    then have "j = i" using q(4) by (auto simp: pool_acquire_def cpp_bind_eq_Inr_iff)
    then show ?thesis using slot q(3) by auto
  qed
  then show ?thesis using q by (auto simp: pool_empty_def)
qed

text \<open>
  A constructed pool hands out its slots front to back: any sequence of \<^verbatim>\<open>acquire\<close> calls gets
  the slots \<open>0, 1, \<dots>, N - 1\<close> in this order and then \<^verbatim>\<open>nullptr\<close>.
\<close>

lemma pool_front_to_back:
  assumes "0 < n"
  shows "\<exists>p q. pool_new n = Inr p \<and>
    pool_acquires vs p = Inr (map (\<lambda>k. if k < n then Some k else None) [0..<length vs], q)"
proof -
  from pool_new_ok [OF assms] obtain p :: "'a pool" where p: "pool_new n = Inr p"
    "free_chain (pslots p) (pfree p) [0..<n]" by blast
  have "map Some (take (length vs) [0..<n]) @ replicate (length vs - n) None =
      map (\<lambda>k. if k < n then Some k else None) [0..<length vs]"
    by (rule nth_equalityI) (auto simp: nth_append)
  then show ?thesis using pool_acquires_chain [OF p(2), of vs] p(1) by simp
qed

end
