(* ===== verification/Cpp_Strings.thy ===== *)
theory Cpp_Strings
  imports Trade_Prelude "HOL-Library.Sublist"
begin

text \<open>
  The parts of the C++ string library the program uses, on byte strings: \<^verbatim>\<open>find\<close> of
  \<^verbatim>\<open>std::string\<close> and \<^verbatim>\<open>std::string_view\<close> (\<open>None\<close> is \<^verbatim>\<open>npos\<close>), \<^verbatim>\<open>substr\<close>, and the integer
  conversions \<^verbatim>\<open>std::to_chars\<close> and \<^verbatim>\<open>std::from_chars\<close> of \<^verbatim>\<open><charconv>\<close>. \<^verbatim>\<open>from_chars\<close> leaves its
  target unchanged when no digit is found or the value is out of range, so it takes the old value.
\<close>

section \<open>Searching\<close>

fun find_in :: "string \<Rightarrow> string \<Rightarrow> nat option" where
  "find_in pat [] = (if pat = [] then Some 0 else None)"
| "find_in pat (c # cs) = (if prefix pat (c # cs) then Some 0 else map_option Suc (find_in pat cs))"

definition str_find :: "string \<Rightarrow> string \<Rightarrow> nat \<Rightarrow> nat option" where
  "str_find s pat i = (if i \<le> length s then map_option ((+) i) (find_in pat (drop i s)) else None)"

definition substr :: "string \<Rightarrow> nat \<Rightarrow> nat \<Rightarrow> string" where
  "substr s i n = take n (drop i s)"

definition starts_with :: "string \<Rightarrow> string \<Rightarrow> bool" where
  "starts_with pat s = prefix pat s"

section \<open>Integer conversions\<close>

definition digit_char :: "nat \<Rightarrow> char" where
  "digit_char d = char_of (48 + d)"

definition is_digit :: "char \<Rightarrow> bool" where
  "is_digit c \<longleftrightarrow> 48 \<le> (of_char c :: nat) \<and> (of_char c :: nat) \<le> 57"

definition digit_val :: "char \<Rightarrow> nat" where
  "digit_val c = of_char c - 48"

fun nat_str :: "nat \<Rightarrow> string" where
  "nat_str n = (if n < 10 then [digit_char n] else nat_str (n div 10) @ [digit_char (n mod 10)])"

declare nat_str.simps [simp del]

definition to_chars :: "int \<Rightarrow> string" where
  "to_chars v = (if v < 0 then CHR ''-'' # nat_str (nat (- v)) else nat_str (nat v))"

definition digits_val :: "string \<Rightarrow> nat" where
  "digits_val ds = foldl (\<lambda>a c. 10 * a + digit_val c) 0 ds"

definition from_chars :: "int \<Rightarrow> int \<Rightarrow> string \<Rightarrow> int \<Rightarrow> int" where
  "from_chars lo hi s old =
     (let neg = (s \<noteq> [] \<and> hd s = CHR ''-'');
          ds = takeWhile is_digit (if neg then tl s else s);
          v = (if neg then - int (digits_val ds) else int (digits_val ds))
      in if ds = [] then old else if lo \<le> v \<and> v \<le> hi then v else old)"

definition from_chars_int :: "string \<Rightarrow> int \<Rightarrow> int" where
  "from_chars_int s old = from_chars (- (2 ^ 31)) (2 ^ 31 - 1) s old"

definition from_chars_i64 :: "string \<Rightarrow> int \<Rightarrow> int" where
  "from_chars_i64 s old = from_chars i64_min i64_max s old"

definition from_chars_u64 :: "string \<Rightarrow> u64 \<Rightarrow> u64" where
  "from_chars_u64 s old =
     (let ds = takeWhile is_digit s in
      if ds = [] then old else if digits_val ds < 2 ^ 64 then of_nat (digits_val ds) else old)"

section \<open>Facts on searching\<close>

lemma find_in_short: "length s < length pat \<Longrightarrow> find_in pat s = None"
  by (induction s) (auto dest: prefix_length_le)

lemma prefix_append_short: "length pat \<le> length s \<Longrightarrow> prefix pat (s @ t) \<longleftrightarrow> prefix pat s"
  by (meson prefix_length_prefix prefix_prefix prefixI)

lemma find_in_bound: "find_in pat s = Some k \<Longrightarrow> k + length pat \<le> length s"
  by (induction s arbitrary: k) (auto split: if_splits dest: prefix_length_le)

lemma find_in_extend: "find_in pat s = Some k \<Longrightarrow> find_in pat (s @ t) = Some k"
proof (induction s arbitrary: k)
  case Nil
  then show ?case by (cases t) (auto split: if_splits)
next
  case (Cons c cs)
  have len: "length pat \<le> length (c # cs)" using find_in_bound [OF Cons.prems] by simp
  show ?case using Cons prefix_append_short [OF len, of t] by (auto split: if_splits)
qed

text \<open>A search in a truncated string finds the same match when it is whole, and nothing otherwise.\<close>

lemma find_in_truncated:
  assumes "find_in pat (s @ t) = Some k" "pat \<noteq> []"
  shows "find_in pat s = (if k + length pat \<le> length s then Some k else None)"
proof (cases "find_in pat s")
  case (Some k')
  then show ?thesis using find_in_extend [OF Some, of t] find_in_bound [OF Some] assms(1) by simp
next
  case None
  have "\<not> k + length pat \<le> length s"
  proof
    assume "k + length pat \<le> length s"
    with assms(1) None show False
    proof (induction s arbitrary: k)
      case Nil
      then show ?case using assms(2) by simp
    next
      case (Cons c cs)
      show ?case
      proof (cases "prefix pat (c # cs @ t)")
        case True
        then have "length pat \<le> length (c # cs)" using Cons.prems by (auto split: if_splits)
        then show ?thesis using True Cons.prems(2) prefix_append_short [of pat "c # cs" t] by simp
      next
        case False
        then show ?thesis using Cons by (auto split: if_splits)
      qed
    qed
  qed
  then show ?thesis using None by simp
qed

lemma find_char: "c \<notin> set xs \<Longrightarrow> find_in [c] (xs @ c # ys) = Some (length xs)"
  by (induction xs) auto

lemma find_char_none: "find_in [c] xs = None \<longleftrightarrow> c \<notin> set xs"
  by (induction xs) auto

lemma find_char_Some: "find_in [c] xs = Some k \<Longrightarrow> k < length xs \<and> xs ! k = c \<and> c \<notin> set (take k xs)"
  by (induction xs arbitrary: k) (auto split: if_splits)

lemma str_find_bound: "str_find s pat i = Some k \<Longrightarrow> i \<le> k \<and> k + length pat \<le> length s"
  by (auto simp: str_find_def split: if_splits dest: find_in_bound)

lemma str_find_at:
  "i = length xs \<Longrightarrow> str_find (xs @ s) pat i = map_option ((+) i) (find_in pat s)"
  by (simp add: str_find_def)

lemma str_find_truncated:
  assumes "str_find (s @ t) pat i = Some k" "pat \<noteq> []"
  shows "str_find s pat i = (if k + length pat \<le> length s then Some k else None)"
proof (cases "i \<le> length s")
  case True
  with assms(1) obtain k' where k': "find_in pat (drop i s @ t) = Some k'" "k = i + k'"
    by (auto simp: str_find_def split: if_splits)
  then show ?thesis using find_in_truncated [OF k'(1) assms(2)] True by (auto simp: str_find_def)
next
  case False
  then show ?thesis using str_find_bound [OF assms(1)] by (simp add: str_find_def)
qed

section \<open>Facts on the conversions\<close>

lemma digit_char_props:
  assumes "d < 10"
  shows "is_digit (digit_char d)" "digit_val (digit_char d) = d"
    "digit_char d \<noteq> CHR ''-''" "digit_char d \<noteq> CHR ''=''" "digit_char d \<noteq> CHR 0x01"
proof -
  have c: "(of_char (digit_char d) :: nat) = 48 + d" using assms by (simp add: digit_char_def)
  then show "is_digit (digit_char d)" "digit_val (digit_char d) = d"
    using assms by (simp_all add: is_digit_def digit_val_def)
  show "digit_char d \<noteq> CHR ''-''" "digit_char d \<noteq> CHR ''=''" "digit_char d \<noteq> CHR 0x01"
    using c assms by auto
qed

lemma nat_str_digits: "list_all is_digit (nat_str n)"
proof (induction n rule: nat_str.induct)
  case (1 n)
  then show ?case by (subst nat_str.simps) (simp add: digit_char_props)
qed

lemma nat_str_nonempty [simp]: "nat_str n \<noteq> []"
  by (subst nat_str.simps) simp

lemma is_digit_special: "\<not> is_digit CHR ''-''" "\<not> is_digit CHR ''=''" "\<not> is_digit CHR 0x01"
  by (simp_all add: is_digit_def)

lemma nat_str_special: "CHR ''-'' \<notin> set (nat_str n)" "CHR ''='' \<notin> set (nat_str n)" "CHR 0x01 \<notin> set (nat_str n)"
  using nat_str_digits [of n] is_digit_special by (auto simp: list_all_iff)

lemma digits_val_snoc: "digits_val (xs @ [c]) = 10 * digits_val xs + digit_val c"
  by (simp add: digits_val_def)

lemma digits_val_nat_str: "digits_val (nat_str n) = n"
proof (induction n rule: nat_str.induct)
  case (1 n)
  show ?case
  proof (cases "n < 10")
    case True
    then show ?thesis by (subst nat_str.simps) (simp add: digits_val_def digit_char_props)
  next
    case False
    then show ?thesis using 1 by (subst nat_str.simps) (simp add: digits_val_snoc digit_char_props)
  qed
qed

lemma nat_str_length: "n < 10 ^ k \<Longrightarrow> 0 < k \<Longrightarrow> length (nat_str n) \<le> k"
proof (induction n arbitrary: k rule: nat_str.induct)
  case (1 n)
  show ?case
  proof (cases "n < 10")
    case True
    then show ?thesis using 1 by (subst nat_str.simps) simp
  next
    case False
    then obtain j where j: "k = Suc j" "0 < j" using 1 by (cases k; cases "k - 1") auto
    then have "n div 10 < 10 ^ j" using 1 by (simp add: less_mult_imp_div_less mult.commute)
    then show ?thesis using 1 False j by (subst nat_str.simps) simp
  qed
qed

lemma takeWhile_digits: "list_all is_digit ds \<Longrightarrow> takeWhile is_digit ds = ds"
  by (simp add: takeWhile_eq_all_conv list_all_iff)

lemma hd_nat_str: "hd (nat_str n) \<noteq> CHR ''-''"
  using nat_str_special(1) [of n] hd_in_set [of "nat_str n"] by fastforce

lemma from_to_chars: "lo \<le> v \<Longrightarrow> v \<le> hi \<Longrightarrow> from_chars lo hi (to_chars v) d = v"
  using hd_nat_str [of "nat v"] nat_str_digits
  by (simp add: from_chars_def to_chars_def Let_def takeWhile_digits digits_val_nat_str)

lemma from_chars_nat_str: "from_chars lo hi (nat_str n) d = (if lo \<le> int n \<and> int n \<le> hi then int n else d)"
  using hd_nat_str [of n] nat_str_digits
  by (simp add: from_chars_def Let_def takeWhile_digits digits_val_nat_str)

lemma to_chars_special: "CHR ''='' \<notin> set (to_chars v)" "CHR 0x01 \<notin> set (to_chars v)"
  by (simp_all add: to_chars_def nat_str_special)

lemma to_chars_nonempty [simp]: "to_chars v \<noteq> []"
  by (simp add: to_chars_def)

end
