(* ===== verification/Tsc.thy ===== *)
theory Tsc
  imports Doubles Cpp_Strings
begin

text \<open>
  \<^verbatim>\<open>include/tsc.hpp\<close>: the calibrated timestamp counter. The readings of the counter and of
  \<^verbatim>\<open>CLOCK_MONOTONIC_RAW\<close> are arguments; \<^verbatim>\<open>/proc/cpuinfo\<close> is the list of its lines. Doubles are
  those of \<open>Doubles\<close> (binary64 rounding to nearest even, no overflow of the exponent).
\<close>

record timespec =
  tv_sec :: int
  tv_nsec :: int

text \<open>The four readings \<^verbatim>\<open>calibrate\<close> takes, in program order.\<close>

record calib_sample =
  cs_w0 :: timespec
  cs_c0 :: u64
  cs_c1 :: u64
  cs_w1 :: timespec

record tsc_clock =
  ns_per_tick :: dbl

definition tsc_is_invariant :: "string list \<Rightarrow> bool" where
  "tsc_is_invariant ls =
     (case filter (starts_with ''flags'') ls of [] \<Rightarrow> False
      | line # _ \<Rightarrow> (let c = (str_find line ''constant_tsc'' 0 \<noteq> None);
                         n = (str_find line ''nonstop_tsc'' 0 \<noteq> None) in c \<and> n))"

definition sleep_request :: "u32 \<Rightarrow> timespec" where
  "sleep_request sample_ms = \<lparr>tv_sec = 0, tv_nsec = uint sample_ms * 1000000\<rparr>"

definition elapsed_ns :: "timespec \<Rightarrow> timespec \<Rightarrow> i64 cpp" where
  "elapsed_ns w0 w1 =
     cpp_bind (i64_chk (tv_sec w1 - tv_sec w0)) (\<lambda>ds.
     cpp_bind (i64_chk (ds * 1000000000)) (\<lambda>a.
     cpp_bind (i64_chk (tv_nsec w1 - tv_nsec w0)) (\<lambda>dn.
     i64_chk (a + dn))))"

text \<open>
  \<open>None\<close> stands for a ratio that is not a finite non-negative double (no tick elapsed, or the
  wall clock went backwards).
\<close>

definition calibrate :: "calib_sample \<Rightarrow> tsc_clock option cpp" where
  "calibrate s =
     cpp_bind (elapsed_ns (cs_w0 s) (cs_w1 s)) (\<lambda>ns.
     let dticks = cs_c1 s - cs_c0 s
     in Inr (if dticks = 0 \<or> ns < 0 then None
             else Some \<lparr>ns_per_tick = ddiv (dbl_of_nat (nat ns)) (dbl_of_nat (unat dticks))\<rparr>))"

definition ticks_to_ns :: "tsc_clock \<Rightarrow> u64 \<Rightarrow> u64 cpp" where
  "ticks_to_ns clk dticks = dbl_to_u64 (dmul (dbl_of_nat (unat dticks)) (ns_per_tick clk))"

definition ghz :: "tsc_clock \<Rightarrow> dbl" where
  "ghz clk = ddiv (dbl_of_nat 1) (ns_per_tick clk)"

section \<open>Conversions\<close>

lemma ticks_to_ns_scaled:
  "ticks_to_ns clk d = (if scaled (unat d) (ns_per_tick clk) < 2 ^ 64
     then Inr (of_nat (scaled (unat d) (ns_per_tick clk))) else Inl Bad_cast)"
  by (simp add: ticks_to_ns_def dbl_to_u64_def scaled_def)

lemma dbl_of_nat_small: "n < 2 ^ 53 \<Longrightarrow> dbl_of_nat n = Dbl n 0"
proof -
  assume n: "n < 2 ^ 53"
  then have "excess n = 0"
    using nbits_bounds [of n] power_le_imp_le_exp [of 2 "nbits n - 1" 52] power_less_imp_less_exp [of "2::nat" "nbits n - 1" 53]
    by (cases "n = 0") (auto simp: excess_def)
  then show ?thesis by (simp add: dbl_of_nat_def dround_def rne_def)
qed

text \<open>A counter of one tick per nanosecond.\<close>

lemma ddiv_one: "ddiv (dbl_of_nat 1) (dbl_of_nat 1) = Dbl 4503599627370496 (- 52)"
proof -
  have "nbits (Suc 0) = 1" "nbits (2 ^ 57) = 58" using nbits_unique [of 0 1] nbits_unique [of 57 "2 ^ 57"] by simp_all
  then show ?thesis by (simp add: dbl_of_nat_small ddiv_def dround_def excess_def rne_def)
qed

lemma div_sticky_bounds:
  fixes n d :: nat
  assumes "0 < d"
  defines "m \<equiv> 2 * (n div d) + (if n mod d = 0 then 0 else 1)"
  shows "d * m \<le> 2 * n + d" and "2 * n \<le> d * m + d"
proof -
  have e: "n = d * (n div d) + n mod d" by simp
  have r: "n mod d < d" using assms by simp
  have "d * m = 2 * (d * (n div d)) + (if n mod d = 0 then 0 else d)" by (simp add: m_def algebra_simps)
  then show "d * m \<le> 2 * n + d" "2 * n \<le> d * m + d" using e r by (simp_all split: if_splits, linarith+)
qed

lemma rnd53_rel:
  assumes "2 ^ 53 \<le> m"
  shows "2 ^ 52 * rnd53 m \<le> 2 ^ 52 * m + m" and "2 ^ 52 * m \<le> 2 ^ 52 * rnd53 m + m"
proof -
  have pos: "0 < m" using assms by (cases m) auto
  have "m < 2 ^ nbits m" "2 ^ (nbits m - 1) \<le> m" using nbits_bounds [OF pos] by auto
  then have "53 < nbits m" using assms power_less_imp_less_exp [of "2::nat" 53 "nbits m"] by simp
  then have "nbits m - 1 = 52 + excess m" by (simp add: excess_def)
  then have "(2::nat) ^ 52 * 2 ^ excess m = 2 ^ (nbits m - 1)" by (simp only: power_add)
  then have k: "2 ^ 52 * 2 ^ excess m \<le> m" using \<open>2 ^ (nbits m - 1) \<le> m\<close> by simp
  show "2 ^ 52 * rnd53 m \<le> 2 ^ 52 * m + m" using rnd53_error(1) [of m] k by simp
  show "2 ^ 52 * m \<le> 2 ^ 52 * rnd53 m + m" using rnd53_error(2) [of m] k by simp
qed

lemma scaled_dround: "d < 2 ^ 53 \<Longrightarrow> scaled d (dround m e) = dtrunc (dround (d * rnd53 m) e)"
proof -
  assume d: "d < 2 ^ 53"
  have "scaled d (Dbl p x) = dtrunc (dround (d * p) x)" for p x
    by (simp add: scaled_def dbl_of_nat_small [OF d] dmul_def)
  then have "scaled d (dround m e) = dtrunc (dround (d * rne (excess m) m) (int (excess m) + e))"
    unfolding dround_def [of m e] by (simp add: add.commute)
  then show ?thesis by (simp add: dtrunc_dround_shift rnd53_def mult.assoc)
qed

text \<open>The two roundings together move the product by less than \<open>2 ^ 56 * K\<close>.\<close>

lemma rounded_close:
  fixes X P Y K d :: nat
  assumes X: "X \<le> 2 ^ 56 * Y + d" "2 ^ 56 * Y \<le> X + d"
    and P: "2 ^ 52 * P \<le> 2 ^ 52 * X + X" "2 ^ 52 * X \<le> 2 ^ 52 * P + X"
    and Y: "Y \<le> 2 ^ 49 * K" "K \<le> Y" and d: "d < K" "0 < d"
  shows "rnd53 P < 2 ^ 56 * Y + 2 ^ 56 * K \<and> 2 ^ 56 * Y < rnd53 P + 2 ^ 56 * K"
proof -
  have "2 ^ 53 \<le> P" using X P Y d by simp
  from rnd53_rel [OF this] have R: "2 ^ 52 * rnd53 P \<le> 2 ^ 52 * P + P" "2 ^ 52 * P \<le> 2 ^ 52 * rnd53 P + P" by simp_all
  have "rnd53 P < 2 ^ 56 * Y + 2 ^ 56 * K" using R X P Y d by simp
  moreover have "2 ^ 56 * Y < rnd53 P + 2 ^ 56 * K" using R X P Y d by simp
  ultimately show ?thesis ..
qed

lemma calibrated_scaled:
  assumes n: "0 < n" "n < 2 ^ 49" and d: "0 < d" "d < 2 ^ 53"
  shows "scaled d (ddiv (dbl_of_nat n) (dbl_of_nat d)) \<in> {n - 1, n}"
proof -
  let ?k = "55 + nbits d"
  let ?N = "n * 2 ^ ?k"
  let ?m = "2 * (?N div d) + (if ?N mod d = 0 then 0 else 1)"
  let ?P = "d * rnd53 ?m"
  have n53: "n < 2 ^ 53" using n(2) by simp
  have bd: "d < 2 ^ nbits d" using nbits_bounds [OF d(1)] by simp
  have "ddiv (dbl_of_nat n) (dbl_of_nat d) = dround ?m (- int ?k - 1)"
    by (simp add: dbl_of_nat_small [OF n53] dbl_of_nat_small [OF d(2)] ddiv_def Let_def)
  then have "scaled d (ddiv (dbl_of_nat n) (dbl_of_nat d)) = dtrunc (dround ?P (- int ?k - 1))"
    by (simp only: scaled_dround [OF d(2)])
  also have "\<dots> = rnd53 ?P div 2 ^ Suc ?k"
  proof -
    have "nat (- (- int ?k - 1)) = Suc ?k" by simp
    then show ?thesis by (simp only: dtrunc_dround) simp
  qed
  finally have s: "scaled d (ddiv (dbl_of_nat n) (dbl_of_nat d)) = rnd53 ?P div 2 ^ Suc ?k" .
  have B: "d * ?m \<le> 2 * ?N + d" "2 * ?N \<le> d * ?m + d" using div_sticky_bounds [OF d(1), of ?N] by simp_all
  have k55: "(2::nat) ^ ?k = 2 ^ 55 * 2 ^ nbits d" by (simp add: power_add)
  have kN: "(2::nat) ^ ?k \<le> ?N" using n(1) by simp
  have q: "2 ^ 55 \<le> ?N div d"
  proof -
    have "2 ^ 55 * d \<le> 2 ^ ?k" using bd k55 by simp
    then have "2 ^ 55 * d \<le> ?N" using kN by (rule le_trans)
    then have "2 ^ 55 * d div d \<le> ?N div d" by (rule div_le_mono)
    then show ?thesis using d(1) by simp
  qed
  have m53: "2 ^ 53 \<le> ?m" using q by simp
  have R1: "2 ^ 52 * ?P \<le> 2 ^ 52 * (d * ?m) + d * ?m" "2 ^ 52 * (d * ?m) \<le> 2 ^ 52 * ?P + d * ?m"
    using mult_le_mono2 [OF rnd53_rel(1) [OF m53], of d] mult_le_mono2 [OF rnd53_rel(2) [OF m53], of d]
    by (simp_all add: algebra_simps)
  obtain K where K: "K = (2::nat) ^ nbits d" by simp
  have N: "?N = 2 ^ 55 * (n * K)" using k55 K by simp
  have dK: "d < K" using bd K by simp
  have nK: "n * K \<le> 2 ^ 49 * K" "K \<le> n * K" using n by simp_all
  define Y where "Y = n * K"
  have N2: "2 * ?N = 2 ^ 56 * Y" using N by (simp add: Y_def)
  have YB: "Y \<le> 2 ^ 49 * K" "K \<le> Y" using nK by (simp_all add: Y_def)
  have hi: "rnd53 ?P < 2 ^ 56 * Y + 2 ^ 56 * K" and lo: "2 ^ 56 * Y < rnd53 ?P + 2 ^ 56 * K"
    using rounded_close [OF B [unfolded N2] R1 YB dK d(1)] by simp_all
  have pw: "2 ^ Suc ?k = 2 ^ 56 * K" unfolding power_Suc k55 K by simp
  have "rnd53 ?P div (2 ^ 56 * K) < Suc n"
    using hi Y_def by (intro less_mult_imp_div_less) (simp add: algebra_simps)
  moreover have "n - 1 \<le> rnd53 ?P div (2 ^ 56 * K)"
  proof -
    have "0 < 2 ^ 56 * K" using dK by simp
    moreover have "(n - 1) * (2 ^ 56 * K) \<le> rnd53 ?P" using lo Y_def n(1) by (cases n) (simp_all add: algebra_simps)
    ultimately show ?thesis by (simp add: less_eq_div_iff_mult_less_eq)
  qed
  ultimately show ?thesis unfolding s pw by auto
qed

text \<open>
  C33. Converting the ticks of the calibration interval back to nanoseconds with the clock that
  \<^verbatim>\<open>calibrate\<close> returns gives the wall time of the interval, at most one nanosecond less (intervals
  up to \<open>2 ^ 49\<close> ns, six days, and fewer than \<open>2 ^ 53\<close> ticks).
\<close>

theorem calibrate_accurate:
  assumes "elapsed_ns (cs_w0 s) (cs_w1 s) = Inr ns" and "0 < ns" "ns < 2 ^ 49"
    and "cs_c1 s \<noteq> cs_c0 s" and "unat (cs_c1 s - cs_c0 s) < 2 ^ 53"
  shows "\<exists>clk r. calibrate s = Inr (Some clk) \<and> ticks_to_ns clk (cs_c1 s - cs_c0 s) = Inr r \<and>
    (uint r = ns \<or> uint r = ns - 1)"
proof -
  let ?d = "cs_c1 s - cs_c0 s"
  let ?clk = "\<lparr>ns_per_tick = ddiv (dbl_of_nat (nat ns)) (dbl_of_nat (unat ?d))\<rparr>"
  have pos: "0 < unat ?d" using assms(4) by (simp add: unat_gt_0)
  have n: "0 < nat ns" "nat ns < 2 ^ 49" using assms(2,3) by simp_all
  have c: "calibrate s = Inr (Some ?clk)" using assms by (simp add: calibrate_def Let_def)
  obtain r where r: "r = scaled (unat ?d) (ns_per_tick ?clk)" by simp
  have rn: "r \<in> {nat ns - 1, nat ns}" using calibrated_scaled [OF n pos assms(5)] r by simp
  then have lt: "r < 2 ^ 64" using n(2) by auto
  then have "ticks_to_ns ?clk ?d = Inr (of_nat r)" by (simp add: ticks_to_ns_scaled r)
  moreover have "uint (of_nat r :: u64) = int r" using lt by (simp add: uint_nat unat_of_nat_u64)
  moreover have "int r = ns \<or> int r = ns - 1" using rn assms(2) by auto
  ultimately show ?thesis using c by metis
qed

theorem calibrate_accurate_witness:
  "\<exists>clk r. calibrate \<lparr>cs_w0 = \<lparr>tv_sec = 7, tv_nsec = 900000000\<rparr>, cs_c0 = 5,
      cs_c1 = 300000005, cs_w1 = \<lparr>tv_sec = 8, tv_nsec = 100\<rparr>\<rparr> = Inr (Some clk) \<and>
    ticks_to_ns clk 300000000 = Inr r \<and> (uint r = 100000100 \<or> uint r = 100000099)"
  using calibrate_accurate [of "\<lparr>cs_w0 = \<lparr>tv_sec = 7, tv_nsec = 900000000\<rparr>, cs_c0 = 5,
      cs_c1 = 300000005, cs_w1 = \<lparr>tv_sec = 8, tv_nsec = 100\<rparr>\<rparr>" 100000100]
  by (simp add: elapsed_ns_def i64_defs)

text \<open>
  \<^verbatim>\<open>ticks_to_ns\<close> is monotone: of two intervals the one with fewer ticks is never reported
  longer, and it is in range whenever the longer one is.
\<close>

lemma ticks_to_ns_mono:
  assumes "a \<le> b" and "ticks_to_ns clk b = Inr n"
  shows "\<exists>m. ticks_to_ns clk a = Inr m \<and> m \<le> n"
proof -
  have "scaled (unat a) (ns_per_tick clk) \<le> scaled (unat b) (ns_per_tick clk)"
    using assms(1) by (intro scaled_mono) (simp add: word_le_nat_alt)
  moreover from assms(2) have "scaled (unat b) (ns_per_tick clk) < 2 ^ 64"
    "n = of_nat (scaled (unat b) (ns_per_tick clk))" by (auto simp: ticks_to_ns_scaled split: if_splits)
  ultimately show ?thesis by (simp add: ticks_to_ns_scaled word_le_nat_alt unat_of_nat_u64)
qed

end
