(* ===== verification/Fix.thy ===== *)
theory Fix
  imports Interfaces Cpp_Strings
begin

text \<open>
  \<^verbatim>\<open>include/fix.hpp\<close>: FIX 4.2 messages. A buffer is the list of the bytes written to it so far;
  a write past the end of a fixed array is the fault \<open>Buffer_overflow\<close>. \<^verbatim>\<open>size_t\<close> positions are
  natural numbers except in \<^verbatim>\<open>Framer::next\<close>, where the cast of a negative length makes the
  arithmetic wrap and positions are 64-bit words.
\<close>

definition SOH :: char where
  "SOH = CHR 0x01"

definition checksum :: "string \<Rightarrow> u8" where
  "checksum bytes = ucast (foldl (\<lambda>sum c. sum + of_nat (of_char c)) (0 :: u32) bytes AND 0xFF)"

section \<open>Builder\<close>

definition body_cap :: nat where
  "body_cap = 480"

text \<open>
  A tag whose decimal form does not fit the ten characters given to \<^verbatim>\<open>to_chars\<close> leaves the
  buffer unspecified.
\<close>

definition write_field :: "int \<Rightarrow> string \<Rightarrow> string cpp" where
  "write_field tag val =
     (if length (to_chars tag) \<le> 10 then Inr (to_chars tag @ ''='' @ val @ [SOH]) else Inl Bad_access)"

definition builder_reset :: "string \<Rightarrow> string" where
  "builder_reset body = []"

definition builder_add :: "int \<Rightarrow> string \<Rightarrow> string \<Rightarrow> string cpp" where
  "builder_add tag val body =
     cpp_bind (write_field tag val) (\<lambda>f.
     if length body + length f \<le> body_cap then Inr (body @ f) else Inl Buffer_overflow)"

definition builder_add_int :: "int \<Rightarrow> i64 \<Rightarrow> string \<Rightarrow> string cpp" where
  "builder_add_int tag val body = builder_add tag (to_chars val) body"

definition ck_digits :: "u8 \<Rightarrow> string" where
  "ck_digits ck = [char_of (48 + unat (ck div 100)), char_of (48 + unat (ck div 10 mod 10)),
     char_of (48 + unat (ck mod 10))]"

definition finalize :: "nat \<Rightarrow> string \<Rightarrow> string cpp" where
  "finalize out_cap body =
     cpp_bind (write_field 8 ''FIX.4.2'') (\<lambda>f8.
     cpp_bind (write_field 9 (nat_str (length body))) (\<lambda>f9.
     let n = f8 @ f9 @ body in
     cpp_bind (write_field 10 (ck_digits (checksum n))) (\<lambda>f10.
     if length (n @ f10) \<le> out_cap then Inr (n @ f10) else Inl Buffer_overflow)))"

section \<open>View\<close>

function view_scan :: "string \<Rightarrow> int \<Rightarrow> nat \<Rightarrow> string" where
  "view_scan msg tag i =
     (if i < length msg then
        (case str_find msg ''='' i of
           None \<Rightarrow> []
         | Some eq \<Rightarrow>
             (let t = from_chars_int (substr msg i (eq - i)) 0;
                  soh = (case str_find msg [SOH] (eq + 1) of None \<Rightarrow> length msg | Some k \<Rightarrow> k)
              in if t = tag then substr msg (eq + 1) (soh - eq - 1)
                 else view_scan msg tag (soh + 1)))
      else [])"
  by pat_completeness auto

termination
  by (relation "measure (\<lambda>(msg, tag, i). length msg - i)")
     (auto dest!: str_find_bound split: option.splits)

declare view_scan.simps [simp del]

definition view_get :: "string \<Rightarrow> int \<Rightarrow> string" where
  "view_get msg tag = view_scan msg tag 0"

definition view_get_int :: "string \<Rightarrow> int \<Rightarrow> i64 \<Rightarrow> i64" where
  "view_get_int msg tag dflt =
     (let v = view_get msg tag in if v = [] then dflt else from_chars_i64 v dflt)"

section \<open>Framer\<close>

definition framer_append :: "string \<Rightarrow> string \<Rightarrow> string" where
  "framer_append p buf = buf @ p"

definition framer_next :: "string \<Rightarrow> string option \<times> string" where
  "framer_next buf =
     (case str_find buf ''8='' 0 of None \<Rightarrow> (None, buf)
      | Some s \<Rightarrow>
     (case str_find buf (SOH # ''9='') s of None \<Rightarrow> (None, buf)
      | Some nine \<Rightarrow>
     (let lenstart = nine + 3 in
      case str_find buf [SOH] lenstart of None \<Rightarrow> (None, buf)
      | Some soh_after_len \<Rightarrow>
     (let body_len = from_chars_int (substr buf lenstart (soh_after_len - lenstart)) 0;
          body_start = soh_after_len + 1;
          msg_end = of_nat body_start + of_int body_len + 7 :: u64
      in if length buf < unat msg_end then (None, buf)
         else (Some (substr buf s (unat (msg_end - of_nat s))), drop (unat msg_end) buf)))))"

text \<open>The callers' loop \<^verbatim>\<open>while (auto m = fr.next())\<close>; \<open>None\<close> is the loop that never ends.\<close>

partial_function (option) framer_drain :: "string \<Rightarrow> (string list \<times> string) option" where
  "framer_drain buf =
     (case framer_next buf of
        (None, rest) \<Rightarrow> Some ([], rest)
      | (Some m, rest) \<Rightarrow> Option.bind (framer_drain rest) (\<lambda>(ms, r). Some (m # ms, r)))"

text \<open>The receive loop of the clients: append each chunk, then take out every complete message.\<close>

fun framer_feed :: "string list \<Rightarrow> string \<Rightarrow> (string list \<times> string) option" where
  "framer_feed [] buf = Some ([], buf)"
| "framer_feed (c # cs) buf =
     Option.bind (framer_drain (framer_append c buf)) (\<lambda>(ms, b).
     Option.bind (framer_feed cs b) (\<lambda>(ms', b'). Some (ms @ ms', b')))"

section \<open>Binary orders\<close>

record bin_order =
  bo_msg_type :: u8
  bo_clordid :: u64
  bo_sym_id :: u32
  bo_side :: u8
  bo_px :: i64
  bo_qty :: i64

text \<open>
  The object representation of the packed structure on the little-endian target: fields in
  order, least significant byte first, signed field_seq in two's complement.
\<close>

fun le_bytes :: "nat \<Rightarrow> nat \<Rightarrow> u8 list" where
  "le_bytes 0 v = []"
| "le_bytes (Suc n) v = of_nat (v mod 256) # le_bytes n (v div 256)"

fun of_le_bytes :: "u8 list \<Rightarrow> nat" where
  "of_le_bytes [] = 0"
| "of_le_bytes (b # bs) = unat b + 256 * of_le_bytes bs"

definition i64_bits :: "int \<Rightarrow> nat" where
  "i64_bits x = unat (of_int x :: u64)"

definition bits_i64 :: "nat \<Rightarrow> int" where
  "bits_i64 n = sint (of_nat n :: u64)"

definition bin_encode :: "bin_order \<Rightarrow> u8 list" where
  "bin_encode b = le_bytes 1 (unat (bo_msg_type b)) @ le_bytes 8 (unat (bo_clordid b)) @
     le_bytes 4 (unat (bo_sym_id b)) @ le_bytes 1 (unat (bo_side b)) @
     le_bytes 8 (i64_bits (bo_px b)) @ le_bytes 8 (i64_bits (bo_qty b))"

definition bin_decode :: "u8 list \<Rightarrow> bin_order" where
  "bin_decode bs =
     \<lparr>bo_msg_type = of_nat (of_le_bytes (take 1 bs)),
      bo_clordid = of_nat (of_le_bytes (take 8 (drop 1 bs))),
      bo_sym_id = of_nat (of_le_bytes (take 4 (drop 9 bs))),
      bo_side = of_nat (of_le_bytes (take 1 (drop 13 bs))),
      bo_px = bits_i64 (of_le_bytes (take 8 (drop 14 bs))),
      bo_qty = bits_i64 (of_le_bytes (take 8 (drop 22 bs)))\<rparr>"

section \<open>Fields\<close>

definition field :: "int \<Rightarrow> string \<Rightarrow> string" where
  "field tag val = to_chars tag @ ''='' @ val @ [SOH]"

definition tag_ok :: "int \<Rightarrow> bool" where
  "tag_ok t \<longleftrightarrow> 0 \<le> t \<and> t < 2 ^ 31"

definition field_seq :: "(int \<times> string) list \<Rightarrow> string" where
  "field_seq fs = concat (map (\<lambda>(t, v). field t v) fs)"

definition fields_ok :: "(int \<times> string) list \<Rightarrow> bool" where
  "fields_ok fs \<longleftrightarrow> list_all (\<lambda>(t, v). tag_ok t \<and> SOH \<notin> set v) fs"

fun builder_adds :: "(int \<times> string) list \<Rightarrow> string \<Rightarrow> string cpp" where
  "builder_adds [] body = Inr body"
| "builder_adds ((t, v) # fs) body = cpp_bind (builder_add t v body) (builder_adds fs)"

lemma fields_simps [simp]:
  "field_seq [] = []" "field_seq ((t, v) # fs) = field t v @ field_seq fs" "field_seq (fs @ gs) = field_seq fs @ field_seq gs"
  by (simp_all add: field_seq_def)

lemma tag_length: "tag_ok t \<Longrightarrow> length (to_chars t) \<le> 10"
  using nat_str_length [of "nat t" 10] by (simp add: tag_ok_def to_chars_def nat_less_iff)

lemma write_field_ok: "tag_ok t \<Longrightarrow> write_field t v = Inr (field t v)"
  by (simp add: write_field_def tag_length field_def)

lemma builder_adds_spec:
  assumes "fields_ok fs"
  shows "builder_adds fs body = (if length (body @ field_seq fs) \<le> body_cap \<or> fs = [] then Inr (body @ field_seq fs) else Inl Buffer_overflow)"
  using assms
proof (induction fs arbitrary: body)
  case (Cons f fs)
  obtain t v where f: "f = (t, v)" by (cases f)
  with Cons.prems have ok: "tag_ok t" "fields_ok fs" by (simp_all add: fields_ok_def)
  show ?case
    using Cons.IH [OF ok(2), of "body @ field t v"]
    by (auto simp: f builder_add_def write_field_ok [OF ok(1)])
qed simp

lemma view_scan_fields:
  assumes "fields_ok fs"
  shows "view_scan (pre @ field_seq fs) tag (length pre) = (case map_of fs tag of None \<Rightarrow> [] | Some v \<Rightarrow> v)"
  using assms
proof (induction fs arbitrary: pre)
  case Nil
  then show ?case by (simp add: view_scan.simps)
next
  case (Cons f fs)
  obtain t v where f: "f = (t, v)" by (cases f)
  with Cons.prems have ok: "tag_ok t" "SOH \<notin> set v" "fields_ok fs" by (simp_all add: fields_ok_def)
  let ?msg = "pre @ field_seq (f # fs)"
  let ?eq = "length pre + length (to_chars t)"
  have m1: "?msg = pre @ (to_chars t @ CHR ''='' # v @ SOH # field_seq fs)" by (simp add: f field_def)
  have m2: "?msg = (pre @ to_chars t @ ''='') @ (v @ SOH # field_seq fs)" by (simp add: f field_def)
  have eq: "str_find ?msg ''='' (length pre) = Some ?eq"
    unfolding m1 by (simp add: str_find_at find_char to_chars_special)
  have soh: "str_find ?msg [SOH] (?eq + 1) = Some (?eq + 1 + length v)"
    unfolding m2 by (subst str_find_at) (simp_all add: find_char ok)
  have tag: "from_chars_int (substr ?msg (length pre) (?eq - length pre)) 0 = t"
    using ok(1) unfolding m1 by (simp add: substr_def from_chars_int_def from_to_chars tag_ok_def)
  have val: "substr ?msg (?eq + 1) (?eq + 1 + length v - ?eq - 1) = v"
    unfolding m2 by (simp add: substr_def)
  have next_pos: "view_scan ?msg tag (?eq + 1 + length v + 1) = (case map_of fs tag of None \<Rightarrow> [] | Some v \<Rightarrow> v)"
    using Cons.IH [OF ok(3), of "pre @ field t v"] by (simp add: f field_def add.assoc)
  have lt: "length pre < length ?msg" unfolding m1 by simp
  show ?case
    by (subst view_scan.simps, simp only: lt if_True eq option.simps Let_def soh tag val next_pos) (simp add: f)
qed

lemma view_get_fields: "fields_ok fs \<Longrightarrow> view_get (field_seq fs) tag = (case map_of fs tag of None \<Rightarrow> [] | Some v \<Rightarrow> v)"
  using view_scan_fields [of fs "[]" tag] by (simp add: view_get_def)

section \<open>Checksums\<close>

lemma checksum_fold:
  "foldl (\<lambda>sum c. sum + of_nat (of_char c)) (a :: u32) bytes = a + of_nat (sum_list (map of_char bytes))"
  by (induction bytes arbitrary: a) (simp_all add: add.assoc)

lemma checksum_sum: "unat (checksum bytes) = sum_list (map of_char bytes) mod 256"
proof -
  let ?S = "sum_list (map of_char bytes) :: nat"
  have "checksum bytes = ucast (of_nat ?S AND 0xFF :: u32)"
    by (simp add: checksum_def checksum_fold)
  also have "unat \<dots> = unat (of_nat ?S AND (256 - 1) :: u32)"
    using unat_and_mask [of 8 "of_nat ?S :: u32"] by (simp add: unsigned_ucast_eq take_bit_eq_mod)
  finally show ?thesis using unat_of_nat_mod_pow2 [of "256 :: u32" ?S] by (simp add: pow2_assert_def)
qed

lemma ck_digits_val: "digits_val (ck_digits c) = unat c" and ck_digits_digit: "list_all is_digit (ck_digits c)"
proof -
  let ?n = "unat c"
  have n: "?n < 256" using unsigned_less [of c] by simp
  have d: "ck_digits c = [digit_char (?n div 100), digit_char (?n div 10 mod 10), digit_char (?n mod 10)]"
    by (simp add: ck_digits_def digit_char_def unat_div unat_mod)
  have lt: "?n div 100 < 10" "?n div 10 mod 10 < 10" "?n mod 10 < 10" using n by simp_all
  show "list_all is_digit (ck_digits c)" using lt by (simp add: d digit_char_props)
  show "digits_val (ck_digits c) = ?n"
    using lt div_mult_mod_eq [of "?n div 10" 10] div_mult_mod_eq [of ?n 10] div_mult2_eq [of ?n 10 10]
    by (simp add: d digits_val_def digit_char_props)
qed

lemma ck_digits_special: "SOH \<notin> set (ck_digits c)" "ck_digits c \<noteq> []" "length (ck_digits c) = 3"
  using ck_digits_digit [of c] is_digit_special(3) by (auto simp: list_all_iff SOH_def ck_digits_def)

section \<open>Frames\<close>

text \<open>A frame: the bytes \<^verbatim>\<open>finalize\<close> produces, as far as the framer reads them.\<close>

definition is_frame :: "string \<Rightarrow> bool" where
  "is_frame msg \<longleftrightarrow> (\<exists>n tail. msg = ''8=FIX.4.2'' @ [SOH] @ ''9='' @ nat_str n @ [SOH] @ tail \<and>
     length tail = n + 7 \<and> n < 2 ^ 31)"

lemma finalize_spec:
  "finalize cap body =
     (let n = field_seq [(8, ''FIX.4.2''), (9, nat_str (length body))] @ body;
          msg = n @ field 10 (ck_digits (checksum n))
      in if length msg \<le> cap then Inr msg else Inl Buffer_overflow)"
  by (simp add: finalize_def write_field_ok tag_ok_def Let_def)

lemma to_chars_lits: "to_chars 8 = ''8''" "to_chars 9 = ''9''" "to_chars 10 = ''10''"
  by (simp_all add: to_chars_def nat_str.simps digit_char_def char_of_eq_iff)

definition frame_of :: "string \<Rightarrow> string" where
  "frame_of body = (let n = field_seq [(8, ''FIX.4.2''), (9, nat_str (length body))] @ body
     in n @ field 10 (ck_digits (checksum n)))"

lemma frame_of_length: "length (frame_of body) = 20 + length (nat_str (length body)) + length body"
  by (simp add: frame_of_def Let_def field_def to_chars_lits ck_digits_special)

lemma finalize_cases:
  "finalize cap body = (if 20 + length (nat_str (length body)) + length body \<le> cap
     then Inr (frame_of body) else Inl Buffer_overflow)"
  unfolding frame_of_length [symmetric] by (simp add: finalize_spec frame_of_def Let_def)

lemma finalize_frame: "finalize cap body = Inr msg \<Longrightarrow> length body < 2 ^ 31 \<Longrightarrow> is_frame msg"
  unfolding is_frame_def
  by (rule exI [of _ "length body"], rule exI [of _ "body @ field 10 (ck_digits (checksum
      (field_seq [(8, ''FIX.4.2''), (9, nat_str (length body))] @ body)))"])
     (auto simp: finalize_spec Let_def field_def to_chars_lits ck_digits_special split: if_splits)

lemma frame_search:
  assumes "buf = ''8=FIX.4.2'' @ [SOH] @ ''9='' @ nat_str n @ [SOH] @ tail"
  shows "str_find buf ''8='' 0 = Some 0" "str_find buf (SOH # ''9='') 0 = Some 9"
    "str_find buf [SOH] 12 = Some (12 + length (nat_str n))"
    "substr buf 12 (length (nat_str n)) = nat_str n"
proof -
  show "str_find buf ''8='' 0 = Some 0" "str_find buf (SOH # ''9='') 0 = Some 9"
    unfolding assms by (simp_all add: str_find_def SOH_def)
  have b: "buf = (''8=FIX.4.2'' @ [SOH] @ ''9='') @ (nat_str n @ SOH # tail)" using assms by simp
  show "str_find buf [SOH] 12 = Some (12 + length (nat_str n))"
    unfolding b by (subst str_find_at) (simp_all add: find_char nat_str_special SOH_def)
  show "substr buf 12 (length (nat_str n)) = nat_str n" unfolding b by (simp add: substr_def)
qed

lemma frame_end:
  assumes "n < 2 ^ 31"
  shows "unat (20 + (of_nat (length (nat_str n)) + of_nat n) :: u64) = 20 + length (nat_str n) + n"
proof -
  have "length (nat_str n) \<le> 10" using nat_str_length [of n 10] assms by simp
  then have lt: "20 + length (nat_str n) + n < 2 ^ 64" using assms by simp
  have "20 + (of_nat (length (nat_str n)) + of_nat n) = (of_nat (20 + length (nat_str n) + n) :: u64)"
    by simp
  then show ?thesis by (simp only: unat_of_nat_u64 [OF lt])
qed

lemma framer_next_parse:
  assumes "str_find b ''8='' 0 = Some 0" "str_find b (SOH # ''9='') 0 = Some 9"
    "str_find b [SOH] 12 = Some (12 + length (nat_str n))" "substr b 12 (length (nat_str n)) = nat_str n"
    "n < 2 ^ 31"
  shows "framer_next b = (if length b < 20 + length (nat_str n) + n then (None, b)
    else (Some (take (20 + length (nat_str n) + n) b), drop (20 + length (nat_str n) + n) b))"
proof -
  have fc: "from_chars_int (nat_str n) 0 = int n" using assms(5) by (simp add: from_chars_int_def from_chars_nat_str)
  show ?thesis
    unfolding framer_next_def by (simp add: assms(1-4) Let_def fc frame_end [OF assms(5)] substr_def [of b 0])
qed

lemma framer_next_frame:
  assumes "is_frame msg"
  shows "framer_next (msg @ rest) = (Some msg, rest)"
proof -
  obtain n tail where m: "msg = ''8=FIX.4.2'' @ [SOH] @ ''9='' @ nat_str n @ [SOH] @ tail"
    "length tail = n + 7" "n < 2 ^ 31" using assms by (auto simp: is_frame_def)
  have buf: "msg @ rest = ''8=FIX.4.2'' @ [SOH] @ ''9='' @ nat_str n @ [SOH] @ (tail @ rest)" using m(1) by simp
  have len: "20 + length (nat_str n) + n = length msg" using m(1,2) by simp
  show ?thesis using framer_next_parse [OF frame_search [OF buf] m(3)] unfolding len by simp
qed

lemma framer_next_partial:
  assumes "is_frame (b @ q)" "q \<noteq> []"
  shows "framer_next b = (None, b)"
proof -
  obtain n tail where m: "b @ q = ''8=FIX.4.2'' @ [SOH] @ ''9='' @ nat_str n @ [SOH] @ tail"
    "length tail = n + 7" "n < 2 ^ 31" using assms(1) by (auto simp: is_frame_def)
  note F = frame_search [OF m(1)]
  note T = str_find_truncated [OF F(1)] str_find_truncated [OF F(2)] str_find_truncated [OF F(3)]
  have len: "length b < 20 + length (nat_str n) + n"
    using arg_cong [OF m(1), of length] m(2) assms(2) by (cases q) simp_all
  show ?thesis
  proof (cases "13 + length (nat_str n) \<le> length b")
    case True
    have "substr b 12 (length (nat_str n)) = nat_str n"
      using F(4) True by (simp add: substr_def)
    then show ?thesis using framer_next_parse [of b n] T True m(3) len by simp
  next
    case False
    then show ?thesis using T by (auto simp: framer_next_def split: option.splits)
  qed
qed

section \<open>Draining a stream\<close>

lemma framer_drain_frame:
  "is_frame m \<Longrightarrow> framer_drain (m @ b) = Option.bind (framer_drain b) (\<lambda>(ms, r). Some (m # ms, r))"
  by (subst framer_drain.simps) (simp add: framer_next_frame)

lemma framer_drain_none: "framer_next b = (None, b) \<Longrightarrow> framer_drain b = Some ([], b)"
  by (subst framer_drain.simps) simp

lemma framer_next_nil: "framer_next [] = (None, [])"
  by (simp add: framer_next_def str_find_def)

text \<open>What is left in the buffer is less than the next message of the stream.\<close>

definition undelivered :: "string \<Rightarrow> string list \<Rightarrow> bool" where
  "undelivered b ms \<longleftrightarrow> (case ms of [] \<Rightarrow> b = [] | m # _ \<Rightarrow> length b < length m)"

lemma framer_drain_stream:
  assumes "list_all is_frame ms" "b @ x = concat ms"
  shows "\<exists>ms1 ms2 p. ms = ms1 @ ms2 \<and> framer_drain b = Some (ms1, p) \<and> p @ x = concat ms2 \<and> undelivered p ms2"
  using assms
proof (induction ms arbitrary: b)
  case Nil
  then show ?case by (simp add: framer_drain_none framer_next_nil undelivered_def)
next
  case (Cons m ms)
  show ?case
  proof (cases "length b < length m")
    case True
    then obtain q where q: "m = b @ q" "q \<noteq> []"
      using Cons.prems(2) by (auto simp: append_eq_append_conv2)
    then have "framer_drain b = Some ([], b)"
      using Cons.prems(1) framer_next_partial [of b q] framer_drain_none by simp
    then show ?thesis using True Cons.prems(2)
      by (intro exI [of _ "[]"] exI [of _ "m # ms"] exI [of _ b]) (simp add: undelivered_def)
  next
    case False
    then obtain b' where b': "b = m @ b'" using Cons.prems(2) by (auto simp: append_eq_append_conv2)
    obtain ms1 ms2 p where IH: "ms = ms1 @ ms2" "framer_drain b' = Some (ms1, p)" "p @ x = concat ms2"
      "undelivered p ms2" using Cons.IH [of b'] Cons.prems b' by auto
    then show ?thesis using Cons.prems(1) b'
      by (intro exI [of _ "m # ms1"] exI [of _ ms2] exI [of _ p]) (simp add: framer_drain_frame)
  qed
qed

lemma framer_feed_stream:
  assumes "list_all is_frame ms" "b @ concat cs = concat ms" "undelivered b ms"
  shows "framer_feed cs b = Some (ms, [])"
  using assms
proof (induction cs arbitrary: b ms)
  case Nil
  then show ?case by (cases ms) (auto simp: undelivered_def)
next
  case (Cons c cs)
  have "(b @ c) @ concat cs = concat ms" using Cons.prems(2) by simp
  from framer_drain_stream [OF Cons.prems(1) this] obtain ms1 ms2 p where
    d: "ms = ms1 @ ms2" "framer_drain (b @ c) = Some (ms1, p)" "p @ concat cs = concat ms2" "undelivered p ms2"
    by blast
  then have "framer_feed cs p = Some (ms2, [])" using Cons.IH [of ms2 p] Cons.prems(1) by simp
  then show ?case using d by (simp add: framer_append_def)
qed

section \<open>Headers with any length\<close>

lemma find_in_head: "pat \<noteq> [] \<Longrightarrow> hd pat \<notin> set xs \<Longrightarrow> find_in pat (xs @ pat @ ys) = Some (length xs)"
proof (induction xs)
  case Nil
  then show ?case by (cases pat) auto
next
  case (Cons x xs)
  then show ?case by (cases pat) auto
qed

lemma framer_next_header:
  assumes "SOH \<notin> set v" "SOH \<notin> set ds" "buf = ''8='' @ v @ [SOH] @ ''9='' @ ds @ [SOH] @ rest" "p = 6 + length v + length ds"
  shows "framer_next buf = (let msg_end = of_int (int p + from_chars_int ds 0 + 7) :: u64
     in if length buf < unat msg_end then (None, buf)
        else (Some (substr buf 0 (unat msg_end)), drop (unat msg_end) buf))"
proof -
  have b: "buf = (''8='' @ v) @ (SOH # ''9='') @ ds @ [SOH] @ rest" using assms(3) by simp
  obtain pre where pre: "buf = pre @ ds @ SOH # rest" "length pre = 2 + length v + 3"
    using b that [of "''8='' @ v @ SOH # ''9=''"] by simp
  have f1: "str_find buf ''8='' 0 = Some 0" by (simp add: assms(3) str_find_def)
  have "find_in (SOH # ''9='') ((''8='' @ v) @ (SOH # ''9='') @ ds @ [SOH] @ rest) = Some (length (''8='' @ v))"
    by (rule find_in_head) (use assms(1) in \<open>simp_all add: SOH_def\<close>)
  then have f2: "str_find buf (SOH # ''9='') 0 = Some (2 + length v)"
    using b by (simp add: str_find_def del: find_in.simps)
  have f3: "str_find buf [SOH] (2 + length v + 3) = Some (5 + length v + length ds)"
    unfolding pre(1) by (subst str_find_at) (simp_all add: pre(2) find_char assms(2))
  have f4: "substr buf (2 + length v + 3) (5 + length v + length ds - (2 + length v + 3)) = ds"
    by (simp add: pre substr_def)
  have e: "(of_nat (5 + length v + length ds + 1) + of_int x + 7 :: u64) = of_int (int p + x + 7)" for x
    by (simp add: assms(4))
  show ?thesis
    unfolding framer_next_def by (simp only: f1 f2 f3 f4 e option.case Let_def) simp
qed

lemma from_chars_int_low: "- (2 ^ 31) \<le> from_chars_int ds 0"
  by (simp add: from_chars_int_def from_chars_def Let_def)

lemma unat_of_int_small: "0 \<le> z \<Longrightarrow> z < 2 ^ 64 \<Longrightarrow> unat (of_int z :: u64) = nat z"
  by (simp add: unat_eq_nat_uint uint_word_of_int_eq take_bit_int_eq_self)

lemma unat_of_int_negative:
  assumes "- (2 ^ 64) \<le> z" "z < 0"
  shows "unat (of_int z :: u64) = nat (z + 2 ^ 64)"
proof -
  have "(of_int z :: u64) = of_int (z + 2 ^ 64)" by simp
  from arg_cong [OF this, of unat] show ?thesis by (rule trans) (rule unat_of_int_small, use assms in simp_all)
qed

text \<open>
  The loop never ends exactly when some call of \<^verbatim>\<open>next\<close> on the way returns a message without consuming anything: every
  other call that returns a message shortens the buffer.
\<close>

lemma framer_drain_spins: "framer_next b = (Some m, b) \<Longrightarrow> framer_drain b = None"
proof -
  assume "framer_next b = (Some m, b)"
  then have "framer_drain b = Option.bind (framer_drain b) (\<lambda>(ms, r). Some (m # ms, r))"
    by (subst framer_drain.simps) simp
  then show ?thesis by (cases "framer_drain b") auto
qed

lemma framer_next_shorter: "framer_next b = (Some m, r) \<Longrightarrow> r = b \<or> length r < length b"
proof -
  assume "framer_next b = (Some m, r)"
  then obtain e where "r = drop e b" "e \<le> length b"
    by (auto simp: framer_next_def Let_def not_less split: option.splits if_splits)
  then show ?thesis by (cases "e = 0") auto
qed

lemma framer_drain_leads:
  "(\<lambda>x y. \<exists>m. framer_next x = (Some m, y))\<^sup>*\<^sup>* b b' \<Longrightarrow> framer_next b' = (Some m, b') \<Longrightarrow> framer_drain b = None"
proof (induction rule: converse_rtranclp_induct)
  case base
  then show ?case by (rule framer_drain_spins)
next
  case (step x y)
  then show ?case by (subst framer_drain.simps) auto
qed

lemma framer_drain_diverges:
  "framer_drain b = None \<longleftrightarrow> (\<exists>b' m. (\<lambda>x y. \<exists>m. framer_next x = (Some m, y))\<^sup>*\<^sup>* b b' \<and> framer_next b' = (Some m, b'))"
proof
  show "\<exists>b' m. (\<lambda>x y. \<exists>m. framer_next x = (Some m, y))\<^sup>*\<^sup>* b b' \<and> framer_next b' = (Some m, b')" if "framer_drain b = None"
    using that
  proof (induction "length b" arbitrary: b rule: less_induct)
    case less
    obtain m r where n: "framer_next b = (Some m, r)" using less.prems
      by (cases "framer_next b"; cases "fst (framer_next b)") (simp_all add: framer_drain.simps)
    show ?case
    proof (cases "r = b")
      case False
      then have "length r < length b" using framer_next_shorter [OF n] by simp
      moreover have "framer_drain r = None"
        using less.prems n framer_drain.simps [of b] by (cases "framer_drain r") auto
      ultimately obtain b' m' where b': "(\<lambda>x y. \<exists>m. framer_next x = (Some m, y))\<^sup>*\<^sup>* r b'" "framer_next b' = (Some m', b')"
        using less.hyps by blast
      have "(\<lambda>x y. \<exists>m. framer_next x = (Some m, y))\<^sup>*\<^sup>* b b'"
        by (rule converse_rtranclp_into_rtranclp [OF _ b'(1)]) (use n in blast)
      then show ?thesis using b'(2) by blast
    qed (use n in blast)
  qed
  show "framer_drain b = None" if "\<exists>b' m. (\<lambda>x y. \<exists>m. framer_next x = (Some m, y))\<^sup>*\<^sup>* b b' \<and> framer_next b' = (Some m, b')"
    using that by (elim exE conjE) (rule framer_drain_leads)
qed

section \<open>Little-endian bytes\<close>

lemma le_bytes_length [simp]: "length (le_bytes n v) = n"
  by (induction n arbitrary: v) auto

lemma of_le_le_bytes: "of_le_bytes (le_bytes n v) = v mod 256 ^ n"
proof (induction n arbitrary: v)
  case (Suc n)
  have "unat (of_nat (v mod 256) :: u8) = v mod 256" by (simp add: unat_of_nat)
  then show ?case using Suc by (simp add: mod_mult2_eq)
qed simp

lemma le_bytes_of_le: "le_bytes (length bs) (of_le_bytes bs) = bs"
proof (induction bs)
  case (Cons b bs)
  have "unat b < 256" using unsigned_less [of b] by simp
  then show ?case using Cons by simp
qed simp

lemma of_le_bytes_less: "of_le_bytes bs < 256 ^ length bs"
proof (induction bs)
  case (Cons b bs)
  have "unat b < 256" using unsigned_less [of b] by simp
  then have "unat b + 256 * of_le_bytes bs < 256 * Suc (of_le_bytes bs)" by simp
  also have "\<dots> \<le> 256 * 256 ^ length bs" using Cons by (intro mult_le_mono2) simp
  finally show ?case by simp
qed simp

lemma le_bytes_chunk: "i + k \<le> length bs \<Longrightarrow> le_bytes k (of_le_bytes (take k (drop i bs))) = take k (drop i bs)"
  using le_bytes_of_le [of "take k (drop i bs)"] by simp

lemma of_le_chunk_less: "of_le_bytes (take k (drop i bs)) < 256 ^ k"
  by (rule less_le_trans [OF of_le_bytes_less]) (simp add: power_increasing)

lemma take_then_drop: "j = i + k \<Longrightarrow> take k (drop i bs) @ drop j bs = drop i bs"
  by (metis add.commute append_take_drop_id drop_drop)

lemma take_drop_chain:
  "length bs = 30 \<Longrightarrow> take 1 bs @ take 8 (drop 1 bs) @ take 4 (drop 9 bs) @ take 1 (drop 13 bs) @
    take 8 (drop 14 bs) @ take 8 (drop 22 bs) = bs"
  using take_then_drop [of 1 0 1 bs] take_then_drop [of 9 1 8 bs] take_then_drop [of 13 9 4 bs]
    take_then_drop [of 14 13 1 bs] take_then_drop [of 22 14 8 bs] by simp

lemma i64_bits_less: "i64_bits x < 2 ^ 64"
  using unat_u64_less by (simp add: i64_bits_def)

lemma bits_i64_bits: "i64_ok x \<Longrightarrow> bits_i64 (i64_bits x) = x"
  by (simp add: bits_i64_def i64_bits_def i64_defs signed_of_int signed_take_bit_int_eq_self)

lemma i64_bits_i64: "n < 2 ^ 64 \<Longrightarrow> i64_bits (bits_i64 n) = n"
  by (simp add: bits_i64_def i64_bits_def unat_of_nat_u64)

section \<open>Properties\<close>

lemma built_message:
  assumes "fields_ok fs" "builder_adds fs [] = Inr body" "finalize cap body = Inr msg"
  shows "\<exists>ck. body = field_seq fs \<and> length body \<le> body_cap \<and>
    msg = field_seq ([(8, ''FIX.4.2''), (9, nat_str (length body))] @ fs @ [(10, ck_digits ck)]) \<and>
    ck = checksum (field_seq ([(8, ''FIX.4.2''), (9, nat_str (length body))] @ fs))"
  using assms builder_adds_spec [OF assms(1), of "[]"]
  by (auto simp: finalize_spec Let_def body_cap_def split: if_splits)

lemma built_view:
  assumes "fields_ok fs" "builder_adds fs [] = Inr body" "finalize cap body = Inr msg"
  shows "tag \<noteq> 10 \<Longrightarrow> view_get msg tag =
      (case map_of ([(8, ''FIX.4.2''), (9, nat_str (length body))] @ fs) tag of None \<Rightarrow> [] | Some v \<Rightarrow> v)"
    and "map_of fs tag = Some (to_chars v) \<Longrightarrow> tag \<notin> {8, 9} \<Longrightarrow> i64_ok v \<Longrightarrow> view_get_int msg tag d = v"
proof -
  obtain ck where ck: "msg = field_seq ([(8, ''FIX.4.2''), (9, nat_str (length body))] @ fs @ [(10, ck_digits ck)])"
    using built_message [OF assms] by blast
  have "fields_ok ([(8, ''FIX.4.2''), (9, nat_str (length body))] @ fs @ [(10, ck_digits ck)])"
    using assms(1) ck_digits_special(1) nat_str_special(3)
    by (simp add: fields_ok_def tag_ok_def SOH_def)
  then have get: "view_get msg tag = (case map_of ([(8, ''FIX.4.2''), (9, nat_str (length body))] @ fs @
      [(10, ck_digits ck)]) tag of None \<Rightarrow> [] | Some v \<Rightarrow> v)"
    unfolding ck by (rule view_get_fields)
  show "tag \<noteq> 10 \<Longrightarrow> view_get msg tag =
      (case map_of ([(8, ''FIX.4.2''), (9, nat_str (length body))] @ fs) tag of None \<Rightarrow> [] | Some v \<Rightarrow> v)"
    by (simp add: get map_add_def split: option.splits)
  show "map_of fs tag = Some (to_chars v) \<Longrightarrow> tag \<notin> {8, 9} \<Longrightarrow> i64_ok v \<Longrightarrow> view_get_int msg tag d = v"
    by (simp add: view_get_int_def get Let_def from_chars_i64_def from_to_chars i64_ok_def map_add_def)
qed

text \<open>
  C6. Framing is independent of how TCP cuts the stream: when the bytes of any sequence of
  messages built by \<^verbatim>\<open>Builder::finalize\<close> arrive in any chunks, the loop of \<^verbatim>\<open>append\<close> and
  \<^verbatim>\<open>next\<close> calls ends after every chunk, delivers exactly these messages in order and leaves the
  buffer empty.
\<close>

theorem framer_delivers_stream:
  assumes "\<And>m. m \<in> set ms \<Longrightarrow> \<exists>cap body. length body \<le> body_cap \<and> finalize cap body = Inr m"
    and "concat cs = concat ms"
  shows "framer_feed cs [] = Some (ms, [])"
proof (rule framer_feed_stream)
  show fr: "list_all is_frame ms"
    unfolding list_all_iff using assms(1) finalize_frame by (fastforce simp: body_cap_def)
  show "[] @ concat cs = concat ms" using assms(2) by simp
  show "undelivered [] ms"
    using fr by (auto simp: undelivered_def is_frame_def split: list.splits)
qed

theorem framer_delivers_stream_witness:
  "\<exists>m. finalize 100 (field_seq [(35, ''0'')]) = Inr m \<and>
     framer_feed [take 3 m, drop 3 m @ take 17 m, drop 17 m] [] = Some ([m, m], [])"
proof -
  let ?b = "field_seq [(35, ''0'')]"
  obtain m where m: "m = frame_of ?b" by simp
  have f: "finalize 100 ?b = Inr m"
    by (simp add: m finalize_cases field_def to_chars_def nat_str.simps)
  have "length ?b \<le> body_cap" by (simp add: field_def to_chars_def nat_str.simps body_cap_def)
  then have a: "m' \<in> set [m, m] \<Longrightarrow> \<exists>cap body. length body \<le> body_cap \<and> finalize cap body = Inr m'" for m'
    using f by auto
  have "concat [take 3 m, drop 3 m @ take 17 m, drop 17 m] = concat [m, m]" by simp
  then have "framer_feed [take 3 m, drop 3 m @ take 17 m, drop 17 m] [] = Some ([m, m], [])"
    by (rule framer_delivers_stream [rotated]) (rule a)
  with f show ?thesis by blast
qed

text \<open>
  C21. Reading back what was built: for fields whose values contain no SOH, \<^verbatim>\<open>View::get\<close> on the
  finished message returns for each tag the value of its first field, the header and trailer
  fields included, and the empty view for a tag that is absent; \<^verbatim>\<open>get_int\<close> returns every 64-bit
  integer that was added.
\<close>

theorem builder_view_roundtrip:
  assumes "fields_ok fs" "builder_adds fs [] = Inr body" "finalize cap body = Inr msg"
  shows "(tag \<noteq> 10 \<longrightarrow> view_get msg tag =
      (case map_of ([(8, ''FIX.4.2''), (9, nat_str (length body))] @ fs) tag of None \<Rightarrow> [] | Some v \<Rightarrow> v)) \<and>
    (map_of fs tag = Some (to_chars v) \<longrightarrow> tag \<notin> {8, 9} \<longrightarrow> i64_ok v \<longrightarrow> view_get_int msg tag d = v)"
  using built_view(1) [OF assms, of tag] built_view(2) [OF assms, of tag v d] by blast

theorem builder_view_roundtrip_witness:
  "\<exists>body msg. builder_adds [(35, ''D''), (44, to_chars (- 10050))] [] = Inr body \<and>
     finalize 200 body = Inr msg \<and> view_get msg 35 = ''D'' \<and> view_get_int msg 44 0 = - 10050"
proof -
  let ?fs = "[(35, ''D''), (44, to_chars (- 10050))]"
  have l: "length (field_seq ?fs) \<le> 100"
    by (simp add: field_def to_chars_def nat_str.simps)
  have ok: "fields_ok ?fs" using to_chars_special(2) [of "- 10050"] by (simp add: fields_ok_def tag_ok_def SOH_def)
  have b: "builder_adds ?fs [] = Inr (field_seq ?fs)"
    using builder_adds_spec [OF ok, of "[]"] l by (simp add: body_cap_def)
  have "length (nat_str (length (field_seq ?fs))) \<le> 3" using l nat_str_length [of "length (field_seq ?fs)" 3] by simp
  then have m: "finalize 200 (field_seq ?fs) = Inr (frame_of (field_seq ?fs))"
    using l by (simp only: finalize_cases) simp
  show ?thesis
    using builder_view_roundtrip [OF ok b m, of 35] builder_view_roundtrip [OF ok b m, of 44 "- 10050" 0] b m
    by (simp add: i64_defs)
qed

text \<open>
  C29. The body array and the output buffer are the only limits: a sequence of \<^verbatim>\<open>add\<close> calls
  writes past \<^verbatim>\<open>body_[480]\<close> exactly when the fields are longer than 480 bytes together, and
  \<^verbatim>\<open>finalize\<close> writes past the output exactly when the message, 20 bytes and the digits of the
  body length longer than the body, does not fit.
\<close>

theorem builder_overflow_iff:
  assumes "fields_ok fs"
  shows "(builder_adds fs [] = (if length (field_seq fs) \<le> 480 then Inr (field_seq fs) else Inl Buffer_overflow)) \<and>
    ((\<exists>msg. finalize cap body = Inr msg) \<longleftrightarrow> 20 + length (nat_str (length body)) + length body \<le> cap) \<and>
    (finalize cap body = Inr msg \<longrightarrow> length msg = 20 + length (nat_str (length body)) + length body)"
  using builder_adds_spec [OF assms, of "[]"]
  by (auto simp: body_cap_def finalize_cases frame_of_length split: if_splits)

theorem builder_overflow_iff_witness:
  "builder_adds [(58, replicate 500 CHR ''x'')] [] = Inl Buffer_overflow"
proof -
  have "fields_ok [(58, replicate 500 CHR ''x'')]" by (simp add: fields_ok_def tag_ok_def SOH_def)
  from builder_overflow_iff [OF this] show ?thesis by (simp add: field_def del: builder_adds.simps)
qed

text \<open>
  Every finished message carries the FIX checksum: its last field is \<^verbatim>\<open>10=\<close> with three
  decimal digits whose value is the sum of all bytes before that field, modulo 256.
\<close>

lemma finalize_checksum:
  assumes "finalize cap body = Inr msg"
  shows "\<exists>pre ck. msg = pre @ field 10 ck \<and> length ck = 3 \<and> list_all is_digit ck \<and>
    digits_val ck = sum_list (map of_char pre) mod 256"
proof -
  let ?n = "field_seq [(8, ''FIX.4.2''), (9, nat_str (length body))] @ body"
  have "msg = ?n @ field 10 (ck_digits (checksum ?n))"
    using assms by (simp add: finalize_cases frame_of_def Let_def split: if_splits)
  then show ?thesis using ck_digits_digit ck_digits_val ck_digits_special(3) checksum_sum by metis
qed

text \<open>
  C37. Negative BodyLengths. Let the buffer begin with a header whose length field \<open>ds\<close> (any text) reads as the negative number \<open>l\<close>,
  let \<open>p\<close> be the position after the header, and let anything follow (in a buffer below \<open>2 ^ 62\<close> bytes). If \<open>l = - (p + 7)\<close>,
  \<^verbatim>\<open>next\<close> returns an empty message and consumes nothing, so the callers' loop never ends. If \<open>l\<close> is smaller, the end wraps
  around to a position no buffer reaches: nothing is ever delivered again, whatever else arrives. If \<open>l\<close> is larger, the message is cut
  off at \<open>p + 7 + l\<close>, before the end that the checksum field gives it.
\<close>

theorem framer_negative_length_loops:
  assumes "SOH \<notin> set v" "SOH \<notin> set ds" "from_chars_int ds 0 = l" "l < 0" "length buf < 2 ^ 62"
    and "buf = ''8='' @ v @ [SOH] @ ''9='' @ ds @ [SOH] @ rest" "p = 6 + length v + length ds"
  shows "(l = - (int p + 7) \<longrightarrow> framer_next buf = (Some [], buf) \<and> framer_drain buf = None) \<and>
    (l < - (int p + 7) \<longrightarrow> framer_next buf = (None, buf) \<and> framer_drain buf = Some ([], buf)) \<and>
    (- (int p + 7) < l \<longrightarrow> framer_next buf = (let e = nat (int p + 7 + l) in
       if length buf < e then (None, buf) else (Some (take e buf), drop e buf)) \<and> nat (int p + 7 + l) < p + 7)"
proof (intro conjI impI)
  note N = framer_next_header [OF assms(1,2,6,7), unfolded assms(3)]
  have l: "- (2 ^ 31) \<le> l" using from_chars_int_low [of ds] assms(3,4) by simp
  have p: "p < 2 ^ 62" using assms(5-7) by simp
  show loops: "framer_next buf = (Some [], buf)" if "l = - (int p + 7)"
    using that by (simp add: N substr_def)
  show "framer_drain buf = None" if "l = - (int p + 7)"
    by (rule framer_drain_spins [OF loops [OF that]])
  show stuck: "framer_next buf = (None, buf)" if "l < - (int p + 7)"
  proof -
    have "unat (of_int (int p + l + 7) :: u64) = nat (int p + l + 7 + 2 ^ 64)"
      by (rule unat_of_int_negative) (use that l in simp_all)
    then show ?thesis using assms(5) l by (simp add: N Let_def)
  qed
  show "framer_drain buf = Some ([], buf)" if "l < - (int p + 7)" by (rule framer_drain_none [OF stuck [OF that]])
  assume gt: "- (int p + 7) < l"
  have "unat (of_int (int p + l + 7) :: u64) = nat (int p + l + 7)"
    by (rule unat_of_int_small) (use gt assms(4) p in simp_all)
  then show "framer_next buf = (let e = nat (int p + 7 + l) in
       if length buf < e then (None, buf) else (Some (take e buf), drop e buf))"
    by (simp add: N substr_def Let_def algebra_simps)
  show "nat (int p + 7 + l) < p + 7" using assms(4) gt by linarith
qed

theorem framer_negative_length_loops_witness:
  "framer_drain (''8=FIX.4.2'' @ [SOH] @ ''9=-23'' @ [SOH] @ ''35=D'') = None"
  using framer_negative_length_loops [of "''FIX.4.2''" "''-23''" "-23" _ "''35=D''" 16, OF _ _ _ _ _ refl]
  by (simp add: SOH_def from_chars_int_def from_chars_def is_digit_def digits_val_def digit_val_def)

text \<open>
  The packed binary order has 30 bytes, decoding an encoded order gives the order back, and
  every 30 bytes are the encoding of what they decode to.
\<close>

lemma bin_order_roundtrip:
  assumes "i64_ok (bo_px b)" "i64_ok (bo_qty b)" and "length bs = 30"
  shows "(length (bin_encode b) = 30) \<and>
    (bin_decode (bin_encode b) = b) \<and>
    (bin_encode (bin_decode bs) = bs)"
proof (intro conjI impI)
  show "length (bin_encode b) = 30" by (simp add: bin_encode_def)
  show "bin_decode (bin_encode b) = b"
    using assms(1,2) i64_bits_less [of "bo_px b"] i64_bits_less [of "bo_qty b"]
      unat_less_pow [of "bo_msg_type b"] unat_less_pow [of "bo_clordid b"] unat_less_pow [of "bo_sym_id b"]
      unat_less_pow [of "bo_side b"]
    by (simp add: bin_decode_def bin_encode_def of_le_le_bytes bits_i64_bits)
  have split: "bs = take 1 bs @ take 8 (drop 1 bs) @ take 4 (drop 9 bs) @ take 1 (drop 13 bs) @
      take 8 (drop 14 bs) @ take 8 (drop 22 bs)"
    using take_drop_chain [OF assms(3)] by (rule sym)
  have "bin_encode (bin_decode bs) = take 1 bs @ take 8 (drop 1 bs) @ take 4 (drop 9 bs) @ take 1 (drop 13 bs) @
      take 8 (drop 14 bs) @ take 8 (drop 22 bs)"
    using assms(3) le_bytes_chunk [of 0 1 bs] le_bytes_chunk [of 1 8 bs] le_bytes_chunk [of 9 4 bs]
      le_bytes_chunk [of 13 1 bs] le_bytes_chunk [of 14 8 bs] le_bytes_chunk [of 22 8 bs]
      of_le_chunk_less [of 1 0 bs] of_le_chunk_less [of 8 1 bs] of_le_chunk_less [of 4 9 bs]
      of_le_chunk_less [of 1 13 bs] of_le_chunk_less [of 8 14 bs] of_le_chunk_less [of 8 22 bs]
    by (simp add: bin_encode_def bin_decode_def i64_bits_i64 unat_of_nat del: le_bytes.simps)
  with split show "bin_encode (bin_decode bs) = bs" by simp
qed

end
