(* ===== verification/Platform.thy ===== *)
theory Platform
  imports Cpp_Strings
begin

text \<open>
  \<^verbatim>\<open>include/net.hpp\<close>, \<^verbatim>\<open>include/affinity.hpp\<close> and the core set-up that \<^verbatim>\<open>engine_main.cpp\<close> and
  \<^verbatim>\<open>exchange_main.cpp\<close> share. What the kernel answers is an argument: the results of the
  successive \<^verbatim>\<open>send\<close> calls, whether a system call succeeds, which affinity mask a request ends up
  with. The operations return what they did as a list of calls.
\<close>

section \<open>Command line integers\<close>

text \<open>\<^verbatim>\<open>std::atoi\<close>: white space, a sign, digits; 0 when there is none, undefined out of range.\<close>

definition is_space :: "char \<Rightarrow> bool" where
  "is_space c \<longleftrightarrow> c = CHR '' '' \<or> (9 \<le> (of_char c :: nat) \<and> (of_char c :: nat) \<le> 13)"

definition atoi :: "string \<Rightarrow> int cpp" where
  "atoi str =
     (let s = dropWhile is_space str;
          neg = (s \<noteq> [] \<and> hd s = CHR ''-'');
          sgnd = (s \<noteq> [] \<and> (hd s = CHR ''-'' \<or> hd s = CHR ''+''));
          ds = takeWhile is_digit (if sgnd then tl s else s);
          v = (if neg then - int (digits_val ds) else int (digits_val ds))
      in if - (2 ^ 31) \<le> v \<and> v < 2 ^ 31 then Inr v else Inl Signed_overflow)"

section \<open>Sending\<close>

datatype send_res = Sent nat | Eintr | Eagain | Send_error

text \<open>
  Result \<open>None\<close>: the loop is still running when the given kernel answers are used up. The second
  component is the bytes handed to the kernel, in order.
\<close>

fun send_loop :: "send_res list \<Rightarrow> string \<Rightarrow> nat \<Rightarrow> bool option \<times> string" where
  "send_loop [] p sent = (if sent < length p then None else Some True, [])"
| "send_loop (r # rs) p sent =
     (if sent < length p then
        (case r of
           Sent k \<Rightarrow> (if 0 < k then (let (b, out) = send_loop rs p (sent + k) in (b, take k (drop sent p) @ out))
                      else (Some False, []))
         | Eintr \<Rightarrow> send_loop rs p sent
         | Eagain \<Rightarrow> send_loop rs p sent
         | Send_error \<Rightarrow> (Some False, []))
      else (Some True, []))"

definition send_all :: "send_res list \<Rightarrow> string \<Rightarrow> bool option \<times> string" where
  "send_all rs p = send_loop rs p 0"

section \<open>Sockets\<close>

text \<open>
  The system calls the program makes on sockets, with their arguments and the answer of the kernel.
  Options and file status flags are set best-effort: the program ignores the answer.
\<close>

datatype sockopt = SO_REUSEADDR | SO_RCVTIMEO | SO_BUSY_POLL | TCP_NODELAY

datatype ncall = CSocket int | CSetopt int sockopt int | CGetfl int u32 | CSetfl int u32
  | CConnect int string u16 bool | CBind int string u16 bool | CListen int int bool
  | CAccept int int | CShutdown int | CClose int

definition set_nodelay :: "int \<Rightarrow> ncall list" where
  "set_nodelay fd = [CSetopt fd TCP_NODELAY 1]"

definition try_busy_poll :: "int \<Rightarrow> ncall list" where
  "try_busy_poll fd = [CSetopt fd SO_BUSY_POLL 50]"

definition O_NONBLOCK :: u32 where
  "O_NONBLOCK = 0x800"

text \<open>\<open>fl\<close> is what \<^verbatim>\<open>F_GETFL\<close> returns.\<close>

definition set_nonblocking :: "u32 \<Rightarrow> int \<Rightarrow> ncall list" where
  "set_nonblocking fl fd = [CGetfl fd fl, CSetfl fd (fl OR O_NONBLOCK)]"

definition connect_tcp :: "int \<Rightarrow> bool \<Rightarrow> string \<Rightarrow> u16 \<Rightarrow> int \<times> ncall list" where
  "connect_tcp fd connected ip port =
     (if fd < 0 then (-1, [CSocket fd])
      else if \<not> connected then (-1, [CSocket fd, CConnect fd ip port False, CClose fd])
      else (fd, [CSocket fd, CConnect fd ip port True] @ set_nodelay fd))"

definition listen_tcp :: "int \<Rightarrow> bool \<Rightarrow> bool \<Rightarrow> string \<Rightarrow> u16 \<Rightarrow> int \<times> ncall list" where
  "listen_tcp fd bound listening ip port =
     (if fd < 0 then (-1, [CSocket fd])
      else if \<not> bound then (-1, [CSocket fd, CSetopt fd SO_REUSEADDR 1, CBind fd ip port False, CClose fd])
      else if \<not> listening then
        (-1, [CSocket fd, CSetopt fd SO_REUSEADDR 1, CBind fd ip port True, CListen fd 4 False, CClose fd])
      else (fd, [CSocket fd, CSetopt fd SO_REUSEADDR 1, CBind fd ip port True, CListen fd 4 True]))"

text \<open>The descriptors that are open after a sequence of calls.\<close>

definition fd_call :: "ncall \<Rightarrow> int set \<Rightarrow> int set" where
  "fd_call c S =
     (case c of
        CSocket fd \<Rightarrow> if 0 \<le> fd then insert fd S else S
      | CAccept lfd fd \<Rightarrow> if 0 \<le> fd then insert fd S else S
      | CClose fd \<Rightarrow> S - {fd}
      | _ \<Rightarrow> S)"

definition open_fds :: "ncall list \<Rightarrow> int set \<Rightarrow> int set" where
  "open_fds cs S = fold fd_call cs S"

section \<open>Time stamps\<close>

record tm =
  tm_year :: int
  tm_mon :: int
  tm_mday :: int
  tm_hour :: int
  tm_min :: int
  tm_sec :: int

definition pad_int :: "nat \<Rightarrow> int \<Rightarrow> string" where
  "pad_int w v =
     (let ds = nat_str (nat \<bar>v\<bar>)
      in if v < 0 then CHR ''-'' # replicate (w - 1 - length ds) CHR ''0'' @ ds
         else replicate (w - length ds) CHR ''0'' @ ds)"

text \<open>
  \<^verbatim>\<open>utc_timestamp\<close> writes at most 23 characters and returns the full length, which the callers
  use as the length of a view of the buffer.
\<close>

definition utc_format :: "tm \<Rightarrow> int \<Rightarrow> string" where
  "utc_format g ms = pad_int 4 (tm_year g + 1900) @ pad_int 2 (tm_mon g + 1) @ pad_int 2 (tm_mday g) @ ''-'' @
     pad_int 2 (tm_hour g) @ '':'' @ pad_int 2 (tm_min g) @ '':'' @ pad_int 2 (tm_sec g) @ ''.'' @ pad_int 3 ms"

definition utc_timestamp :: "tm \<Rightarrow> int \<Rightarrow> string cpp" where
  "utc_timestamp g tv_nsec =
     (let s = utc_format g (cdiv tv_nsec 1000000)
      in if length s < 24 then Inr s else Inl Out_of_bounds)"

section \<open>CPU affinity and real-time priority\<close>

record thread_attr =
  th_mask :: "nat set"
  th_fifo :: "int option"

text \<open>
  The kernel: the mask it installs for a request (none if it refuses), whether the mask can be
  read, and whether a priority is granted.
\<close>

record os =
  os_setaff :: "nat set \<Rightarrow> nat set \<Rightarrow> nat set option"
  os_getaff :: bool
  os_fifo :: "int \<Rightarrow> bool"

text \<open>\<^verbatim>\<open>CPU_SET\<close> and \<^verbatim>\<open>CPU_ISSET\<close> ignore an index outside the 1024 bits of the set.\<close>

definition cpu_bit :: "int \<Rightarrow> nat set" where
  "cpu_bit cpu = (if 0 \<le> cpu \<and> cpu < 1024 then {nat cpu} else {})"

definition pin_to_cpu :: "os \<Rightarrow> int \<Rightarrow> thread_attr \<Rightarrow> bool \<times> thread_attr" where
  "pin_to_cpu k cpu th =
     (case os_setaff k (cpu_bit cpu) (th_mask th) of
        None \<Rightarrow> (False, th)
      | Some m \<Rightarrow> (True, th\<lparr>th_mask := m\<rparr>))"

definition affinity_is :: "os \<Rightarrow> int \<Rightarrow> thread_attr \<Rightarrow> bool" where
  "affinity_is k cpu th \<longleftrightarrow>
     os_getaff k \<and> cpu_bit cpu \<inter> th_mask th \<noteq> {} \<and> card (th_mask th) = 1"

definition set_realtime :: "os \<Rightarrow> int \<Rightarrow> thread_attr \<Rightarrow> bool \<times> thread_attr" where
  "set_realtime k prio th = (if os_fifo k prio then (True, th\<lparr>th_fifo := Some prio\<rparr>) else (False, th))"

datatype core_log = Fifo_denied string | Pin_failed string int

definition setup_core :: "os \<Rightarrow> string \<Rightarrow> bool \<Rightarrow> bool \<Rightarrow> int \<Rightarrow> int \<Rightarrow> thread_attr \<Rightarrow> thread_attr \<times> core_log list" where
  "setup_core k name pin rt rt_prio cpu th =
     (if \<not> pin then (th, [])
      else let (pinned, th1) = pin_to_cpu k cpu th in
        if pinned \<and> affinity_is k cpu th1 then
          (if rt then (let (granted, th2) = set_realtime k rt_prio th1
                       in (th2, if granted then [] else [Fifo_denied name]))
           else (th1, []))
        else (th1, [Pin_failed name cpu]))"

record aff_guard =
  ag_saved :: "nat set"
  ag_ok :: bool

definition guard_new :: "os \<Rightarrow> thread_attr \<Rightarrow> aff_guard" where
  "guard_new k th = (if os_getaff k then \<lparr>ag_saved = th_mask th, ag_ok = True\<rparr> else \<lparr>ag_saved = {}, ag_ok = False\<rparr>)"

definition guard_drop :: "os \<Rightarrow> aff_guard \<Rightarrow> thread_attr \<Rightarrow> thread_attr" where
  "guard_drop k g th =
     (if ag_ok g then (case os_setaff k (ag_saved g) (th_mask th) of None \<Rightarrow> th | Some m \<Rightarrow> th\<lparr>th_mask := m\<rparr>) else th)"

section \<open>Facts\<close>

definition accepted :: "send_res list \<Rightarrow> nat" where
  "accepted rs = sum_list (map (\<lambda>r. case r of Sent k \<Rightarrow> k | _ \<Rightarrow> 0) rs)"

lemma send_loop_prefix:
  "sent \<le> length p \<Longrightarrow> prefix (snd (send_loop rs p sent)) (drop sent p) \<and>
    (fst (send_loop rs p sent) = Some True \<longrightarrow> snd (send_loop rs p sent) = drop sent p) \<and>
    (fst (send_loop rs p sent) = Some False \<longrightarrow> Send_error \<in> set rs \<or> Sent 0 \<in> set rs)"
proof (induction rs p sent rule: send_loop.induct)
  case (2 r rs p sent)
  show ?case
  proof (cases "sent < length p")
    case True
    show ?thesis
    proof (cases r)
      case (Sent k)
      show ?thesis
      proof (cases "sent + k \<le> length p")
        case le: True
        have "drop sent p = take k (drop sent p) @ drop (sent + k) p"
          by (metis add.commute append_take_drop_id drop_drop)
        then have "prefix (take k (drop sent p) @ x) (drop sent p) \<longleftrightarrow> prefix x (drop (sent + k) p)"
          "take k (drop sent p) @ x = drop sent p \<longleftrightarrow> x = drop (sent + k) p" for x
          by (metis same_prefix_prefix, metis same_append_eq)
        then show ?thesis
          using "2.IH"(1) [OF True Sent] le True Sent
          by (cases "0 < k") (auto simp: case_prod_unfold Let_def)
      next
        case False
        then have "take k (drop sent p) = drop sent p" by simp
        moreover have "send_loop rs p (sent + k) = (Some True, [])" using False by (cases rs) auto
        ultimately show ?thesis using True Sent False by (simp add: case_prod_unfold Let_def)
      qed
    qed (use True "2.IH" "2.prems" in auto)
  next
    case False
    then show ?thesis using "2.prems" by simp
  qed
qed auto

lemma send_loop_returns:
  assumes "Send_error \<notin> set rs" "Sent 0 \<notin> set rs" "length p \<le> sent + accepted rs"
  shows "fst (send_loop rs p sent) = Some True"
  using assms
proof (induction rs arbitrary: sent)
  case (Cons r rs)
  show ?case using Cons.prems Cons.IH [of "sent + (case r of Sent k \<Rightarrow> k | _ \<Rightarrow> 0)"]
    by (cases r) (auto simp: case_prod_unfold Let_def accepted_def)
qed (simp add: accepted_def)

lemma pad_int_digits:
  assumes "0 \<le> v"
  shows "list_all is_digit (pad_int w v)"
  using assms nat_str_digits [of "nat v"] by (simp add: pad_int_def Let_def) (simp add: list_all_iff is_digit_def)

lemma pad_int_length:
  assumes "0 \<le> v" "v < 10 ^ w" "0 < w"
  shows "length (pad_int w v) = w"
  using assms nat_str_length [of "nat v" w] by (simp add: pad_int_def Let_def nat_less_iff)

definition tm_ok :: "tm \<Rightarrow> bool" where
  "tm_ok g \<longleftrightarrow> - 1900 \<le> tm_year g \<and> tm_year g \<le> 8099 \<and> 0 \<le> tm_mon g \<and> tm_mon g \<le> 11 \<and>
     1 \<le> tm_mday g \<and> tm_mday g \<le> 31 \<and> 0 \<le> tm_hour g \<and> tm_hour g \<le> 23 \<and>
     0 \<le> tm_min g \<and> tm_min g \<le> 59 \<and> 0 \<le> tm_sec g \<and> tm_sec g \<le> 60"

lemma digits_no_soh: "list_all is_digit ds \<Longrightarrow> CHR 0x01 \<notin> set ds"
  using is_digit_special(3) by (auto simp: list_all_iff)

lemma utc_timestamp_ok:
  assumes "tm_ok g" "0 \<le> ns" "ns < 10 ^ 9"
  shows "\<exists>s. utc_timestamp g ns = Inr s \<and> length s = 21 \<and> CHR 0x01 \<notin> set s"
proof -
  have ms: "0 \<le> cdiv ns 1000000" "cdiv ns 1000000 < 1000" using assms(2,3) by (simp_all add: cdiv_nonneg)
  have len: "length (utc_format g (cdiv ns 1000000)) = 21"
    using assms(1) ms by (simp add: utc_format_def tm_ok_def pad_int_length)
  have "CHR 0x01 \<notin> set (utc_format g (cdiv ns 1000000))"
    using assms(1) ms digits_no_soh [OF pad_int_digits] by (simp add: utc_format_def tm_ok_def)
  then show ?thesis using len by (simp add: utc_timestamp_def Let_def)
qed

section \<open>Properties\<close>

text \<open>
  C34. \<^verbatim>\<open>send_all\<close> hands the kernel a prefix of the buffer, byte for byte and in order, across
  partial writes, \<^verbatim>\<open>EINTR\<close> and \<^verbatim>\<open>EAGAIN\<close>; when it returns true the whole buffer was handed over,
  it returns false only after a hard error, and it does return true once the kernel has accepted
  enough bytes without one.
\<close>

theorem send_all_exact:
  shows "(prefix (snd (send_all rs p)) p) \<and>
    (fst (send_all rs p) = Some True \<longrightarrow> snd (send_all rs p) = p) \<and>
    (fst (send_all rs p) = Some False \<longrightarrow> Send_error \<in> set rs \<or> Sent 0 \<in> set rs) \<and>
    (Send_error \<notin> set rs \<longrightarrow> Sent 0 \<notin> set rs \<longrightarrow> length p \<le> accepted rs \<longrightarrow> fst (send_all rs p) = Some True)"
  using send_loop_prefix [of 0 p rs] send_loop_returns [of rs p 0] by (auto simp: send_all_def)

theorem send_all_exact_witness:
  "snd (send_all [Sent 2, Eagain, Eintr, Sent 3] ''hello'') = ''hello''"
proof -
  have "fst (send_all [Sent 2, Eagain, Eintr, Sent 3] ''hello'') = Some True"
    using send_all_exact [of "[Sent 2, Eagain, Eintr, Sent 3]" "''hello''"] by (simp add: accepted_def)
  then show ?thesis using send_all_exact [of "[Sent 2, Eagain, Eintr, Sent 3]" "''hello''"] by blast
qed

text \<open>
  No descriptor leaks: when \<^verbatim>\<open>connect_tcp\<close> or \<^verbatim>\<open>listen_tcp\<close> fails, at whatever call, the
  socket it opened is closed again; when it succeeds exactly the returned descriptor is open.
\<close>

lemma open_fds_simps [simp]:
  "open_fds [] S = S" "open_fds (c # cs) S = open_fds cs (fd_call c S)" "open_fds (cs @ cs') S = open_fds cs' (open_fds cs S)"
  by (simp_all add: open_fds_def)

lemma set_nodelay_fds [simp]: "open_fds (set_nodelay fd) S = S" "open_fds (try_busy_poll fd) S = S"
  "open_fds (set_nonblocking fl fd) S = S"
  by (simp_all add: set_nodelay_def try_busy_poll_def set_nonblocking_def fd_call_def)

lemma sockets_no_leak:
  assumes "fd \<notin> S"
  shows "open_fds (snd (connect_tcp fd c ip port)) S =
      (if fst (connect_tcp fd c ip port) = -1 then S else insert (fst (connect_tcp fd c ip port)) S)"
    and "open_fds (snd (listen_tcp fd b l ip port)) S =
      (if fst (listen_tcp fd b l ip port) = -1 then S else insert (fst (listen_tcp fd b l ip port)) S)"
    and "fst (connect_tcp fd c ip port) \<noteq> -1 \<longleftrightarrow> 0 \<le> fd \<and> c"
    and "fst (listen_tcp fd b l ip port) \<noteq> -1 \<longleftrightarrow> 0 \<le> fd \<and> b \<and> l"
    and "fst (connect_tcp fd c ip port) < 0 \<longleftrightarrow> fst (connect_tcp fd c ip port) = -1"
    and "fst (listen_tcp fd b l ip port) < 0 \<longleftrightarrow> fst (listen_tcp fd b l ip port) = -1"
  using assms by (auto simp: connect_tcp_def listen_tcp_def fd_call_def)

text \<open>
  C26. A thread goes real-time only when it is confined to its core: whatever the kernel does with
  the affinity request, after \<^verbatim>\<open>setup_core\<close> a thread that was not real-time has \<^verbatim>\<open>SCHED_FIFO\<close> only if
  pinning and real-time were asked for and its mask is exactly the requested core; without
  \<^verbatim>\<open>--pin=on\<close> nothing changes at all.
\<close>

theorem setup_core_safe:
  assumes "th_fifo th = None" and "th' = fst (setup_core k name pin rt prio cpu th)"
  shows "(th_fifo th' \<noteq> None \<longrightarrow> pin \<and> rt \<and> th_fifo th' = Some prio \<and> 0 \<le> cpu \<and> th_mask th' = {nat cpu}) \<and>
    (\<not> pin \<longrightarrow> th' = th)"
proof (rule conjI; rule impI)
  show "\<not> pin \<Longrightarrow> th' = th" by (simp add: assms(2) setup_core_def)
  have one: "th_mask t = {nat cpu} \<and> 0 \<le> cpu" if "affinity_is k cpu t" for t
    using that by (auto simp: affinity_is_def cpu_bit_def card_1_singleton_iff split: if_splits)
  have keep: "th_fifo (snd (pin_to_cpu k cpu th)) = None"
    using assms(1) by (simp add: pin_to_cpu_def split: option.splits)
  show "th_fifo th' \<noteq> None \<Longrightarrow> pin \<and> rt \<and> th_fifo th' = Some prio \<and> 0 \<le> cpu \<and> th_mask th' = {nat cpu}"
    using assms(1) keep one [of "snd (pin_to_cpu k cpu th)"]
    by (auto simp: assms(2) setup_core_def set_realtime_def Let_def case_prod_unfold split: if_splits)
qed

theorem setup_core_safe_witness:
  "\<exists>th'. th' = fst (setup_core \<lparr>os_setaff = (\<lambda>m _. Some m), os_getaff = True, os_fifo = (\<lambda>_. True)\<rparr>
      ''gateway'' True True 80 12 \<lparr>th_mask = {0..15}, th_fifo = None\<rparr>) \<and>
    th_fifo th' = Some 80 \<and> th_mask th' = {12}"
proof -
  let ?k = "\<lparr>os_setaff = (\<lambda>m _. Some m), os_getaff = True, os_fifo = (\<lambda>_. True)\<rparr>"
  let ?t = "fst (setup_core ?k ''gateway'' True True 80 12 \<lparr>th_mask = {0..15}, th_fifo = None\<rparr>)"
  have "th_fifo ?t \<noteq> None"
    by (simp add: setup_core_def pin_to_cpu_def affinity_is_def cpu_bit_def set_realtime_def Let_def)
  then show ?thesis
    using setup_core_safe [where th = "\<lparr>th_mask = {0..15}, th_fifo = None\<rparr>" and k = ?k and name = "''gateway''" and pin = True
      and rt = True and prio = 80 and cpu = 12, OF _ refl] by simp
qed

end
