(* ===== verification/Messages.thy ===== *)
theory Messages
  imports Trade_Prelude
begin

text \<open>
  \<^verbatim>\<open>include/types.hpp\<close>, \<^verbatim>\<open>include/config.hpp\<close>, \<^verbatim>\<open>include/messages.hpp\<close> and
  \<^verbatim>\<open>include/strategy.hpp\<close>: the strong integer types, the compile-time configuration, the payloads
  of the three rings and the trading rule in its two dispatch flavours.
\<close>

section \<open>Strong integers\<close>

text \<open>\<^verbatim>\<open>template <class Tag> struct Strong\<close>: the tag is a phantom type argument.\<close>

datatype 'tag strong = Strong (raw: int)

datatype price_tag = PriceTag
datatype qty_tag = QtyTag

type_synonym price = "price_tag strong"
type_synonym qty = "qty_tag strong"

definition strong_add :: "'tag strong \<Rightarrow> 'tag strong \<Rightarrow> 'tag strong cpp" where
  "strong_add a b = cpp_bind (i64_chk (raw a + raw b)) (\<lambda>x. Inr (Strong x))"

definition strong_sub :: "'tag strong \<Rightarrow> 'tag strong \<Rightarrow> 'tag strong cpp" where
  "strong_sub a b = cpp_bind (i64_chk (raw a - raw b)) (\<lambda>x. Inr (Strong x))"

text \<open>The defaulted three-way comparison.\<close>

instantiation strong :: (type) linorder
begin

definition less_eq_strong :: "'a strong \<Rightarrow> 'a strong \<Rightarrow> bool" where
  "less_eq_strong a b \<longleftrightarrow> raw a \<le> raw b"

definition less_strong :: "'a strong \<Rightarrow> 'a strong \<Rightarrow> bool" where
  "less_strong a b \<longleftrightarrow> raw a < raw b"

instance
  by standard (auto simp: less_eq_strong_def less_strong_def strong.expand)

end

definition price_scale :: i64 where
  "price_scale = 100"

definition px :: "i64 \<Rightarrow> i64 \<Rightarrow> price cpp" where
  "px whole paise =
     cpp_bind (i64_chk (whole * price_scale)) (\<lambda>w.
     cpp_bind (i64_chk (w + paise)) (\<lambda>x. Inr (Strong x)))"

datatype side = Buy | Sell

definition side_code :: "side \<Rightarrow> u8" where
  "side_code s = (case s of Buy \<Rightarrow> 1 | Sell \<Rightarrow> 2)"

section \<open>Configuration\<close>

definition kSymbols :: "string list" where
  "kSymbols = [''NIFTY'', ''BANKNIFTY'', ''RELIANCE'', ''TCS'', ''INFY'', ''HDFCBANK'']"

definition kNumSymbols :: u32 where
  "kNumSymbols = of_nat (length kSymbols)"

definition ring_capacity :: u64 where
  "ring_capacity = push_bit 12 1"

definition pending_capacity :: u64 where
  "pending_capacity = push_bit 12 1"

definition kMetricsPort :: u16 where "kMetricsPort = 8000"
definition kExchangePort :: u16 where "kExchangePort = 9001"

record engine_limits =
  warmup_orders :: u64
  base_price :: i64
  order_qty :: i64

definition kLimits :: engine_limits where
  "kLimits = \<lparr>warmup_orders = 500, base_price = 100 * 100, order_qty = 50 * 100\<rparr>"

section \<open>Ring payloads\<close>

datatype log_type = OrderSent | Fill | Info

definition log_type_code :: "log_type \<Rightarrow> u8" where
  "log_type_code t = (case t of OrderSent \<Rightarrow> 1 | Fill \<Rightarrow> 2 | Info \<Rightarrow> 3)"

record tick =
  t_t0_tsc :: u64
  t_sym_id :: u32
  t_seq :: u32
  t_bid :: i64
  t_ask :: i64

text \<open>\<^verbatim>\<open>fix\<close> holds the bytes copied into the array so far; its size is \<open>order_fix_cap\<close>.\<close>

record order =
  o_t0_tsc :: u64
  o_clordid :: u64
  o_sym_id :: u32
  o_side :: side
  o_px :: i64
  o_qty :: i64
  o_fix_len :: u32
  o_fix :: string

definition order_fix_cap :: nat where
  "order_fix_cap = 120"

record log_event =
  le_tsc :: u64
  le_type :: log_type
  le_len :: u8
  le_msg :: string

definition log_msg_cap :: nat where
  "log_msg_cap = 54"

record order_ctx =
  ctx_clordid :: u64
  ctx_t0_tsc :: u64
  ctx_fix_buf :: string
  ctx_fix_len :: u32

definition ctx_fix_cap :: nat where
  "ctx_fix_cap = 112"

section \<open>The trading rule\<close>

definition decide :: "tick \<Rightarrow> u64 \<Rightarrow> order cpp" where
  "decide t clordid =
     (let side = (if clordid AND 1 \<noteq> 0 then Buy else Sell)
      in cpp_bind (i64_chk (t_bid t + t_ask t)) (\<lambda>s.
         let mid = cdiv s 2
         in Inr \<lparr>o_t0_tsc = t_t0_tsc t, o_clordid = clordid, o_sym_id = t_sym_id t, o_side = side,
             o_px = mid, o_qty = order_qty kLimits, o_fix_len = 0, o_fix = []\<rparr>))"

text \<open>
  \<^verbatim>\<open>StrategyCRTP<Derived>::on_tick\<close> calls the rule of its template argument; \<^verbatim>\<open>IStrategy\<close> is an
  object whose table of virtual functions has one entry.
\<close>

definition crtp_on_tick :: "(tick \<Rightarrow> u64 \<Rightarrow> order cpp) \<Rightarrow> tick \<Rightarrow> u64 \<Rightarrow> order cpp" where
  "crtp_on_tick derived_rule t clordid = derived_rule t clordid"

definition AltStrategy_rule :: "tick \<Rightarrow> u64 \<Rightarrow> order cpp" where
  "AltStrategy_rule t clordid = decide t clordid"

record istrategy =
  vt_on_tick :: "tick \<Rightarrow> u64 \<Rightarrow> order cpp"

definition AltStrategyV :: istrategy where
  "AltStrategyV = \<lparr>vt_on_tick = (\<lambda>t clordid. decide t clordid)\<rparr>"

definition virtual_on_tick :: "istrategy \<Rightarrow> tick \<Rightarrow> u64 \<Rightarrow> order cpp" where
  "virtual_on_tick obj t clordid = vt_on_tick obj t clordid"

section \<open>Properties\<close>

lemma cdiv2_between: "a \<le> b \<Longrightarrow> a \<le> cdiv (a + b) 2 \<and> cdiv (a + b) 2 \<le> b"
  by (auto simp: cdiv_def sgn_if abs_if)

lemma odd_and_one: "(w :: u64) AND 1 \<noteq> 0 \<longleftrightarrow> odd (unat w)"
  using unat_and_mask [of 1 w] by (simp add: word_unat_eq_iff odd_iff_mod_2_eq_one)

text \<open>
  The rule quotes inside the tick's spread: when bid and ask are in order and their sum does
  not overflow, the order's price lies between them, off by at most half a tick from the exact
  middle; it keeps the tick's time stamp and symbol, has the fixed quantity, and buys on odd
  order ids and sells on even ones. A sum that overflows is the only fault.
\<close>

lemma decide_quotes_inside:
  assumes "t_bid t \<le> t_ask t"
  shows "(i64_ok (t_bid t + t_ask t) \<longrightarrow> (\<exists>od. decide t cid = Inr od \<and>
      t_bid t \<le> o_px od \<and> o_px od \<le> t_ask t \<and> \<bar>2 * o_px od - (t_bid t + t_ask t)\<bar> \<le> 1 \<and>
      o_t0_tsc od = t_t0_tsc t \<and> o_sym_id od = t_sym_id t \<and> o_clordid od = cid \<and> o_qty od = 5000 \<and>
      (o_side od = Buy \<longleftrightarrow> odd (unat cid)))) \<and>
    (\<not> i64_ok (t_bid t + t_ask t) \<longrightarrow> decide t cid = Inl Signed_overflow)"
proof (rule conjI; rule impI)
  have half: "\<bar>2 * cdiv x 2 - x\<bar> \<le> 1" for x
    by (simp add: cdiv_def sgn_if abs_if) presburger
  show "i64_ok (t_bid t + t_ask t) \<Longrightarrow> \<exists>od. decide t cid = Inr od \<and>
      t_bid t \<le> o_px od \<and> o_px od \<le> t_ask t \<and> \<bar>2 * o_px od - (t_bid t + t_ask t)\<bar> \<le> 1 \<and>
      o_t0_tsc od = t_t0_tsc t \<and> o_sym_id od = t_sym_id t \<and> o_clordid od = cid \<and> o_qty od = 5000 \<and>
      (o_side od = Buy \<longleftrightarrow> odd (unat cid))"
    using cdiv2_between [OF assms] half [of "t_bid t + t_ask t"] odd_and_one [of cid]
    by (simp add: decide_def Let_def kLimits_def)
  show "\<not> i64_ok (t_bid t + t_ask t) \<Longrightarrow> decide t cid = Inl Signed_overflow"
    by (simp add: decide_def Let_def i64_chk_def)
qed

text \<open>
  Prices built from rupees and paise are ordered as the pairs are, and differ by the scaled
  difference: the scaled integer represents the decimal exactly.
\<close>

lemma px_order:
  assumes "px w p = Inr a" "px w' p' = Inr b" and "0 \<le> p" "p < 100" "0 \<le> p'" "p' < 100"
  shows "raw a = 100 * w + p" and "a < b \<longleftrightarrow> w < w' \<or> w = w' \<and> p < p'" and "a = b \<longleftrightarrow> w = w' \<and> p = p'"
    and "strong_sub a b = Inr d \<Longrightarrow> raw d = 100 * (w - w') + (p - p')"
proof -
  have a: "a = Strong (100 * w + p)" and b: "b = Strong (100 * w' + p')"
    using assms(1,2) by (auto simp: px_def price_scale_def cpp_bind_eq_Inr_iff i64_chk_def split: if_splits)
  show "raw a = 100 * w + p" by (simp add: a)
  have lt: "100 * x + q < 100 * y + r \<longleftrightarrow> x < y \<or> x = y \<and> q < r"
    if "0 \<le> q" "q < 100" "0 \<le> r" "r < 100" for x y q r :: int using that by auto
  show "a < b \<longleftrightarrow> w < w' \<or> w = w' \<and> p < p'" using lt assms(3-6) by (simp add: a b less_strong_def)
  have "w = w' \<and> p = p'" if "100 * w + p = 100 * w' + p'"
    using that lt [of p p' w w'] lt [of p' p w' w] assms(3-6) by linarith
  then show "a = b \<longleftrightarrow> w = w' \<and> p = p'" by (auto simp: a b)
  show "strong_sub a b = Inr d \<Longrightarrow> raw d = 100 * (w - w') + (p - p')"
    by (auto simp: a b strong_sub_def cpp_bind_eq_Inr_iff i64_chk_def split: if_splits)
qed

end
