(* ===== verification/Engine.thy ===== *)
theory Engine
  imports Spsc Hist Pool Tsc Fix Platform Messages
begin

text \<open>
  \<^verbatim>\<open>src/engine_main.cpp\<close>: the configuration, the hot state and the bodies of the market-data,
  strategy, gateway and logger loops. A loop body is a function on the engine state that runs up
  to the next access another thread can observe: one load of the flag or one ring operation, with
  the local code around it. Counter readings and the kernel's answers are arguments. The ring
  operations are the sequential ones of \<open>Spsc\<close>, which whole concurrent calls agree with.
\<close>

section \<open>Configuration\<close>

record cfg =
  dispatch_crtp :: bool
  use_pool :: bool
  huge :: bool
  pin :: bool
  rt :: bool
  rate :: u32
  md_cpu :: int
  strat_cpu :: int
  gw_cpu :: int
  rt_prio :: int
  exch_ip :: string
  log_path :: string

definition cfg_default :: cfg where
  "cfg_default = \<lparr>dispatch_crtp = True, use_pool = True, huge = True, pin = False, rt = False, rate = 1000,
     md_cpu = 8, strat_cpu = 10, gw_cpu = 12, rt_prio = 80, exch_ip = ''127.0.0.1'',
     log_path = ''/tmp/trading-engine.log''\<rparr>"

definition parse_arg :: "string \<Rightarrow> cfg \<Rightarrow> cfg cpp" where
  "parse_arg a c =
     (if a = ''--dispatch=virtual'' then Inr (c\<lparr>dispatch_crtp := False\<rparr>)
      else if a = ''--dispatch=crtp'' then Inr (c\<lparr>dispatch_crtp := True\<rparr>)
      else if a = ''--alloc=malloc'' then Inr (c\<lparr>use_pool := False\<rparr>)
      else if a = ''--alloc=pool'' then Inr (c\<lparr>use_pool := True\<rparr>)
      else if a = ''--huge=off'' then Inr (c\<lparr>huge := False\<rparr>)
      else if a = ''--huge=on'' then Inr (c\<lparr>huge := True\<rparr>)
      else if a = ''--pin=on'' then Inr (c\<lparr>pin := True\<rparr>)
      else if a = ''--rt=on'' then Inr (c\<lparr>rt := True\<rparr>)
      else if starts_with ''--rate='' a then cpp_bind (atoi (drop 7 a)) (\<lambda>v. Inr (c\<lparr>rate := of_int v\<rparr>))
      else if starts_with ''--md-cpu='' a then cpp_bind (atoi (drop 9 a)) (\<lambda>v. Inr (c\<lparr>md_cpu := v\<rparr>))
      else if starts_with ''--strat-cpu='' a then cpp_bind (atoi (drop 12 a)) (\<lambda>v. Inr (c\<lparr>strat_cpu := v\<rparr>))
      else if starts_with ''--gw-cpu='' a then cpp_bind (atoi (drop 9 a)) (\<lambda>v. Inr (c\<lparr>gw_cpu := v\<rparr>))
      else if starts_with ''--exch-ip='' a then Inr (c\<lparr>exch_ip := drop 10 a\<rparr>)
      else if starts_with ''--log='' a then Inr (c\<lparr>log_path := drop 6 a\<rparr>)
      else Inr c)"

fun parse :: "string list \<Rightarrow> cfg \<Rightarrow> cfg cpp" where
  "parse [] c = Inr c"
| "parse (a # as) c = cpp_bind (parse_arg a c) (parse as)"

section \<open>State\<close>

text \<open>
  Program counters. Each step of a thread makes at most one access that another thread can observe
  (the flag \<^verbatim>\<open>g_running\<close> or a ring), so there is one value per such access: the flag at the head of the
  loop, the pop, the push with its retry, the read of \<^verbatim>\<open>size_approx\<close>.
\<close>

datatype md_pc = Md_Loop | Md_Push tick | Md_Retry tick | Md_Done
datatype st_pc = St_Loop | St_Pop | St_Push order "nat option" | St_Retry order "nat option" | St_Done
datatype gw_pc = Gw_Loop | Gw_Pop | Gw_Log u64 | Gw_Recv | Gw_Done
datatype lg_pc = Lg_Loop | Lg_Size | Lg_Pop | Lg_Done

record hot_state =
  ring1 :: "tick ring"
  ring2 :: "order ring"
  ring3 :: "log_event ring"
  t2t :: histogram
  rtt :: histogram
  opool :: "order_ctx pool"
  pending :: "u64 list"
  orders :: u64
  fills :: u64

text \<open>
  The threads' local variables, the bytes sent and the text of the log file; the last six fields and
  \<open>send_failed\<close> are histories: what was taken from and put into the rings, how many events the full
  log ring has refused, and whether some \<^verbatim>\<open>send_all\<close> has reported a failure.
\<close>

record engine = hot_state +
  g_running :: bool
  md_at :: md_pc
  md_next :: u64
  md_sym :: u32
  md_seq :: u32
  st_at :: st_pc
  st_clordid :: u64
  gw_at :: gw_pc
  gw_buf :: string
  wire :: string
  send_failed :: bool
  lg_at :: lg_pc
  lg_file :: bool
  log_text :: string
  ticks_popped :: "tick list"
  orders_pushed :: "order list"
  orders_popped :: "order list"
  log_pushed :: "log_event list"
  log_popped :: "log_event list"
  log_refused :: nat

definition kPendingMask :: u64 where
  "kPendingMask = pending_capacity - 1"

definition tick0 :: tick where
  "tick0 = \<lparr>t_t0_tsc = 0, t_sym_id = 0, t_seq = 0, t_bid = 0, t_ask = 0\<rparr>"

definition order0 :: order where
  "order0 = \<lparr>o_t0_tsc = 0, o_clordid = 0, o_sym_id = 0, o_side = Buy, o_px = 0, o_qty = 0, o_fix_len = 0, o_fix = []\<rparr>"

definition log0 :: log_event where
  "log0 = \<lparr>le_tsc = 0, le_type = OrderSent, le_len = 0, le_msg = []\<rparr>"

definition ctx0 :: order_ctx where
  "ctx0 = \<lparr>ctx_clordid = 0, ctx_t0_tsc = 0, ctx_fix_buf = [], ctx_fix_len = 0\<rparr>"

definition pool_size :: nat where
  "pool_size = 4096"

text \<open>
  The engine when the threads start: \<open>tsc\<close> is the counter reading of the market-data thread,
  \<open>p\<close> the constructed pool, and \<open>file\<close> says whether the logger could open its file.
\<close>

definition engine_new :: "u64 \<Rightarrow> order_ctx pool \<Rightarrow> bool \<Rightarrow> engine" where
  "engine_new tsc p file = \<lparr>ring1 = ring_new ring_capacity tick0, ring2 = ring_new ring_capacity order0,
     ring3 = ring_new ring_capacity log0, t2t = hist_new, rtt = hist_new, opool = p,
     pending = replicate (unat pending_capacity) 0, orders = 0, fills = 0,
     g_running = True, md_at = Md_Loop, md_next = tsc, md_sym = 0, md_seq = 0,
     st_at = St_Loop, st_clordid = 1, gw_at = Gw_Loop, gw_buf = [], wire = [], send_failed = False,
     lg_at = Lg_Loop, lg_file = file, log_text = [],
     ticks_popped = [], orders_pushed = [], orders_popped = [], log_pushed = [], log_popped = [], log_refused = 0\<rparr>"

text \<open>The handler of \<^verbatim>\<open>SIGINT\<close> and \<^verbatim>\<open>SIGTERM\<close>.\<close>

definition on_signal :: "engine \<Rightarrow> engine" where
  "on_signal e = e\<lparr>g_running := False\<rparr>"

section \<open>Market data\<close>

definition period_ticks :: "cfg \<Rightarrow> tsc_clock \<Rightarrow> u64 cpp" where
  "period_ticks c clk =
     (if rate c = 0 \<or> mant (ns_per_tick clk) = 0 then Inl Bad_cast
      else dbl_to_u64 (ddiv (ddiv (dbl_of_nat 1000000000) (dbl_of_nat (unat (rate c)))) (ns_per_tick clk)))"

definition md_tick :: "u64 \<Rightarrow> u32 \<Rightarrow> u32 \<Rightarrow> tick" where
  "md_tick tsc sy sq =
     (let wiggle = (uint (sq mod 20) - 10) * 5;
          mid = base_price kLimits + wiggle
      in \<lparr>t_t0_tsc = tsc, t_sym_id = sy, t_seq = sq, t_bid = mid - 5, t_ask = mid + 5\<rparr>)"

text \<open>The end of an iteration, whether or not the tick was pushed.\<close>

definition md_advance :: "engine \<Rightarrow> engine" where
  "md_advance e = e\<lparr>md_sym := (md_sym e + 1) mod kNumSymbols, md_seq := md_seq e + 1, md_at := Md_Loop\<rparr>"

definition md_run :: "u64 \<Rightarrow> u64 \<Rightarrow> u64 \<Rightarrow> engine \<Rightarrow> engine" where
  "md_run period now t0 e =
     (case md_at e of
        Md_Loop \<Rightarrow>
          (if \<not> g_running e then e\<lparr>md_at := Md_Done\<rparr>
           else if now < md_next e then e
           else e\<lparr>md_next := md_next e + period, md_at := Md_Push (md_tick t0 (md_sym e) (md_seq e))\<rparr>)
      | Md_Push t \<Rightarrow>
          (let (ok, r) = try_push ring_capacity t (ring1 e); e1 = e\<lparr>ring1 := r\<rparr>
           in if ok then md_advance e1 else e1\<lparr>md_at := Md_Retry t\<rparr>)
      | Md_Retry t \<Rightarrow> if g_running e then e\<lparr>md_at := Md_Push t\<rparr> else md_advance e
      | Md_Done \<Rightarrow> e)"

section \<open>Strategy\<close>

definition nos_fields :: "string \<Rightarrow> order \<Rightarrow> (int \<times> string) list" where
  "nos_fields sy od = [(35, ''D''), (49, ''TRADER''), (56, ''EXCHANGE''),
     (34, to_chars (sint (o_clordid od))), (11, to_chars (sint (o_clordid od))), (55, sy),
     (54, to_chars (uint (side_code (o_side od)))), (38, to_chars (o_qty od)), (40, ''2''),
     (44, to_chars (o_px od))]"

definition encode_nos :: "nat \<Rightarrow> order \<Rightarrow> string cpp" where
  "encode_nos cap od =
     (if unat (o_sym_id od) < length kSymbols then
        cpp_bind (builder_adds (nos_fields (kSymbols ! unat (o_sym_id od)) od) (builder_reset [])) (finalize cap)
      else Inl Out_of_bounds)"

definition on_tick :: "cfg \<Rightarrow> tick \<Rightarrow> u64 \<Rightarrow> order cpp" where
  "on_tick c t cid =
     (if dispatch_crtp c then crtp_on_tick AltStrategy_rule t cid else virtual_on_tick AltStrategyV t cid)"

text \<open>
  Decide, encode into the scratch buffer of the given size, copy into the order's own array.
\<close>

definition make_order :: "cfg \<Rightarrow> nat \<Rightarrow> tick \<Rightarrow> u64 \<Rightarrow> order cpp" where
  "make_order c enc_cap t cid =
     cpp_bind (on_tick c t cid) (\<lambda>od.
     cpp_bind (encode_nos enc_cap od) (\<lambda>bytes.
     if length bytes \<le> order_fix_cap then Inr (od\<lparr>o_fix_len := of_nat (length bytes), o_fix := bytes\<rparr>)
     else Inl Buffer_overflow))"

definition stackbuf_cap :: nat where
  "stackbuf_cap = 160"

text \<open>The scratch object, if one was allocated, then holds the encoded bytes.\<close>

definition ctx_write :: "nat option \<Rightarrow> string \<Rightarrow> order_ctx pool \<Rightarrow> order_ctx pool" where
  "ctx_write ptr bytes p =
     (case ptr of None \<Rightarrow> p
      | Some i \<Rightarrow> p\<lparr>pslots := (pslots p)[i := Storage (ctx0\<lparr>ctx_fix_buf := bytes\<rparr>)]\<rparr>)"

text \<open>The end of an iteration, whether or not the order was pushed.\<close>

definition st_finish :: "nat option \<Rightarrow> engine \<Rightarrow> engine cpp" where
  "st_finish ptr e =
     cpp_bind (pool_release ptr (opool e)) (\<lambda>p.
     Inr (e\<lparr>opool := p, st_clordid := st_clordid e + 1, st_at := St_Loop\<rparr>))"

definition st_run :: "cfg \<Rightarrow> bool \<Rightarrow> engine \<Rightarrow> engine cpp" where
  "st_run c malloc_ok e =
     (case st_at e of
        St_Loop \<Rightarrow> Inr (e\<lparr>st_at := (if g_running e then St_Pop else St_Done)\<rparr>)
      | St_Pop \<Rightarrow>
          (case try_pop ring_capacity (ring1 e) of
             (None, r) \<Rightarrow> Inr (e\<lparr>ring1 := r, st_at := St_Loop\<rparr>)
           | (Some t, r) \<Rightarrow>
               cpp_bind (if use_pool c then pool_acquire ctx0 (opool e) else Inr (None, opool e)) (\<lambda>(ptr, p).
               let has_ctx = (if use_pool c then ptr \<noteq> None else malloc_ok) in
               cpp_bind (make_order c (if has_ctx then ctx_fix_cap else stackbuf_cap) t (st_clordid e)) (\<lambda>od.
               Inr (e\<lparr>ring1 := r, opool := ctx_write ptr (o_fix od) p, st_at := St_Push od ptr,
                  ticks_popped := ticks_popped e @ [t]\<rparr>))))
      | St_Push od ptr \<Rightarrow>
          (let (ok, r) = try_push ring_capacity od (ring2 e);
               e1 = e\<lparr>ring2 := r, orders_pushed := orders_pushed e @ (if ok then [od] else [])\<rparr>
           in if ok then st_finish ptr e1 else Inr (e1\<lparr>st_at := St_Retry od ptr\<rparr>))
      | St_Retry od ptr \<Rightarrow> if g_running e then Inr (e\<lparr>st_at := St_Push od ptr\<rparr>) else st_finish ptr e
      | St_Done \<Rightarrow> Inr e)"

section \<open>Gateway\<close>

definition warm :: "u64 \<Rightarrow> bool" where
  "warm n \<longleftrightarrow> n \<ge> warmup_orders kLimits"

definition record_if :: "bool \<Rightarrow> tsc_clock \<Rightarrow> u64 \<Rightarrow> histogram \<Rightarrow> histogram cpp" where
  "record_if b clk dticks h =
     (if b then cpp_bind (ticks_to_ns clk dticks) (\<lambda>ns. hist_record [] ns h) else Inr h)"

definition nos_log :: "u64 \<Rightarrow> u64 \<Rightarrow> log_event" where
  "nos_log tsc cid =
     (let s = ''NOS id='' @ nat_str (unat cid)
      in \<lparr>le_tsc = tsc, le_type = OrderSent, le_len = of_nat (length s), le_msg = take (log_msg_cap - 1) s\<rparr>)"

text \<open>
  The first part of an iteration: read the flag, take an order, measure, remember its time stamp,
  send. The kernel's answers \<open>rs\<close> to the \<^verbatim>\<open>send\<close> calls decide which bytes go out.
\<close>

definition gw_send :: "tsc_clock \<Rightarrow> u64 \<Rightarrow> send_res list \<Rightarrow> engine \<Rightarrow> engine cpp" where
  "gw_send clk now rs e =
     (case gw_at e of
        Gw_Loop \<Rightarrow> Inr (e\<lparr>gw_at := (if g_running e then Gw_Pop else Gw_Done)\<rparr>)
      | Gw_Pop \<Rightarrow>
          (case try_pop ring_capacity (ring2 e) of
             (None, r) \<Rightarrow> Inr (e\<lparr>ring2 := r, gw_at := Gw_Recv\<rparr>)
           | (Some od, r) \<Rightarrow>
               cpp_bind (record_if (warm (orders e)) clk (now - o_t0_tsc od) (t2t e)) (\<lambda>h.
               Inr (e\<lparr>ring2 := r, t2t := h,
                  pending := (pending e)[unat (o_clordid od AND kPendingMask) := o_t0_tsc od],
                  wire := wire e @ snd (send_all rs (take (unat (o_fix_len od)) (o_fix od))),
                  send_failed := (send_failed e \<or> fst (send_all rs (take (unat (o_fix_len od)) (o_fix od))) \<noteq> Some True),
                  orders := orders e + 1,
                  orders_popped := orders_popped e @ [od], gw_at := Gw_Log (o_clordid od)\<rparr>)))
      | _ \<Rightarrow> Inr e)"

text \<open>The log event of the order just sent; a full ring drops it.\<close>

definition gw_log :: "u64 \<Rightarrow> engine \<Rightarrow> engine" where
  "gw_log now e =
     (case gw_at e of
        Gw_Log cid \<Rightarrow>
          (let (ok, r) = try_push ring_capacity (nos_log now cid) (ring3 e)
           in e\<lparr>ring3 := r, log_pushed := log_pushed e @ (if ok then [nos_log now cid] else []),
                log_refused := log_refused e + (if ok then 0 else 1), gw_at := Gw_Recv\<rparr>)
      | _ \<Rightarrow> e)"

text \<open>An ExecutionReport; \<open>rx n\<close> is the counter read for the fill number \<open>n\<close>.\<close>

definition gw_fill :: "tsc_clock \<Rightarrow> (u64 \<Rightarrow> u64) \<Rightarrow> string \<Rightarrow> engine \<Rightarrow> engine cpp" where
  "gw_fill clk rx msg e =
     (if view_get msg 35 = ''8'' then
        (let cid = of_int (view_get_int msg 11 0) :: u64;
             t0 = pending e ! unat (cid AND kPendingMask)
         in cpp_bind (ticks_to_ns clk (rx (fills e) - t0)) (\<lambda>dt.
            cpp_bind (if warm (fills e) then hist_record [] dt (rtt e) else Inr (rtt e)) (\<lambda>h.
            Inr (e\<lparr>rtt := h, fills := fills e + 1\<rparr>))))
      else Inr e)"

fun gw_fills :: "tsc_clock \<Rightarrow> (u64 \<Rightarrow> u64) \<Rightarrow> string list \<Rightarrow> engine \<Rightarrow> engine cpp" where
  "gw_fills clk rx [] e = Inr e"
| "gw_fills clk rx (m # ms) e = cpp_bind (gw_fill clk rx m e) (gw_fills clk rx ms)"

datatype recv_res = Recv string | Recv_closed | Recv_again | Recv_error

text \<open>The last part: \<open>None\<close> when the framer's loop does not end.\<close>

definition gw_recv :: "tsc_clock \<Rightarrow> (u64 \<Rightarrow> u64) \<Rightarrow> recv_res \<Rightarrow> engine \<Rightarrow> engine cpp option" where
  "gw_recv clk rx r e =
     (if gw_at e \<noteq> Gw_Recv then Some (Inr e)
      else case r of
        Recv bytes \<Rightarrow>
          (case framer_drain (framer_append bytes (gw_buf e)) of None \<Rightarrow> None
           | Some (ms, buf) \<Rightarrow> Some (gw_fills clk rx ms (e\<lparr>gw_buf := buf, gw_at := Gw_Loop\<rparr>)))
      | Recv_closed \<Rightarrow> Some (Inr (e\<lparr>gw_at := Gw_Done\<rparr>))
      | Recv_again \<Rightarrow> Some (Inr (e\<lparr>gw_at := Gw_Loop\<rparr>))
      | Recv_error \<Rightarrow> Some (Inr (e\<lparr>gw_at := Gw_Done\<rparr>)))"

section \<open>Logger\<close>

definition log_line :: "log_event \<Rightarrow> string" where
  "log_line le = nat_str (unat (le_tsc le)) @ '' '' @ nat_str (unat (log_type_code (le_type le))) @ '' '' @
     take (unat (le_len le)) (le_msg le) @ [CHR 0x0A]"

definition lg_run :: "engine \<Rightarrow> engine" where
  "lg_run e =
     (case lg_at e of
        Lg_Loop \<Rightarrow> e\<lparr>lg_at := (if g_running e then Lg_Pop else Lg_Size)\<rparr>
      | Lg_Size \<Rightarrow> e\<lparr>lg_at := (if 0 < size_approx (ring3 e) then Lg_Pop else Lg_Done)\<rparr>
      | Lg_Pop \<Rightarrow>
          (case try_pop ring_capacity (ring3 e) of
             (None, r) \<Rightarrow> e\<lparr>ring3 := r, lg_at := Lg_Loop\<rparr>
           | (Some le, r) \<Rightarrow> e\<lparr>ring3 := r, log_text := log_text e @ (if lg_file e then log_line le else []),
               log_popped := log_popped e @ [le], lg_at := Lg_Loop\<rparr>)
      | Lg_Done \<Rightarrow> e)"

section \<open>Facts on orders\<close>

lemma caps: "unat ring_capacity = 4096" "unat pending_capacity = 4096" "pow2_assert ring_capacity"
  "pow2_assert pending_capacity" "pending_capacity \<noteq> 0" "ring_capacity \<noteq> 0"
  by (simp_all add: ring_capacity_def pending_capacity_def pow2_assert_def push_bit_eq_mult)

lemma pending_slot: "unat (w AND kPendingMask) = unat w mod 4096"
  using unat_and_pred_pow2 [of pending_capacity w] caps by (simp add: kPendingMask_def)

lemma on_tick_decide: "on_tick c t cid = decide t cid"
  by (simp add: on_tick_def crtp_on_tick_def AltStrategy_rule_def virtual_on_tick_def AltStrategyV_def)

lemma kSymbols_clean: "i < length kSymbols \<Longrightarrow> SOH \<notin> set (kSymbols ! i)" "i < length kSymbols \<Longrightarrow> length (kSymbols ! i) \<le> 9"
  "i < length kSymbols \<Longrightarrow> kSymbols ! i \<noteq> []"
  by (auto simp: kSymbols_def SOH_def less_Suc_eq numeral_eq_Suc nth_Cons split: nat.splits)

lemma nos_fields_ok: "SOH \<notin> set sy \<Longrightarrow> fields_ok (nos_fields sy od)"
  by (simp add: fields_ok_def nos_fields_def tag_ok_def to_chars_special(2) [folded SOH_def]) (simp add: SOH_def)

text \<open>The encoder on its own: the frame of the order's fields, if the buffer is large enough.\<close>

definition nos_frame :: "order \<Rightarrow> string" where
  "nos_frame od = frame_of (field_seq (nos_fields (kSymbols ! unat (o_sym_id od)) od))"

lemma tag_lits:
  "to_chars 35 = ''35''" "to_chars 49 = ''49''" "to_chars 56 = ''56''" "to_chars 34 = ''34''" "to_chars 11 = ''11''"
  "to_chars 55 = ''55''" "to_chars 54 = ''54''" "to_chars 38 = ''38''" "to_chars 40 = ''40''" "to_chars 44 = ''44''"
  "to_chars 5000 = ''5000''" "to_chars 1 = ''1''" "to_chars 2 = ''2''"
  by (simp_all add: to_chars_def nat_str.simps digit_char_def char_of_eq_iff)

lemma nos_body_length:
  assumes "o_qty od = 5000"
  shows "length (field_seq (nos_fields sy od)) =
    61 + 2 * length (to_chars (sint (o_clordid od))) + length sy + length (to_chars (o_px od))"
  using assms by (cases "o_side od") (simp_all add: nos_fields_def field_def tag_lits side_code_def)

lemma make_order_Inr:
  "make_order c cap t cid = Inr od \<longleftrightarrow> (\<exists>od0. decide t cid = Inr od0 \<and> unat (o_sym_id od0) < length kSymbols \<and>
     length (field_seq (nos_fields (kSymbols ! unat (o_sym_id od0)) od0)) \<le> body_cap \<and>
     length (nos_frame od0) \<le> cap \<and> length (nos_frame od0) \<le> order_fix_cap \<and>
     od = od0\<lparr>o_fix_len := of_nat (length (nos_frame od0)), o_fix := nos_frame od0\<rparr>)"
proof -
  have e: "encode_nos cap od0 = Inr b \<longleftrightarrow> unat (o_sym_id od0) < length kSymbols \<and>
     length (field_seq (nos_fields (kSymbols ! unat (o_sym_id od0)) od0)) \<le> body_cap \<and>
     length (nos_frame od0) \<le> cap \<and> b = nos_frame od0" for od0 b
    using builder_adds_spec [OF nos_fields_ok, of "kSymbols ! unat (o_sym_id od0)" od0 "[]"]
      kSymbols_clean(1) [of "unat (o_sym_id od0)"]
    by (auto simp: encode_nos_def builder_reset_def cpp_bind_eq_Inr_iff finalize_cases nos_frame_def frame_of_length
        nos_fields_def split: if_splits)
  show ?thesis by (auto simp: make_order_def on_tick_decide cpp_bind_eq_Inr_iff e split: if_splits)
qed

lemma md_price_bounds: "9950 \<le> 10000 + (uint (sq mod 20 :: u32) - 10) * 5" "10000 + (uint (sq mod 20 :: u32) - 10) * 5 \<le> 10045"
proof -
  have "uint (sq mod 20) = uint sq mod 20" by (simp add: uint_mod)
  then show "9950 \<le> 10000 + (uint (sq mod 20 :: u32) - 10) * 5" "10000 + (uint (sq mod 20 :: u32) - 10) * 5 \<le> 10045"
    by (simp_all add: pos_mod_bound [of 20 "uint sq", simplified])
qed

definition plain_order :: "u64 \<Rightarrow> u32 \<Rightarrow> u32 \<Rightarrow> u64 \<Rightarrow> order" where
  "plain_order t0 sy sq cid = \<lparr>o_t0_tsc = t0, o_clordid = cid, o_sym_id = sy, o_side = (if odd (unat cid) then Buy else Sell),
     o_px = 10000 + (uint (sq mod 20) - 10) * 5, o_qty = 5000, o_fix_len = 0, o_fix = []\<rparr>"

lemma decide_md_tick: "decide (md_tick t0 sy sq) cid = Inr (plain_order t0 sy sq cid)"
proof -
  let ?m = "10000 + (uint (sq mod 20) - 10) * 5"
  have "i64_ok (?m - 5 + (?m + 5))" using md_price_bounds [of sq] by (simp add: i64_defs)
  moreover have "cdiv (?m - 5 + (?m + 5)) 2 = ?m" using md_price_bounds [of sq] by (subst cdiv_nonneg) auto
  ultimately show ?thesis
    by (simp add: decide_def md_tick_def plain_order_def kLimits_def Let_def odd_and_one)
qed

lemma nos_frame_length:
  assumes "unat sy < 6" "unat cid < 10 ^ 7"
  shows "length (nos_frame (plain_order t0 sy sq cid)) \<le> 111"
    "length (field_seq (nos_fields (kSymbols ! unat sy) (plain_order t0 sy sq cid))) \<le> 89"
proof -
  let ?od = "plain_order t0 sy sq cid"
  have "sint cid = int (unat cid)" using assms(2) sint_of_nat_u64 [of "unat cid"] by simp
  then have d: "length (to_chars (sint cid)) \<le> 7" using nat_str_length [of "unat cid" 7] assms(2) by (simp add: to_chars_def)
  have px: "length (to_chars (o_px ?od)) \<le> 5"
  proof -
    have "o_px ?od = 10000 + (uint (sq mod 20) - 10) * 5" by (simp add: plain_order_def)
    then have "0 \<le> o_px ?od" "o_px ?od < 100000" using md_price_bounds [of sq] by linarith+
    then show ?thesis using nat_str_length [of "nat (o_px ?od)" 5] by (simp add: to_chars_def)
  qed
  have sy: "length (kSymbols ! unat sy) \<le> 9" using kSymbols_clean(2) [of "unat sy"] assms(1) by (simp add: kSymbols_def)
  have b: "length (field_seq (nos_fields (kSymbols ! unat sy) ?od)) =
      61 + 2 * length (to_chars (sint cid)) + length (kSymbols ! unat sy) + length (to_chars (o_px ?od))"
    by (subst nos_body_length) (simp_all add: plain_order_def)
  then show b89: "length (field_seq (nos_fields (kSymbols ! unat sy) ?od)) \<le> 89" using d px sy by linarith
  then have "length (nat_str (length (field_seq (nos_fields (kSymbols ! unat sy) ?od)))) \<le> 2"
    using nat_str_length [of "length (field_seq (nos_fields (kSymbols ! unat sy) ?od))" 2] by simp
  then show "length (nos_frame ?od) \<le> 111"
    using b89 by (simp add: nos_frame_def frame_of_length plain_order_def)
qed

lemma make_order_ok:
  assumes "unat sy < 6" "unat cid < 10 ^ 7" "112 \<le> cap"
  shows "make_order c cap (md_tick t0 sy sq) cid = Inr ((plain_order t0 sy sq cid)
    \<lparr>o_fix_len := of_nat (length (nos_frame (plain_order t0 sy sq cid))), o_fix := nos_frame (plain_order t0 sy sq cid)\<rparr>)"
proof -
  have s: "o_sym_id (plain_order t0 sy sq cid) = sy" by (simp add: plain_order_def)
  show ?thesis
    unfolding make_order_Inr using nos_frame_length [OF assms(1,2), of t0 sq] assms
    by (intro exI [of _ "plain_order t0 sy sq cid"]) (simp add: decide_md_tick s kSymbols_def body_cap_def order_fix_cap_def)
qed

section \<open>Properties\<close>

text \<open>
  C28. The scratch buffer \<^verbatim>\<open>fix_buf[112]\<close>: for every tick the generator makes and every order id
  below ten million, the encoded NewOrderSingle fits it and the order's own \<^verbatim>\<open>fix[120]\<close>, with
  either dispatch; at order id 10000016 (a BANKNIFTY order at a five-digit price) the encoder
  writes past its end.
\<close>

theorem nos_buffer_limit:
  shows "(unat sy < 6 \<longrightarrow> unat cid < 10 ^ 7 \<longrightarrow> (\<exists>od. make_order c ctx_fix_cap (md_tick t0 sy sq) cid = Inr od \<and>
      length (o_fix od) \<le> 112 \<and> unat (o_fix_len od) = length (o_fix od) \<and> is_frame (o_fix od))) \<and>
    (make_order c ctx_fix_cap (md_tick t0 1 10000015) 10000016 = Inl Buffer_overflow)"
proof (rule conjI, (rule impI)+)
  let ?p = "plain_order t0 sy sq cid"
  show "\<exists>od. make_order c ctx_fix_cap (md_tick t0 sy sq) cid = Inr od \<and>
      length (o_fix od) \<le> 112 \<and> unat (o_fix_len od) = length (o_fix od) \<and> is_frame (o_fix od)"
    if a: "unat sy < 6" "unat cid < 10 ^ 7"
  proof -
    have "unat (of_nat (length (nos_frame ?p)) :: u32) = length (nos_frame ?p)"
      using nos_frame_length(1) [OF a, of t0 sq] by (simp add: unat_of_nat)
    moreover have "is_frame (nos_frame ?p)"
      by (rule finalize_frame [of "length (nos_frame ?p)" "field_seq (nos_fields (kSymbols ! unat sy) ?p)"])
        (use nos_frame_length(2) [OF a, of t0 sq] in \<open>simp_all add: finalize_cases nos_frame_def frame_of_length plain_order_def\<close>)
    ultimately show ?thesis
      using make_order_ok [OF a, of ctx_fix_cap c t0 sq] nos_frame_length(1) [OF a, of t0 sq]
      by (simp add: ctx_fix_cap_def)
  qed
  let ?q = "plain_order t0 1 10000015 10000016"
  have sy: "o_sym_id ?q = 1" by (simp add: plain_order_def)
  have l: "length (field_seq (nos_fields (kSymbols ! 1) ?q)) = 91"
    by (subst nos_body_length) (simp_all add: plain_order_def to_chars_def nat_str.simps kSymbols_def)
  then have "builder_adds (nos_fields (kSymbols ! 1) ?q) [] = Inr (field_seq (nos_fields (kSymbols ! 1) ?q))"
    using builder_adds_spec [OF nos_fields_ok, of "kSymbols ! 1" ?q "[]"] kSymbols_clean(1) [of 1]
    by (simp add: body_cap_def kSymbols_def)
  then have "encode_nos ctx_fix_cap ?q = Inl Buffer_overflow"
    using l by (simp add: encode_nos_def sy builder_reset_def finalize_cases ctx_fix_cap_def nat_str.simps kSymbols_def)
  then show "make_order c ctx_fix_cap (md_tick t0 1 10000015) 10000016 = Inl Buffer_overflow"
    by (simp add: make_order_def on_tick_decide decide_md_tick)
qed

theorem nos_buffer_limit_witness:
  "\<exists>od. make_order cfg_default ctx_fix_cap (md_tick 0 1 15) 9999998 = Inr od \<and> length (o_fix od) \<le> 112"
  using nos_buffer_limit [of 1 9999998 cfg_default 0 15] by auto

end
