(* ===== verification/Pipeline.thy ===== *)
theory Pipeline
  imports Engine
begin

text \<open>
  The running engine: the market-data, strategy, gateway and logger threads interleaved at the
  granularity of their accesses to the shared flag and rings, with the shutdown signal as a step of
  its own. A step relation on the engine state, its invariant (what is in each ring, which order
  each tick becomes, which slots of \<^verbatim>\<open>pending\<close> hold which time stamps, who owns the scratch objects,
  what the histograms and the log file hold), and what it gives for every run.
\<close>

section \<open>The step relation\<close>

definition send_returns :: "send_res list \<Rightarrow> engine \<Rightarrow> bool" where
  "send_returns rs e \<longleftrightarrow> gw_at e = Gw_Pop \<longrightarrow> (case fst (try_pop ring_capacity (ring2 e)) of None \<Rightarrow> True
     | Some od \<Rightarrow> fst (send_all rs (take (unat (o_fix_len od)) (o_fix od))) \<noteq> None)"

text \<open>
  The index of the other side that a ring operation or \<^verbatim>\<open>size_approx\<close> loads may be an old one. The
  operation then finds the ring full or empty although it is not: it fails, and as the index it
  has cached is the old one too it leaves the ring as it was. (Where an old index still shows room
  or an element the operation does what it does with the latest one.)
\<close>

inductive stale_step :: "engine \<Rightarrow> engine \<Rightarrow> bool" where
  stale_md: "md_at e = Md_Push t \<Longrightarrow> stale_step e (e\<lparr>md_at := Md_Retry t\<rparr>)"
| stale_st_pop: "st_at e = St_Pop \<Longrightarrow> stale_step e (e\<lparr>st_at := St_Loop\<rparr>)"
| stale_st_push: "st_at e = St_Push od ptr \<Longrightarrow> stale_step e (e\<lparr>st_at := St_Retry od ptr\<rparr>)"
| stale_gw_pop: "gw_at e = Gw_Pop \<Longrightarrow> stale_step e (e\<lparr>gw_at := Gw_Recv\<rparr>)"
| stale_gw_log: "gw_at e = Gw_Log cid \<Longrightarrow> stale_step e (e\<lparr>log_refused := Suc (log_refused e), gw_at := Gw_Recv\<rparr>)"
| stale_lg_pop: "lg_at e = Lg_Pop \<Longrightarrow> stale_step e (e\<lparr>lg_at := Lg_Loop\<rparr>)"
| stale_lg_size: "lg_at e = Lg_Size \<Longrightarrow> stale_step e (e\<lparr>lg_at := Lg_Done\<rparr>)"

inductive_cases stale_stepE: "stale_step e e'"

text \<open>The steps of the threads, the signal, and the receive call of the gateway, which depends on its peer.\<close>

inductive thread_step :: "cfg \<Rightarrow> tsc_clock \<Rightarrow> u64 \<Rightarrow> engine \<Rightarrow> engine \<Rightarrow> bool" for c clk period where
  step_md: "thread_step c clk period e (md_run period now t0 e)"
| step_st: "st_run c malloc_ok e = Inr e' \<Longrightarrow> thread_step c clk period e e'"
| step_gw_send: "send_returns rs e \<Longrightarrow> gw_send clk now rs e = Inr e' \<Longrightarrow> thread_step c clk period e e'"
| step_gw_log: "thread_step c clk period e (gw_log now e)"
| step_lg: "thread_step c clk period e (lg_run e)"
| step_stop: "thread_step c clk period e (on_signal e)"
| step_stale: "stale_step e e' \<Longrightarrow> thread_step c clk period e e'"

inductive_cases thread_stepE: "thread_step c clk period e e'"

inductive engine_step :: "cfg \<Rightarrow> tsc_clock \<Rightarrow> u64 \<Rightarrow> engine \<Rightarrow> engine \<Rightarrow> bool" for c clk period where
  step_thread: "thread_step c clk period e e' \<Longrightarrow> engine_step c clk period e e'"
| step_gw_recv: "gw_recv clk rx r e = Some (Inr e') \<Longrightarrow> engine_step c clk period e e'"

lemmas engine_steps = thread_step.intros [THEN step_thread] step_gw_recv

definition engine_init :: "engine \<Rightarrow> bool" where
  "engine_init e \<longleftrightarrow> (\<exists>tsc p opened. pool_new pool_size = Inr p \<and> e = engine_new tsc p opened)"

section \<open>The invariant\<close>

definition ticks_seen :: "tick list \<Rightarrow> tick ring \<Rightarrow> tick list" where
  "ticks_seen tp r1 = tp @ ring_list ring_capacity r1"

text \<open>The tick number \<open>i\<close> of a run, up to its time stamp, and the order it becomes.\<close>

definition tick_at :: "nat \<Rightarrow> tick \<Rightarrow> bool" where
  "tick_at i t \<longleftrightarrow> t = md_tick (t_t0_tsc t) (of_nat (i mod 6)) (of_nat i)"

definition order_for :: "nat \<Rightarrow> tick \<Rightarrow> order \<Rightarrow> bool" where
  "order_for i t od \<longleftrightarrow> make_order cfg_default stackbuf_cap t (of_nat (Suc i)) = Inr od"

definition md_ok :: "tick ring \<Rightarrow> tick list \<Rightarrow> bool \<Rightarrow> md_pc \<Rightarrow> u32 \<Rightarrow> u32 \<Rightarrow> bool" where
  "md_ok r1 tp running at sq sy \<longleftrightarrow> ring_ok ring_capacity r1 \<and>
     (\<forall>i < length (ticks_seen tp r1). tick_at i (ticks_seen tp r1 ! i)) \<and>
     (case at of
        Md_Loop \<Rightarrow> running \<longrightarrow> sq = of_nat (length (ticks_seen tp r1)) \<and> sy = of_nat (length (ticks_seen tp r1) mod 6)
      | Md_Push t \<Rightarrow> tick_at (length (ticks_seen tp r1)) t \<and>
          sq = of_nat (length (ticks_seen tp r1)) \<and> sy = of_nat (length (ticks_seen tp r1) mod 6)
      | Md_Retry t \<Rightarrow> tick_at (length (ticks_seen tp r1)) t \<and>
          sq = of_nat (length (ticks_seen tp r1)) \<and> sy = of_nat (length (ticks_seen tp r1) mod 6)
      | Md_Done \<Rightarrow> True)"

definition st_ok :: "tick list \<Rightarrow> order list \<Rightarrow> bool \<Rightarrow> st_pc \<Rightarrow> u64 \<Rightarrow> bool" where
  "st_ok tp os running at cid \<longleftrightarrow> length os \<le> length tp \<and>
     (\<forall>i < length os. order_for i (tp ! i) (os ! i)) \<and>
     (case at of
        St_Loop \<Rightarrow> running \<longrightarrow> length tp = length os \<and> cid = of_nat (Suc (length os))
      | St_Pop \<Rightarrow> length tp = length os \<and> cid = of_nat (Suc (length os))
      | St_Push od ptr \<Rightarrow> length tp = Suc (length os) \<and> order_for (length os) (last tp) od \<and>
          cid = of_nat (Suc (length os))
      | St_Retry od ptr \<Rightarrow> length tp = Suc (length os) \<and> order_for (length os) (last tp) od \<and>
          cid = of_nat (Suc (length os))
      | St_Done \<Rightarrow> True)"

definition gw_ok :: "order ring \<Rightarrow> order list \<Rightarrow> order list \<Rightarrow> u64 \<Rightarrow> bool \<Rightarrow> string \<Rightarrow> bool" where
  "gw_ok r2 os opo n failed w \<longleftrightarrow> ring_ok ring_capacity r2 \<and>
     os = opo @ ring_list ring_capacity r2 \<and> n = of_nat (length opo) \<and>
     (\<not> failed \<longrightarrow> w = concat (map o_fix opo))"

definition pend_ok :: "u64 list \<Rightarrow> order list \<Rightarrow> bool" where
  "pend_ok pe opo \<longleftrightarrow> length pe = 4096 \<and>
     (\<forall>i < length opo. length opo \<le> i + 4096 \<longrightarrow> pe ! (Suc i mod 4096) = o_t0_tsc (opo ! i))"

definition ctx_ok :: "order_ctx pool \<Rightarrow> st_pc \<Rightarrow> bool" where
  "ctx_ok p at \<longleftrightarrow> pool_ok pool_size p \<and>
     dom (pool_map p) = (case at of St_Push od (Some i) \<Rightarrow> {i} | St_Retry od (Some i) \<Rightarrow> {i} | _ \<Rightarrow> {})"

text \<open>
  A histogram holds one sample for each of the first \<open>n\<close> operations that came after the warm-up.
\<close>

definition warm_count :: "nat \<Rightarrow> nat" where
  "warm_count n = length (filter (\<lambda>k. warm (of_nat k)) [0..<n])"

definition samples_ok :: "histogram \<Rightarrow> nat \<Rightarrow> bool" where
  "samples_ok h n \<longleftrightarrow> (\<exists>xs. hist_of xs h \<and> list_all in_range xs \<and> length xs = warm_count n)"

text \<open>
  The log: the orders whose event is due, and the ring and file against the events pushed so far.
\<close>

definition event_for :: "order \<Rightarrow> log_event \<Rightarrow> bool" where
  "event_for od le \<longleftrightarrow> le = nos_log (le_tsc le) (o_clordid od)"

definition logged :: "order list \<Rightarrow> gw_pc \<Rightarrow> order list" where
  "logged opo at = (case at of Gw_Log cid \<Rightarrow> butlast opo | _ \<Rightarrow> opo)"

definition events_ok :: "order list \<Rightarrow> log_event list \<Rightarrow> nat \<Rightarrow> bool" where
  "events_ok ods les refused \<longleftrightarrow> length les + refused = length ods \<and>
     (\<exists>sub. subseq sub ods \<and> list_all2 event_for sub les)"

definition log_ok :: "log_event ring \<Rightarrow> log_event list \<Rightarrow> log_event list \<Rightarrow> bool \<Rightarrow> string \<Rightarrow> bool" where
  "log_ok r3 lpu lpo file txt \<longleftrightarrow> ring_ok ring_capacity r3 \<and> lpu = lpo @ ring_list ring_capacity r3 \<and>
     txt = (if file then concat (map log_line lpo) else [])"

definition due_ok :: "order list \<Rightarrow> gw_pc \<Rightarrow> bool" where
  "due_ok opo at \<longleftrightarrow> (case at of Gw_Log cid \<Rightarrow> opo \<noteq> [] \<and> cid = o_clordid (last opo) | _ \<Rightarrow> True)"

definition engine_inv :: "engine \<Rightarrow> bool" where
  "engine_inv e \<longleftrightarrow>
     md_ok (ring1 e) (ticks_popped e) (g_running e) (md_at e) (md_seq e) (md_sym e) \<and>
     st_ok (ticks_popped e) (orders_pushed e) (g_running e) (st_at e) (st_clordid e) \<and>
     gw_ok (ring2 e) (orders_pushed e) (orders_popped e) (orders e) (send_failed e) (wire e) \<and>
     pend_ok (pending e) (orders_popped e) \<and> ctx_ok (opool e) (st_at e) \<and>
     samples_ok (t2t e) (length (orders_popped e)) \<and> (\<exists>n. fills e = of_nat n \<and> samples_ok (rtt e) n) \<and>
     log_ok (ring3 e) (log_pushed e) (log_popped e) (lg_file e) (log_text e) \<and>
     events_ok (logged (orders_popped e) (gw_at e)) (log_pushed e) (log_refused e) \<and>
     due_ok (orders_popped e) (gw_at e)"

section \<open>Facts on orders\<close>

lemma make_order_cfg: "make_order c cap t cid = make_order c' cap t cid"
  by (simp add: make_order_def on_tick_decide)

lemma make_order_cap: "make_order c cap t cid = Inr od \<Longrightarrow> cap \<le> cap' \<Longrightarrow> make_order c' cap' t cid = Inr od"
  unfolding make_order_Inr by auto

lemma order_for_facts:
  assumes "order_for i t od"
  shows "o_clordid od = of_nat (Suc i)" "o_t0_tsc od = t_t0_tsc t" "o_sym_id od = t_sym_id t"
    "take (unat (o_fix_len od)) (o_fix od) = o_fix od"
  using assms unfolding order_for_def make_order_Inr
  by (auto simp: decide_def Let_def cpp_bind_eq_Inr_iff i64_chk_def order_fix_cap_def unat_of_nat split: if_splits)

section \<open>Samples and events\<close>

lemma warm_count_Suc: "warm_count (Suc n) = warm_count n + (if warm (of_nat n) then 1 else 0)"
  by (simp add: warm_count_def)

lemma warm_count_eq: "n \<le> 2 ^ 64 \<Longrightarrow> warm_count n = n - 500"
proof (induction n)
  case (Suc n)
  have "warm (of_nat n) \<longleftrightarrow> 500 \<le> n"
    using Suc.prems by (simp add: warm_def kLimits_def word_le_nat_alt unat_of_nat_u64)
  then show ?case using Suc by (auto simp: warm_count_Suc)
qed (simp add: warm_count_def)

lemma hist_record_Inr:
  assumes "hist_of xs h" "hist_record fs x h = Inr h'"
  shows "in_range x" "hist_of (xs @ [x]) h'"
proof -
  show r: "in_range x" using hist_record_overrun [of h x fs] assms by (auto simp: hist_of_def)
  show "hist_of (xs @ [x]) h'" using hist_record_step [OF assms(1) r, of fs] assms(2) by auto
qed

lemma samples_record:
  assumes "samples_ok h n" "(if warm (of_nat n) then hist_record [] x h else Inr h) = Inr h'"
  shows "samples_ok h' (Suc n)"
proof (cases "warm (of_nat n)")
  case True
  obtain xs where xs: "hist_of xs h" "list_all in_range xs" "length xs = warm_count n"
    using assms(1) by (auto simp: samples_ok_def)
  note R = hist_record_Inr [OF xs(1)]
  show ?thesis unfolding samples_ok_def
    using R [of "[]" x h'] assms(2) xs True by (intro exI [of _ "xs @ [x]"]) (simp add: warm_count_Suc)
next
  case False
  then show ?thesis using assms by (simp add: samples_ok_def warm_count_Suc)
qed

lemma samples_record_if:
  assumes "samples_ok h n" "record_if (warm (of_nat n)) clk d h = Inr h'"
  shows "samples_ok h' (Suc n)"
  using assms samples_record [of h n _ h']
  by (cases "warm (of_nat n)") (auto simp: record_if_def cpp_bind_eq_Inr_iff)

lemma event_nos_log: "event_for od (nos_log tsc (o_clordid od))"
  by (simp add: event_for_def nos_log_def Let_def)

lemma events_push: "events_ok ods les k \<Longrightarrow> event_for od le \<Longrightarrow> events_ok (ods @ [od]) (les @ [le]) k"
proof -
  assume a: "events_ok ods les k" "event_for od le"
  then obtain sub where sub: "subseq sub ods" "list_all2 event_for sub les" by (auto simp: events_ok_def)
  then have "subseq (sub @ [od]) (ods @ [od])" "list_all2 event_for (sub @ [od]) (les @ [le])"
    using a(2) by (simp_all add: list_all2_appendI)
  then show ?thesis using a(1) unfolding events_ok_def by (intro conjI exI [of _ "sub @ [od]"]) simp_all
qed

lemma events_refuse: "events_ok ods les k \<Longrightarrow> events_ok (ods @ [od]) les (Suc k)"
  by (auto simp: events_ok_def intro: subseq_rev_drop_many)

section \<open>Initial states\<close>

lemma ring_new_facts: "ring_ok ring_capacity (ring_new ring_capacity d)" "ring_list ring_capacity (ring_new ring_capacity d) = []"
  using ring_ok_new [OF caps(3)] by (simp_all add: ring_list_def ring_new_def size_approx_def)

lemma next_symbol: "(of_nat (n mod 6) + 1 :: u32) mod kNumSymbols = of_nat (Suc n mod 6)"
proof -
  have "n mod 6 < 6" by simp
  then have "n mod 6 \<in> {0, 1, 2, 3, 4, 5}" by auto
  then show ?thesis by (auto simp: kNumSymbols_def kSymbols_def mod_Suc)
qed

lemma samples_new: "samples_ok hist_new 0"
  using hist_of_new by (auto simp: samples_ok_def warm_count_def)

lemma engine_init_inv: "engine_init e \<Longrightarrow> engine_inv e"
proof -
  assume "engine_init e"
  then obtain tsc p opened where p: "pool_new pool_size = Inr p" "e = engine_new tsc p opened" by (auto simp: engine_init_def)
  then have "pool_ok pool_size p" "pool_map p = Map.empty"
    using pool_new_ok [of pool_size, where 'a = order_ctx] by (auto simp: pool_size_def)
  then show ?thesis
    using samples_new
    by (simp add: engine_inv_def p(2) engine_new_def ring_new_facts caps md_ok_def ticks_seen_def st_ok_def gw_ok_def
        pend_ok_def ctx_ok_def log_ok_def events_ok_def logged_def due_ok_def exI [of _ 0])
qed

section \<open>Preservation, thread by thread\<close>

lemma stop_inv: "engine_inv e \<Longrightarrow> engine_inv (on_signal e)"
  by (auto simp: on_signal_def engine_inv_def md_ok_def st_ok_def split: md_pc.splits st_pc.splits)

lemma stale_inv: "stale_step e e' \<Longrightarrow> engine_inv e \<Longrightarrow> engine_inv e'"
proof (elim stale_stepE)
  fix cid
  assume inv: "engine_inv e" and at: "gw_at e = Gw_Log cid" and e': "e' = e\<lparr>log_refused := Suc (log_refused e), gw_at := Gw_Recv\<rparr>"
  have "orders_popped e = butlast (orders_popped e) @ [last (orders_popped e)]"
    using inv at by (auto simp: engine_inv_def due_ok_def)
  moreover have "events_ok (butlast (orders_popped e)) (log_pushed e) (log_refused e)"
    using inv at by (simp add: engine_inv_def logged_def)
  ultimately have "events_ok (orders_popped e) (log_pushed e) (Suc (log_refused e))" by (metis events_refuse)
  then show "engine_inv e'" using inv e' by (simp add: engine_inv_def logged_def due_ok_def)
qed (auto simp: engine_inv_def md_ok_def st_ok_def ctx_ok_def logged_def due_ok_def split: option.splits)

lemma ring_pop_none:
  assumes "ring_ok cap q" "try_pop cap q = (None, r)"
  shows "ring_ok cap r" "ring_list cap r = ring_list cap q"
  using ringq.ok_pop [OF assms(1)] ringq.pop_none_iff [OF assms(1)] ringq.contents_pop [OF assms(1)] assms(2) by simp_all

lemma ring_pop_some:
  assumes "ring_ok cap q" "try_pop cap q = (Some x, r)"
  shows "ring_ok cap r" "ring_list cap q = x # ring_list cap r"
proof -
  show "ring_ok cap r" using ringq.ok_pop [OF assms(1)] assms(2) by simp
  have "ring_list cap q \<noteq> []" using ringq.pop_none_iff [OF assms(1)] assms(2) by auto
  then obtain y ys where "ring_list cap q = y # ys" by (cases "ring_list cap q") auto
  then show "ring_list cap q = x # ring_list cap r"
    using ringq.pop_cons [OF assms(1)] assms(2) by simp
qed

lemma lg_run_inv: "engine_inv e \<Longrightarrow> engine_inv (lg_run e)"
proof (cases "lg_at e")
  case Lg_Pop
  assume inv: "engine_inv e"
  then have L: "log_ok (ring3 e) (log_pushed e) (log_popped e) (lg_file e) (log_text e)" by (simp add: engine_inv_def)
  then have ok: "ring_ok ring_capacity (ring3 e)" by (simp add: log_ok_def)
  obtain x r where pop: "try_pop ring_capacity (ring3 e) = (x, r)" by (cases "try_pop ring_capacity (ring3 e)")
  show ?thesis
  proof (cases x)
    case None
    then have "log_ok r (log_pushed e) (log_popped e) (lg_file e) (log_text e)"
      using L ring_pop_none [OF ok pop [unfolded None]] by (simp add: log_ok_def)
    then show ?thesis using inv Lg_Pop pop None by (simp add: engine_inv_def lg_run_def)
  next
    case (Some le)
    have "log_ok r (log_pushed e) (log_popped e @ [le]) (lg_file e) (log_text e @ (if lg_file e then log_line le else []))"
      using L ring_pop_some [OF ok pop [unfolded Some]] by (simp add: log_ok_def)
    then show ?thesis using inv Lg_Pop pop Some by (simp add: engine_inv_def lg_run_def)
  qed
qed (simp_all add: engine_inv_def lg_run_def)

lemma md_push_inv:
  assumes inv: "engine_inv e" and at: "md_at e = Md_Push t"
  shows "engine_inv (md_run period now t0 e)"
proof -
  let ?r = "try_push ring_capacity t (ring1 e)"
  let ?T = "ticks_seen (ticks_popped e) (ring1 e)"
  have ok: "ring_ok ring_capacity (ring1 e)" and tk: "tick_at (length ?T) t"
    "md_seq e = of_nat (length ?T)" "md_sym e = of_nat (length ?T mod 6)"
    "\<forall>i < length ?T. tick_at i (?T ! i)"
    using inv at by (simp_all add: engine_inv_def md_ok_def)
  have r: "ring_ok ring_capacity (snd ?r)" by (rule ringq.ok_push [OF ok])
  have T: "ticks_seen (ticks_popped e) (snd ?r) = (if fst ?r then ?T @ [t] else ?T)"
    using ringq.contents_push [OF ok, of t] ringq.push_true_iff [OF ok, of t] by (simp add: ticks_seen_def)
  have nth: "\<forall>i < length (?T @ [t]). tick_at i ((?T @ [t]) ! i)" using tk by (auto simp: nth_append less_Suc_eq)
  have sy: "(md_sym e + 1) mod kNumSymbols = of_nat (Suc (length ?T) mod 6)" unfolding tk(3) by (rule next_symbol)
  show ?thesis
  proof (cases "fst ?r")
    case True
    then have "md_ok (snd ?r) (ticks_popped e) (g_running e) Md_Loop (md_seq e + 1) ((md_sym e + 1) mod kNumSymbols)"
      using r T nth sy tk(2) by (simp add: md_ok_def add.commute)
    then show ?thesis using inv at True by (simp add: engine_inv_def md_run_def md_advance_def case_prod_unfold Let_def)
  next
    case False
    then have "md_ok (snd ?r) (ticks_popped e) (g_running e) (Md_Retry t) (md_seq e) (md_sym e)"
      using r T tk by (simp add: md_ok_def)
    then show ?thesis using inv at False by (simp add: engine_inv_def md_run_def case_prod_unfold Let_def)
  qed
qed

lemma md_run_inv: "engine_inv e \<Longrightarrow> engine_inv (md_run period now t0 e)"
proof (cases "md_at e")
  case (Md_Push t)
  assume "engine_inv e"
  then show ?thesis using Md_Push by (rule md_push_inv)
qed (auto simp: engine_inv_def md_run_def md_ok_def md_advance_def tick_at_def md_tick_def Let_def)

lemma ctx_write_ok:
  assumes "pool_ok n p" "i \<in> dom (pool_map p)"
  shows "pool_ok n (ctx_write (Some i) bytes p)" "dom (pool_map (ctx_write (Some i) bytes p)) = dom (pool_map p)"
proof -
  let ?x = "Storage (ctx0\<lparr>ctx_fix_buf := bytes\<rparr>)"
  obtain fl where fl: "length (pslots p) = n" "distinct fl" "free_chain (pslots p) (pfree p) fl"
    "set fl = {..<n} - dom (pool_map p)" using assms(1) by (auto simp: pool_ok_def)
  have i: "i < length (pslots p)" using assms(2) pool_map_dom by fastforce
  have m: "pool_map (ctx_write (Some i) bytes p) = (pool_map p)(i \<mapsto> ctx0\<lparr>ctx_fix_buf := bytes\<rparr>)"
    using pool_map_update [OF i, of "pfree p" ?x] by (simp add: ctx_write_def)
  then show d: "dom (pool_map (ctx_write (Some i) bytes p)) = dom (pool_map p)" using assms(2) by auto
  have "free_chain (pslots (ctx_write (Some i) bytes p)) (pfree p) fl"
    using fl(3,4) assms(2) by (simp add: ctx_write_def free_chain_update)
  then show "pool_ok n (ctx_write (Some i) bytes p)"
    unfolding pool_ok_def d using fl by (intro conjI exI [of _ fl]) (simp_all add: ctx_write_def)
qed

lemma take_ctx_ok:
  assumes "ctx_ok p St_Pop" "(if use then pool_acquire ctx0 p else Inr (None, p)) = Inr (ptr, p1)"
  shows "ctx_ok (ctx_write ptr bytes p1) (St_Push od ptr)"
proof (cases use)
  case False
  then show ?thesis using assms by (simp add: ctx_ok_def ctx_write_def)
next
  case True
  then have acq: "pool_acquire ctx0 p = Inr (ptr, p1)" using assms(2) by simp
  have ok: "pool_ok pool_size p" "dom (pool_map p) = {}" using assms(1) by (simp_all add: ctx_ok_def)
  show ?thesis
  proof (cases ptr)
    case None
    then have "{} = {..<pool_size}" using pool.acquire_none [OF ok(1)] acq ok(2) by metis
    moreover have "(0 :: nat) \<in> {..<pool_size}" by (simp add: pool_size_def)
    ultimately show ?thesis by blast
  next
    case (Some i)
    then have "pool_ok pool_size p1" "dom (pool_map p1) = {i}"
      using pool_ok_results(1) [OF ok(1) acq] pool.acquire_some [OF ok(1), of ctx0 i p1] acq ok(2) by auto
    then show ?thesis using Some ctx_write_ok [of pool_size p1 i bytes] by (simp add: ctx_ok_def)
  qed
qed

lemma drop_ctx_ok:
  assumes "ctx_ok p (St_Push od ptr)"
  shows "\<exists>p'. pool_release ptr p = Inr p' \<and> ctx_ok p' St_Loop"
proof (cases ptr)
  case None
  then show ?thesis using assms by (simp add: ctx_ok_def pool_release_def)
next
  case (Some i)
  then have "pool_ok pool_size p" "i \<in> dom (pool_map p)" "dom (pool_map p) = {i}" using assms by (simp_all add: ctx_ok_def)
  then show ?thesis using pool.release_ok [of pool_size p i] Some by (auto simp: ctx_ok_def)
qed

lemma md_ok_seen:
  "ring_ok ring_capacity r \<Longrightarrow> ticks_seen tp r = ticks_seen tp' r' \<Longrightarrow> md_ok r' tp' running at sq sy \<Longrightarrow>
    md_ok r tp running at sq sy"
  by (cases at) (simp_all add: md_ok_def)

lemma st_pop_inv:
  assumes "md_ok r1 tp running at sq sy" "try_pop ring_capacity r1 = (Some t, r)"
  shows "md_ok r (tp @ [t]) running at sq sy"
proof -
  have "ring_ok ring_capacity r1" using assms(1) by (simp add: md_ok_def)
  from ring_pop_some [OF this assms(2)] have "ring_ok ring_capacity r" "ticks_seen (tp @ [t]) r = ticks_seen tp r1"
    by (simp_all add: ticks_seen_def)
  then show ?thesis using assms(1) by (rule md_ok_seen)
qed

lemma st_pop_step_inv:
  assumes inv: "engine_inv e" and at: "st_at e = St_Pop" and run: "st_run c m e = Inr e'"
  shows "engine_inv e'"
proof -
  obtain x r where pop: "try_pop ring_capacity (ring1 e) = (x, r)" by (cases "try_pop ring_capacity (ring1 e)")
  have I: "md_ok (ring1 e) (ticks_popped e) (g_running e) (md_at e) (md_seq e) (md_sym e)"
    "st_ok (ticks_popped e) (orders_pushed e) (g_running e) St_Pop (st_clordid e)" "ctx_ok (opool e) St_Pop"
    using inv at by (simp_all add: engine_inv_def)
  show ?thesis
  proof (cases x)
    case None
    have "ring_ok ring_capacity (ring1 e)" using I(1) by (simp add: md_ok_def)
    note N = ring_pop_none [OF this pop [unfolded None]]
    have "md_ok r (ticks_popped e) (g_running e) (md_at e) (md_seq e) (md_sym e)"
      by (rule md_ok_seen [OF N(1) _ I(1)]) (simp add: ticks_seen_def N(2))
    moreover have "st_ok (ticks_popped e) (orders_pushed e) (g_running e) St_Loop (st_clordid e)" "ctx_ok (opool e) St_Loop"
      using I(2,3) by (simp_all add: st_ok_def ctx_ok_def)
    ultimately show ?thesis using inv at run pop None by (auto simp: engine_inv_def st_run_def)
  next
    case (Some t)
    from run at pop Some obtain ptr p1 od cap where
      q: "(if use_pool c then pool_acquire ctx0 (opool e) else Inr (None, opool e)) = Inr (ptr, p1)"
      "make_order c cap t (st_clordid e) = Inr od" "cap \<le> stackbuf_cap"
      "e' = e\<lparr>ring1 := r, opool := ctx_write ptr (o_fix od) p1, st_at := St_Push od ptr, ticks_popped := ticks_popped e @ [t]\<rparr>"
      by (auto simp: st_run_def cpp_bind_eq_Inr_iff Let_def ctx_fix_cap_def stackbuf_cap_def split: if_splits)
    have "order_for (length (orders_pushed e)) t od"
      using make_order_cap [OF q(2,3)] I(2) by (simp add: order_for_def st_ok_def)
    then have "st_ok (ticks_popped e @ [t]) (orders_pushed e) (g_running e) (St_Push od ptr) (st_clordid e)"
      using I(2) by (simp add: st_ok_def nth_append)
    then show ?thesis
      using inv at st_pop_inv [OF I(1) pop [unfolded Some]] take_ctx_ok [OF I(3) q(1)]
      by (simp add: q(4) engine_inv_def)
  qed
qed

text \<open>The end of an iteration; when the order was not pushed the flag has been cleared.\<close>

lemma st_finish_inv:
  assumes rest: "engine_inv (e\<lparr>st_at := St_Done, opool := pl\<rparr>)" and c: "ctx_ok (opool e) (St_Push od ptr)"
    and s: "st_ok (ticks_popped e) (orders_pushed e) (g_running e) St_Loop (st_clordid e + 1)"
  shows "\<exists>e'. st_finish ptr e = Inr e' \<and> engine_inv e'"
proof -
  obtain p where p: "pool_release ptr (opool e) = Inr p" "ctx_ok p St_Loop" using drop_ctx_ok [OF c] by blast
  then show ?thesis using rest s by (simp add: st_finish_def engine_inv_def)
qed

lemma st_push_inv:
  assumes inv: "engine_inv e" and at: "st_at e = St_Push od ptr"
  shows "\<exists>e'. st_run c m e = Inr e' \<and> engine_inv e'"
proof -
  let ?r = "try_push ring_capacity od (ring2 e)"
  have I: "st_ok (ticks_popped e) (orders_pushed e) (g_running e) (St_Push od ptr) (st_clordid e)"
    "gw_ok (ring2 e) (orders_pushed e) (orders_popped e) (orders e) (send_failed e) (wire e)"
    "ctx_ok (opool e) (St_Push od ptr)" using inv at by (simp_all add: engine_inv_def)
  have ok: "ring_ok ring_capacity (ring2 e)" using I(2) by (simp add: gw_ok_def)
  let ?os = "orders_pushed e @ (if fst ?r then [od] else [])"
  let ?e = "e\<lparr>ring2 := snd ?r, orders_pushed := ?os\<rparr>"
  have gw: "gw_ok (snd ?r) ?os (orders_popped e) (orders e) (send_failed e) (wire e)"
    using I(2) ringq.ok_push [OF ok, of od] ringq.contents_push [OF ok, of od] ringq.push_true_iff [OF ok, of od]
    by (simp add: gw_ok_def)
  show ?thesis
  proof (cases "fst ?r")
    case True
    have lt: "last (ticks_popped e) = ticks_popped e ! length (orders_pushed e)"
      using I(1) by (cases "ticks_popped e = []") (auto simp: st_ok_def last_conv_nth)
    have s: "st_ok (ticks_popped e) (orders_pushed e @ [od]) (g_running e) St_Loop (st_clordid e + 1)"
      using I(1) lt by (auto simp: st_ok_def nth_append less_Suc_eq add.commute)
    obtain pl where pl: "ctx_ok pl St_Done" using drop_ctx_ok [OF I(3)] by (auto simp: ctx_ok_def)
    have "\<exists>e'. st_finish ptr ?e = Inr e' \<and> engine_inv e'"
      by (rule st_finish_inv [where pl = pl]) (use inv gw pl I(3) s True in \<open>auto simp: engine_inv_def st_ok_def\<close>)
    then show ?thesis using at True by (simp add: st_run_def case_prod_unfold Let_def)
  next
    case False
    have "st_ok (ticks_popped e) (orders_pushed e) (g_running e) (St_Retry od ptr) (st_clordid e)"
      "ctx_ok (opool e) (St_Retry od ptr)" using I(1,3) by (simp_all add: st_ok_def ctx_ok_def)
    then show ?thesis using inv at gw False by (simp add: engine_inv_def st_run_def case_prod_unfold Let_def)
  qed
qed

lemma st_retry_inv:
  assumes inv: "engine_inv e" and at: "st_at e = St_Retry od ptr"
  shows "\<exists>e'. st_run c m e = Inr e' \<and> engine_inv e'"
proof -
  have I: "st_ok (ticks_popped e) (orders_pushed e) (g_running e) (St_Retry od ptr) (st_clordid e)"
    "ctx_ok (opool e) (St_Retry od ptr)" using inv at by (simp_all add: engine_inv_def)
  have c: "ctx_ok (opool e) (St_Push od ptr)" using I(2) by (simp add: ctx_ok_def)
  show ?thesis
  proof (cases "g_running e")
    case True
    then show ?thesis using inv at I c by (simp add: engine_inv_def st_run_def st_ok_def)
  next
    case False
    obtain pl where pl: "ctx_ok pl St_Done" using drop_ctx_ok [OF c] by (auto simp: ctx_ok_def)
    have "\<exists>e'. st_finish ptr e = Inr e' \<and> engine_inv e'"
      by (rule st_finish_inv [where pl = pl]) (use inv pl c I(1) False in \<open>auto simp: engine_inv_def st_ok_def\<close>)
    then show ?thesis using at False by (simp add: st_run_def)
  qed
qed

lemma st_run_inv:
  assumes inv: "engine_inv e" and run: "st_run c m e = Inr e'"
  shows "engine_inv e'"
proof (cases "st_at e")
  case St_Pop
  with inv show ?thesis using run by (rule st_pop_step_inv)
next
  case (St_Push od ptr)
  then show ?thesis using st_push_inv [OF inv, of od ptr c m] run by auto
next
  case (St_Retry od ptr)
  then show ?thesis using st_retry_inv [OF inv, of od ptr c m] run by auto
next
  case St_Loop
  then show ?thesis using inv run by (cases "g_running e") (auto simp: engine_inv_def st_run_def st_ok_def ctx_ok_def)
qed (use inv run in \<open>auto simp: st_run_def\<close>)

lemma pend_store:
  assumes "pend_ok pe opo" "o_clordid od = of_nat (Suc (length opo))"
  shows "pend_ok (pe[unat (o_clordid od AND kPendingMask) := o_t0_tsc od]) (opo @ [od])"
proof -
  let ?n = "length opo"
  have slot: "unat (o_clordid od AND kPendingMask) = Suc ?n mod 4096"
    using unat_of_nat_mod_pow2 [of pending_capacity "Suc ?n"] caps assms(2) by (simp add: kPendingMask_def del: of_nat_Suc)
  have "pe[Suc ?n mod 4096 := o_t0_tsc od] ! (Suc i mod 4096) = o_t0_tsc ((opo @ [od]) ! i)"
    if i: "i < Suc ?n" "Suc ?n \<le> i + 4096" for i
  proof (cases "i = ?n")
    case True
    then show ?thesis using assms(1) by (simp add: pend_ok_def)
  next
    case False
    have "Suc i mod 4096 \<noteq> Suc ?n mod 4096" using mod_eq_window [of "Suc i" 4096 "Suc ?n"] i False by auto
    then show ?thesis using assms(1) i False by (simp add: pend_ok_def nth_append)
  qed
  then show ?thesis using assms(1) by (simp add: pend_ok_def slot)
qed

lemma gw_pop_inv:
  assumes inv: "engine_inv e" and at: "gw_at e = Gw_Pop" and run: "gw_send clk now rs e = Inr e'"
  shows "engine_inv e'"
proof -
  have G: "gw_ok (ring2 e) (orders_pushed e) (orders_popped e) (orders e) (send_failed e) (wire e)"
    and S: "st_ok (ticks_popped e) (orders_pushed e) (g_running e) (st_at e) (st_clordid e)"
    and P: "pend_ok (pending e) (orders_popped e)" and H: "samples_ok (t2t e) (length (orders_popped e))"
    using inv by (simp_all add: engine_inv_def)
  have ok: "ring_ok ring_capacity (ring2 e)" and n: "orders e = of_nat (length (orders_popped e))" using G by (simp_all add: gw_ok_def)
  obtain x r where pop: "try_pop ring_capacity (ring2 e) = (x, r)" by (cases "try_pop ring_capacity (ring2 e)")
  show ?thesis
  proof (cases x)
    case None
    have "gw_ok r (orders_pushed e) (orders_popped e) (orders e) (send_failed e) (wire e)"
      using G ring_pop_none [OF ok pop [unfolded None]] by (simp add: gw_ok_def)
    then show ?thesis using inv at run pop None by (auto simp: gw_send_def engine_inv_def logged_def due_ok_def)
  next
    case (Some od)
    note R = ring_pop_some [OF ok pop [unfolded Some]]
    let ?n = "length (orders_popped e)"
    have Q: "orders_pushed e = orders_popped e @ od # ring_list ring_capacity r" using G R(2) by (simp add: gw_ok_def)
    have "?n < length (orders_pushed e)" "orders_pushed e ! ?n = od" by (simp_all add: Q)
    then have F: "order_for ?n (ticks_popped e ! ?n) od" using S by (auto simp: st_ok_def)
    note F = order_for_facts [OF F]
    let ?s = "send_all rs (o_fix od)"
    have w: "snd ?s = o_fix od" if "fst ?s = Some True" using that send_loop_prefix [of 0 "o_fix od" rs] by (simp add: send_all_def)
    from run at pop Some obtain h where h: "record_if (warm (of_nat ?n)) clk (now - o_t0_tsc od) (t2t e) = Inr h" and
      e': "e' = e\<lparr>ring2 := r, t2t := h, pending := (pending e)[unat (o_clordid od AND kPendingMask) := o_t0_tsc od],
        wire := wire e @ snd ?s, send_failed := (send_failed e \<or> fst ?s \<noteq> Some True), orders := orders e + 1,
        orders_popped := orders_popped e @ [od], gw_at := Gw_Log (o_clordid od)\<rparr>"
      by (auto simp: gw_send_def cpp_bind_eq_Inr_iff F(4) n)
    have "gw_ok r (orders_pushed e) (orders_popped e @ [od]) (orders e + 1) (send_failed e \<or> fst ?s \<noteq> Some True) (wire e @ snd ?s)"
      using G R(1) Q w by (auto simp: gw_ok_def)
    then show ?thesis
      using inv at pend_store [OF P F(1)] samples_record_if [OF H h] by (simp add: e' engine_inv_def logged_def due_ok_def)
  qed
qed

lemma gw_send_inv:
  assumes inv: "engine_inv e" and run: "gw_send clk now rs e = Inr e'"
  shows "engine_inv e'"
proof (cases "gw_at e")
  case Gw_Pop
  with inv show ?thesis using run by (rule gw_pop_inv)
qed (use inv run in \<open>auto simp: gw_send_def engine_inv_def logged_def due_ok_def\<close>)

lemma gw_log_inv:
  assumes inv: "engine_inv e"
  shows "engine_inv (gw_log now e)"
proof (cases "gw_at e")
  case (Gw_Log cid)
  let ?le = "nos_log now cid"
  let ?r = "try_push ring_capacity ?le (ring3 e)"
  let ?opo = "orders_popped e"
  have L: "log_ok (ring3 e) (log_pushed e) (log_popped e) (lg_file e) (log_text e)"
    and E: "events_ok (butlast ?opo) (log_pushed e) (log_refused e)" and D: "?opo \<noteq> []" "cid = o_clordid (last ?opo)"
    using inv Gw_Log by (simp_all add: engine_inv_def logged_def due_ok_def)
  have ok: "ring_ok ring_capacity (ring3 e)" using L by (simp add: log_ok_def)
  have "log_ok (snd ?r) (log_pushed e @ (if fst ?r then [?le] else [])) (log_popped e) (lg_file e) (log_text e)"
    using L ringq.ok_push [OF ok, of ?le] ringq.contents_push [OF ok, of ?le] ringq.push_true_iff [OF ok, of ?le]
    by (simp add: log_ok_def)
  moreover have "events_ok ?opo (log_pushed e @ (if fst ?r then [?le] else [])) (log_refused e + (if fst ?r then 0 else 1))"
    using events_push [OF E event_nos_log [of "last ?opo" now]] events_refuse [OF E, of "last ?opo"] D by simp
  ultimately show ?thesis
    using inv Gw_Log by (cases "fst ?r") (simp_all add: gw_log_def case_prod_unfold Let_def engine_inv_def logged_def due_ok_def)
qed (use inv in \<open>simp_all add: gw_log_def\<close>)

lemma gw_fill_inv:
  assumes inv: "engine_inv e" and run: "gw_fill clk rx msg e = Inr e'"
  shows "engine_inv e'"
proof (cases "view_get msg 35 = ''8''")
  case True
  obtain n where n: "fills e = of_nat n" "samples_ok (rtt e) n" using inv by (auto simp: engine_inv_def)
  obtain h dt where h: "(if warm (of_nat n) then hist_record [] dt (rtt e) else Inr (rtt e)) = Inr h"
    "e' = e\<lparr>rtt := h, fills := fills e + 1\<rparr>"
    using run True by (auto simp: gw_fill_def Let_def cpp_bind_eq_Inr_iff n(1))
  have "fills e + 1 = of_nat (Suc n)" by (simp add: n(1))
  then have "\<exists>m. fills e + 1 = of_nat m \<and> samples_ok h m" using samples_record [OF n(2) h(1)] by blast
  then show ?thesis using inv by (simp add: h(2) engine_inv_def)
qed (use inv run in \<open>simp add: gw_fill_def\<close>)

lemma gw_fills_inv: "engine_inv e \<Longrightarrow> gw_fills clk rx ms e = Inr e' \<Longrightarrow> engine_inv e'"
  by (induction ms arbitrary: e) (auto simp: cpp_bind_eq_Inr_iff dest: gw_fill_inv)

lemma gw_recv_inv:
  assumes inv: "engine_inv e" and run: "gw_recv clk rx r e = Some (Inr e')"
  shows "engine_inv e'"
proof (cases "gw_at e = Gw_Recv")
  case True
  show ?thesis
  proof (cases r)
    case (Recv bytes)
    then obtain ms buf where "gw_fills clk rx ms (e\<lparr>gw_buf := buf, gw_at := Gw_Loop\<rparr>) = Inr e'"
      using run True by (auto simp: gw_recv_def split: option.splits)
    then show ?thesis by (rule gw_fills_inv [rotated]) (use inv True in \<open>simp add: engine_inv_def logged_def due_ok_def\<close>)
  qed (use inv run True in \<open>auto simp: gw_recv_def engine_inv_def logged_def due_ok_def\<close>)
qed (use inv run in \<open>auto simp: gw_recv_def\<close>)

interpretation thread_run: inductive_invariant engine_init "thread_step c clk period" engine_inv
  for c clk period
proof unfold_locales
  show "engine_inv e" if "engine_init e" for e using that by (rule engine_init_inv)
  show "engine_inv e'" if "engine_inv e" "thread_step c clk period e e'" for e e'
    using that(2,1)
    by (elim thread_stepE) (auto intro: md_run_inv st_run_inv gw_send_inv gw_log_inv lg_run_inv stop_inv stale_inv)
qed

interpretation engine_run: inductive_invariant engine_init "engine_step c clk period" engine_inv
  for c clk period
proof unfold_locales
  show "engine_inv e" if "engine_init e" for e using that by (rule engine_init_inv)
  show "engine_inv e'" if "engine_inv e" "engine_step c clk period e e'" for e e'
    using that(2,1) by (cases rule: engine_step.cases) (auto intro: thread_run.inv_step gw_recv_inv)
qed

section \<open>Progress of the strategy\<close>

lemma st_pop_order:
  assumes inv: "engine_inv e" and at: "st_at e = St_Pop" and len: "length (ticks_popped e) < 10 ^ 7 - 1"
    and pop: "try_pop ring_capacity (ring1 e) = (Some t, r)"
  shows "\<exists>od ptr p. st_run c m e = Inr (e\<lparr>ring1 := r, opool := p, st_at := St_Push od ptr, ticks_popped := ticks_popped e @ [t]\<rparr>)"
proof -
  let ?n = "length (ticks_popped e)"
  have M: "md_ok (ring1 e) (ticks_popped e) (g_running e) (md_at e) (md_seq e) (md_sym e)"
    and S: "st_ok (ticks_popped e) (orders_pushed e) (g_running e) St_Pop (st_clordid e)" and C: "ctx_ok (opool e) St_Pop"
    using inv at by (simp_all add: engine_inv_def)
  have ok: "ring_ok ring_capacity (ring1 e)" using M by (simp add: md_ok_def)
  have "ring_list ring_capacity (ring1 e) = t # ring_list ring_capacity r" by (rule ring_pop_some [OF ok pop])
  then have seen: "ticks_seen (ticks_popped e) (ring1 e) = ticks_popped e @ t # ring_list ring_capacity r"
    by (simp add: ticks_seen_def)
  have "tick_at ?n t" using M by (auto simp: md_ok_def seen dest: spec [of _ ?n])
  then have t: "t = md_tick (t_t0_tsc t) (of_nat (?n mod 6)) (of_nat ?n)" by (simp add: tick_at_def)
  have sy: "unat (of_nat (?n mod 6) :: u32) < 6" by (simp add: unat_of_nat)
  have cid: "unat (st_clordid e) < 10 ^ 7" using S len unat_of_nat_u64 [of "Suc ?n"] by (simp add: st_ok_def del: of_nat_Suc)
  obtain ptr p where acq: "(if use_pool c then pool_acquire ctx0 (opool e) else Inr (None, opool e)) = Inr (ptr, p)"
    using pool.acquire_ok [of pool_size "opool e" ctx0] C by (cases "use_pool c") (auto simp: ctx_ok_def)
  have "\<exists>od. make_order c cap t (st_clordid e) = Inr od" if "112 \<le> cap" for cap
    using make_order_ok [OF sy cid that, of c "t_t0_tsc t" "of_nat ?n"] t by metis
  moreover have "112 \<le> (if b then ctx_fix_cap else stackbuf_cap)" for b by (simp add: ctx_fix_cap_def stackbuf_cap_def)
  ultimately obtain od where
    "make_order c (if if use_pool c then ptr \<noteq> None else m then ctx_fix_cap else stackbuf_cap) t (st_clordid e) = Inr od"
    by blast
  then show ?thesis using acq at pop by (auto simp: st_run_def Let_def)
qed

lemma st_no_fault:
  assumes inv: "engine_inv e" and len: "length (ticks_popped e) < 10 ^ 7 - 1"
  shows "\<exists>e'. st_run c m e = Inr e'"
proof (cases "st_at e")
  case St_Pop
  obtain x r where pop: "try_pop ring_capacity (ring1 e) = (x, r)" by (cases "try_pop ring_capacity (ring1 e)")
  show ?thesis
  proof (cases x)
    case None
    then show ?thesis using St_Pop pop by (simp add: st_run_def)
  next
    case (Some t)
    then show ?thesis using st_pop_order [OF inv St_Pop len] pop by blast
  qed
next
  case (St_Push od ptr)
  then show ?thesis using st_push_inv [OF inv St_Push] by blast
next
  case (St_Retry od ptr)
  then show ?thesis using st_retry_inv [OF inv St_Retry] by blast
qed (simp_all add: st_run_def)

section \<open>A sample run\<close>

text \<open>One order on its way: the tick is in the first ring; the order is in the second; it is sent.\<close>

definition untouched :: "engine \<Rightarrow> bool" where
  "untouched e \<longleftrightarrow> g_running e \<and> md_at e = Md_Loop \<and> gw_at e = Gw_Loop \<and> lg_at e = Lg_Loop \<and> lg_file e \<and> orders e = 0 \<and>
     orders_popped e = [] \<and> log_pushed e = [] \<and> log_popped e = [] \<and> \<not> send_failed e"

lemma push_into_empty:
  assumes "ring_ok ring_capacity q" "ring_list ring_capacity q = []"
  shows "fst (try_push ring_capacity x q)" "ring_list ring_capacity (snd (try_push ring_capacity x q)) = [x]"
    "ring_ok ring_capacity (snd (try_push ring_capacity x q))"
  using ringq.push_true_iff [OF assms(1), of x] ringq.contents_push [OF assms(1), of x] ringq.ok_push [OF assms(1), of x]
    assms(2) caps(1) by simp_all

lemma pop_single:
  assumes "ring_ok ring_capacity q" "ring_list ring_capacity q = [x]"
  obtains r where "try_pop ring_capacity q = (Some x, r)"
  using ringq.pop_cons [OF assms(1), of x "[]"] assms(2) by (metis prod.collapse)

lemma run_tick:
  "\<exists>e t. reach engine_init (thread_step c clk period) e \<and> untouched e \<and> st_at e = St_Loop \<and> ticks_popped e = [] \<and>
     orders_pushed e = [] \<and> ring_list ring_capacity (ring1 e) = [t]"
proof -
  let ?reach = "reach engine_init (thread_step c clk period)"
  obtain p :: "order_ctx pool" where p: "pool_new pool_size = Inr p"
    using pool_new_ok [of pool_size, where 'a = order_ctx] by (auto simp: pool_size_def)
  let ?e0 = "engine_new 0 p True"
  have r0: "?reach ?e0" by (rule reach_init) (use p in \<open>auto simp: engine_init_def\<close>)
  let ?t = "md_tick 0 0 0"
  have e1: "md_run period 0 0 ?e0 = ?e0\<lparr>md_next := period, md_at := Md_Push ?t\<rparr>" by (simp add: md_run_def engine_new_def)
  have r1: "?reach (?e0\<lparr>md_next := period, md_at := Md_Push ?t\<rparr>)"
    using reach_step [OF r0 step_md [of c clk period _ 0 0]] e1 by simp
  let ?q = "try_push ring_capacity ?t (ring_new ring_capacity tick0)"
  have q: "fst ?q" "ring_list ring_capacity (snd ?q) = [?t]" using push_into_empty [OF ring_new_facts, of ?t] by simp_all
  have "?reach (md_advance (?e0\<lparr>md_next := period, md_at := Md_Push ?t, ring1 := snd ?q\<rparr>))"
    using reach_step [OF r1 step_md [of c clk period _ 0 0]] q(1)
    by (simp add: md_run_def engine_new_def case_prod_unfold Let_def)
  moreover have "untouched (md_advance (?e0\<lparr>md_next := period, md_at := Md_Push ?t, ring1 := snd ?q\<rparr>))"
    by (simp add: untouched_def md_advance_def engine_new_def)
  ultimately show ?thesis using q(2) by (fastforce simp: md_advance_def engine_new_def)
qed

lemma run_order:
  "\<exists>e od t. reach engine_init (thread_step c clk period) e \<and> untouched e \<and> st_at e = St_Loop \<and> ticks_popped e = [t] \<and>
     ring_list ring_capacity (ring2 e) = [od]"
proof -
  let ?reach = "reach engine_init (thread_step c clk period)"
  obtain e t where e: "?reach e" "untouched e" "st_at e = St_Loop" "ticks_popped e = []" "orders_pushed e = []"
    "ring_list ring_capacity (ring1 e) = [t]" using run_tick [of c clk period] by blast
  let ?e1 = "e\<lparr>st_at := St_Pop\<rparr>"
  have r1: "?reach ?e1"
    by (rule reach_step [OF e(1) step_st [of c True]]) (use e(2,3) in \<open>simp add: st_run_def untouched_def\<close>)
  note I1 = thread_run.reach_inv [OF r1]
  have ok1: "ring_ok ring_capacity (ring1 ?e1)" using I1 by (simp add: engine_inv_def md_ok_def)
  obtain r where pop: "try_pop ring_capacity (ring1 ?e1) = (Some t, r)" by (rule pop_single [OF ok1]) (use e(6) in simp_all)
  obtain od ptr q where st: "st_run c True ?e1 = Inr (?e1\<lparr>ring1 := r, opool := q, st_at := St_Push od ptr, ticks_popped := [t]\<rparr>)"
    using st_pop_order [OF I1 _ _ pop, of c True] e(4) by auto
  obtain e2 where e2: "e2 = ?e1\<lparr>ring1 := r, opool := q, st_at := St_Push od ptr, ticks_popped := [t]\<rparr>" by simp
  have r2: "?reach e2" using reach_step [OF r1 step_st [OF st]] e2 by simp
  note I2 = thread_run.reach_inv [OF r2]
  have ok2: "ring_ok ring_capacity (ring2 e2)" "ring_list ring_capacity (ring2 e2) = []"
    using I2 e2 e(2,5) by (auto simp: engine_inv_def gw_ok_def untouched_def)
  note pu = push_into_empty [OF ok2, of od]
  have at2: "st_at e2 = St_Push od ptr" by (simp add: e2)
  obtain e3 where e3: "st_run c True e2 = Inr e3" using st_push_inv [OF I2 at2, of c True] by blast
  have "st_at e3 = St_Loop" "ring2 e3 = snd (try_push ring_capacity od (ring2 e2))" "untouched e3" "ticks_popped e3 = [t]"
    using e3 e2 e(2) pu(1) by (auto simp: st_run_def st_finish_def case_prod_unfold Let_def cpp_bind_eq_Inr_iff untouched_def)
  then show ?thesis using reach_step [OF r2 step_st [OF e3]] pu(2) by metis
qed

lemma run_one_sent:
  "\<exists>e. reach engine_init (thread_step c clk period) e \<and> length (orders_popped e) = 1 \<and> \<not> send_failed e \<and>
     length (ticks_popped e) = 1 \<and> g_running e \<and> gw_at e = Gw_Log 1 \<and> lg_at e = Lg_Loop \<and> log_pushed e = [] \<and> log_popped e = [] \<and>
     md_at e = Md_Loop \<and> st_at e = St_Loop \<and> lg_file e"
proof -
  let ?reach = "reach engine_init (thread_step c clk period)"
  obtain e od t where e: "?reach e" "untouched e" "st_at e = St_Loop" "ticks_popped e = [t]"
    "ring_list ring_capacity (ring2 e) = [od]" using run_order [of c clk period] by blast
  let ?e1 = "e\<lparr>gw_at := Gw_Pop\<rparr>"
  have r1: "?reach ?e1"
    by (rule reach_step [OF e(1) step_gw_send [of "[]" e clk 0]])
      (use e(2) in \<open>simp_all add: gw_send_def untouched_def send_returns_def\<close>)
  note I1 = thread_run.reach_inv [OF r1]
  have ok1: "ring_ok ring_capacity (ring2 ?e1)" using I1 by (simp add: engine_inv_def gw_ok_def)
  obtain r where pop: "try_pop ring_capacity (ring2 ?e1) = (Some od, r)" by (rule pop_single [OF ok1]) (use e(5) in simp_all)
  let ?b = "take (unat (o_fix_len od)) (o_fix od)"
  let ?rs = "[Sent (Suc (length ?b))]"
  have sent: "fst (send_all ?rs ?b) = Some True" using send_loop_returns [of ?rs ?b 0] by (simp add: send_all_def accepted_def)
  have ret: "send_returns ?rs ?e1" using pop sent by (simp add: send_returns_def)
  have "order_for 0 t od" using I1 e(2,4,5) by (auto simp: engine_inv_def st_ok_def gw_ok_def untouched_def)
  then have cid: "o_clordid od = 1" using order_for_facts(1) by fastforce
  obtain e2 where e2: "gw_send clk 0 ?rs ?e1 = Inr e2" and f: "length (orders_popped e2) = 1" "\<not> send_failed e2"
    "length (ticks_popped e2) = 1" "g_running e2" "gw_at e2 = Gw_Log 1" "lg_at e2 = Lg_Loop" "log_pushed e2 = []" "log_popped e2 = []"
    "md_at e2 = Md_Loop" "st_at e2 = St_Loop" "lg_file e2"
    using e(2,3,4) pop sent by (simp add: gw_send_def record_if_def warm_def kLimits_def untouched_def cid)
  show ?thesis using reach_step [OF r1 step_gw_send [OF ret e2]] f by blast
qed

lemma reach_threads: "reach engine_init (thread_step c clk period) e \<Longrightarrow> reach engine_init (engine_step c clk period) e"
  by (erule reach_mono) (rule step_thread)

lemma run_one_order:
  "\<exists>e. reach engine_init (engine_step c clk period) e \<and> length (orders_popped e) = 1 \<and> \<not> send_failed e \<and>
     length (ticks_popped e) = 1 \<and> g_running e \<and> gw_at e = Gw_Log 1 \<and> lg_at e = Lg_Loop \<and> log_pushed e = [] \<and> log_popped e = [] \<and>
     md_at e = Md_Loop \<and> st_at e = St_Loop \<and> lg_file e"
  using run_one_sent [of c clk period] reach_threads by blast

section \<open>The orders the gateway has taken\<close>

lemma popped_order:
  assumes inv: "engine_inv e" and k: "k < length (orders_popped e)"
  shows "k < length (ticks_popped e)" "tick_at k (ticks_popped e ! k)" "order_for k (ticks_popped e ! k) (orders_popped e ! k)"
proof -
  have kq: "k < length (orders_pushed e)" "orders_pushed e ! k = orders_popped e ! k"
    using inv k by (auto simp: engine_inv_def gw_ok_def nth_append)
  show kt: "k < length (ticks_popped e)" using inv kq by (simp add: engine_inv_def st_ok_def)
  have "tick_at k (ticks_seen (ticks_popped e) (ring1 e) ! k)"
    using inv kt by (auto simp: engine_inv_def md_ok_def ticks_seen_def)
  then show "tick_at k (ticks_popped e ! k)" using kt by (simp add: ticks_seen_def nth_append)
  show "order_for k (ticks_popped e ! k) (orders_popped e ! k)" using inv kq by (auto simp: engine_inv_def st_ok_def)
qed

lemma popped_pending:
  assumes inv: "engine_inv e" and k: "k < length (orders_popped e)" "length (orders_popped e) \<le> k + 4096"
  shows "pending e ! unat (o_clordid (orders_popped e ! k) AND kPendingMask) = t_t0_tsc (ticks_popped e ! k)"
proof -
  note f = order_for_facts [OF popped_order(3) [OF inv k(1)]]
  have "unat (o_clordid (orders_popped e ! k) AND kPendingMask) = Suc k mod 4096"
    using unat_of_nat_mod_pow2 [of pending_capacity "Suc k"] caps f(1) by (simp add: kPendingMask_def del: of_nat_Suc)
  then show ?thesis using inv k f(2) by (simp add: engine_inv_def pend_ok_def)
qed

section \<open>Properties\<close>

text \<open>
  C1. The pipeline keeps order and content. In every reachable state of the running engine the
  gateway's order number \<open>k\<close> (from 0) is the order made from tick number \<open>k\<close>: the tick has the
  sequence number \<open>k\<close> and the round-robin symbol, the order id is \<open>k + 1\<close>, the order carries
  the tick's time stamp and its encoded message, and it is the same whichever dispatch and allocator were
  chosen; the order counter counts them, and unless a send has failed the bytes on the wire are
  exactly their messages in order.
\<close>

theorem pipeline_in_order:
  assumes "reach engine_init (engine_step c clk period) e" and "k < length (orders_popped e)"
  shows "(k < length (ticks_popped e)) \<and>
    (ticks_popped e ! k = md_tick (t_t0_tsc (ticks_popped e ! k)) (of_nat (k mod 6)) (of_nat k)) \<and>
    (make_order cfg_default stackbuf_cap (ticks_popped e ! k) (of_nat (Suc k)) = Inr (orders_popped e ! k)) \<and>
    (o_clordid (orders_popped e ! k) = of_nat (Suc k)) \<and>
    (o_t0_tsc (orders_popped e ! k) = t_t0_tsc (ticks_popped e ! k)) \<and>
    (orders e = of_nat (length (orders_popped e))) \<and>
    (\<not> send_failed e \<longrightarrow> wire e = concat (map o_fix (orders_popped e)))"
proof (intro conjI impI)
  have inv: "engine_inv e" by (rule engine_run.reach_inv [OF assms(1)])
  note P = popped_order [OF inv assms(2)]
  show "k < length (ticks_popped e)"
    "ticks_popped e ! k = md_tick (t_t0_tsc (ticks_popped e ! k)) (of_nat (k mod 6)) (of_nat k)"
    "make_order cfg_default stackbuf_cap (ticks_popped e ! k) (of_nat (Suc k)) = Inr (orders_popped e ! k)"
    using P by (simp_all only: tick_at_def order_for_def)
  show "o_clordid (orders_popped e ! k) = of_nat (Suc k)" "o_t0_tsc (orders_popped e ! k) = t_t0_tsc (ticks_popped e ! k)"
    using order_for_facts [OF P(3)] by simp_all
  show "orders e = of_nat (length (orders_popped e))" "\<not> send_failed e \<Longrightarrow> wire e = concat (map o_fix (orders_popped e))"
    using inv by (simp_all add: engine_inv_def gw_ok_def)
qed

theorem pipeline_in_order_witness:
  "\<exists>e. reach engine_init (engine_step cfg_default \<lparr>ns_per_tick = Dbl 1 0\<rparr> 1000) e \<and>
     o_clordid (orders_popped e ! 0) = 1 \<and> wire e = concat (map o_fix (orders_popped e))"
proof -
  obtain e where e: "reach engine_init (engine_step cfg_default \<lparr>ns_per_tick = Dbl 1 0\<rparr> 1000) e"
    "length (orders_popped e) = 1" "\<not> send_failed e" using run_one_order by blast
  have "0 < length (orders_popped e)" using e(2) by simp
  then show ?thesis using pipeline_in_order [OF e(1), of 0] e by auto
qed

text \<open>
  The direct-mapped table of outstanding orders: in every reachable state the slot of each of
  the last 4096 orders the gateway has sent holds the time stamp of exactly that order's tick.
\<close>

lemma pending_holds_latest:
  assumes "reach engine_init (engine_step c clk period) e"
    and "k < length (orders_popped e)" "length (orders_popped e) \<le> k + 4096"
  shows "pending e ! unat (o_clordid (orders_popped e ! k) AND kPendingMask) = t_t0_tsc (ticks_popped e ! k)"
  using popped_pending [OF engine_run.reach_inv [OF assms(1)] assms(2,3)] .

text \<open>
  C14. The strategy never faults on its first 9999999 orders: in every reachable state with
  fewer ticks taken, its next step returns, with either allocator and whether or not the
  allocation succeeds: no buffer is overrun, no price overflows, no pool slot is misused. The
  pool never has more than the one object of the order in progress in use.
\<close>

theorem strategy_never_faults:
  assumes "reach engine_init (engine_step c clk period) e" and "length (ticks_popped e) < 10 ^ 7 - 1"
  shows "(\<exists>e'. st_run c m e = Inr e') \<and>
    (card (dom (pool_map (opool e))) \<le> 1)"
proof (intro conjI impI)
  have inv: "engine_inv e" by (rule engine_run.reach_inv [OF assms(1)])
  then show "\<exists>e'. st_run c m e = Inr e'" using assms(2) by (rule st_no_fault)
  show "card (dom (pool_map (opool e))) \<le> 1"
    using inv by (auto simp: engine_inv_def ctx_ok_def split: st_pc.splits option.splits)
qed

theorem strategy_never_faults_witness:
  "\<exists>e e'. reach engine_init (engine_step cfg_default \<lparr>ns_per_tick = Dbl 1 0\<rparr> 1000) e \<and>
     length (ticks_popped e) = 1 \<and> st_run cfg_default False e = Inr e'"
proof -
  obtain e where e: "reach engine_init (engine_step cfg_default \<lparr>ns_per_tick = Dbl 1 0\<rparr> 1000) e"
    "length (ticks_popped e) = 1" using run_one_order by blast
  then show ?thesis using strategy_never_faults [OF e(1), of False] by fastforce
qed

end
