(* ===== verification/Exchange.thy ===== *)
theory Exchange
  imports Fix Platform Messages
begin

text \<open>
  \<^verbatim>\<open>src/exchange_main.cpp\<close>: the mock exchange. A session is a sequence of received chunks; the wall
  clock read for the message with sequence number \<open>n\<close> is \<open>clock n\<close>, a parameter. What the
  exchange sends is the list of messages, each as the bytes given to \<^verbatim>\<open>send_all\<close>.
\<close>

type_synonym wall_clock = "u64 \<Rightarrow> tm \<times> int"

section \<open>Configuration\<close>

record exch_cfg =
  ec_cpu :: int
  ec_pin :: bool
  ec_rt :: bool
  ec_rt_prio :: int

definition exch_cfg_default :: exch_cfg where
  "exch_cfg_default = \<lparr>ec_cpu = 14, ec_pin = False, ec_rt = False, ec_rt_prio = 80\<rparr>"

fun exch_parse :: "string list \<Rightarrow> exch_cfg \<Rightarrow> exch_cfg cpp" where
  "exch_parse [] c = Inr c"
| "exch_parse (a # as) c = cpp_bind
     (if starts_with ''--cpu='' a then cpp_bind (atoi (drop 6 a)) (\<lambda>v. Inr (c\<lparr>ec_cpu := v\<rparr>))
      else if a = ''--pin=on'' then Inr (c\<lparr>ec_pin := True\<rparr>)
      else if a = ''--pin=off'' then Inr (c\<lparr>ec_pin := False\<rparr>)
      else if a = ''--rt=on'' then Inr (c\<lparr>ec_rt := True\<rparr>)
      else if starts_with ''--rtprio='' a then cpp_bind (atoi (drop 9 a)) (\<lambda>v. Inr (c\<lparr>ec_rt_prio := v\<rparr>))
      else Inr c) (exch_parse as)"

section \<open>Replies\<close>

definition out_cap :: nat where
  "out_cap = 512"

text \<open>
  \<^verbatim>\<open>send_msg\<close>: \<^verbatim>\<open>seq++\<close> happens when field 34 is added, so the caller's body function, which captures
  \<^verbatim>\<open>seq\<close> by reference, sees the incremented number.
\<close>

definition send_msg :: "wall_clock \<Rightarrow> u64 \<Rightarrow> string \<Rightarrow> (u64 \<Rightarrow> (int \<times> string) list) \<Rightarrow> (string \<times> u64) cpp" where
  "send_msg clock sq mtype body =
     cpp_bind (utc_timestamp (fst (clock sq)) (snd (clock sq))) (\<lambda>ts.
     cpp_bind (builder_add 35 mtype (builder_reset [])) (\<lambda>b1.
     cpp_bind (builder_add 49 ''EXCHANGE'' b1) (\<lambda>b2.
     cpp_bind (builder_add 56 ''TRADER'' b2) (\<lambda>b3.
     cpp_bind (builder_add_int 34 (sint sq) b3) (\<lambda>b4.
     let sq' = sq + 1 in
     cpp_bind (builder_add 52 ts b4) (\<lambda>b5.
     cpp_bind (builder_adds (body sq') b5) (\<lambda>b6.
     cpp_bind (finalize out_cap b6) (\<lambda>msg. Inr (msg, sq')))))))))"

definition logon_body :: "u64 \<Rightarrow> (int \<times> string) list" where
  "logon_body sq = [(98, to_chars 0), (108, to_chars 30)]"

definition or_default :: "string \<Rightarrow> string \<Rightarrow> string" where
  "or_default d v = (if v = [] then d else v)"

definition fill_body :: "string \<Rightarrow> u64 \<Rightarrow> (int \<times> string) list" where
  "fill_body msg sq =
     (let clordid = view_get msg 11; sym = view_get msg 55; side = view_get msg 54;
          qty = view_get msg 38; px = view_get msg 44
      in [(37, to_chars (sint sq)), (11, clordid), (17, to_chars (sint sq)), (150, ''2''), (39, ''2''),
          (55, or_default ''NIFTY'' sym), (54, or_default ''1'' side), (38, or_default ''1'' qty),
          (32, or_default ''1'' qty), (31, or_default ''0'' px)])"

text \<open>The body of the inner loop of \<^verbatim>\<open>handle\<close>: the reply to one message, if any.\<close>

definition exch_reply :: "wall_clock \<Rightarrow> string \<Rightarrow> u64 \<Rightarrow> (string list \<times> u64) cpp" where
  "exch_reply clock msg sq =
     (let mtype = view_get msg 35;
          sent = (\<lambda>r. cpp_bind r (\<lambda>(m, sq'). Inr ([m], sq')))
      in if mtype = ''A'' then sent (send_msg clock sq ''A'' logon_body)
         else if mtype = ''D'' then sent (send_msg clock sq ''8'' (fill_body msg))
         else if mtype = ''1'' then sent (send_msg clock sq ''0'' (\<lambda>_. []))
         else Inr ([], sq))"

fun exch_replies :: "wall_clock \<Rightarrow> string list \<Rightarrow> u64 \<Rightarrow> (string list \<times> u64) cpp" where
  "exch_replies clock [] sq = Inr ([], sq)"
| "exch_replies clock (m # ms) sq =
     cpp_bind (exch_reply clock m sq) (\<lambda>(out1, sq1).
     cpp_bind (exch_replies clock ms sq1) (\<lambda>(out2, sq2). Inr (out1 @ out2, sq2)))"

text \<open>
  The outer loop of \<^verbatim>\<open>handle\<close> over the chunks received until the peer closes; \<open>None\<close> when the inner
  loop does not end. The session starts with an empty framer and sequence number 1.
\<close>

fun exch_loop :: "wall_clock \<Rightarrow> string list \<Rightarrow> string \<Rightarrow> u64 \<Rightarrow> (string list \<times> string \<times> u64) cpp option" where
  "exch_loop clock [] buf sq = Some (Inr ([], buf, sq))"
| "exch_loop clock (c # cs) buf sq =
     Option.bind (framer_drain (framer_append c buf)) (\<lambda>(ms, buf1).
       (case exch_replies clock ms sq of
          Inl e \<Rightarrow> Some (Inl e)
        | Inr (out1, sq1) \<Rightarrow>
            Option.bind (exch_loop clock cs buf1 sq1) (\<lambda>r.
              Some (cpp_bind r (\<lambda>(out2, buf2, sq2). Inr (out1 @ out2, buf2, sq2))))))"

text \<open>
  A whole connection: the thread's attributes and set-up messages, the calls on the descriptor, and
  the outcome of the loop. The descriptor is closed when the loop is left.
\<close>

record exch_handled =
  xh_thread :: thread_attr
  xh_log :: "core_log list"
  xh_calls :: "ncall list"
  xh_out :: "(string list \<times> string \<times> u64) cpp option"

definition session_ended :: "'a cpp option \<Rightarrow> bool" where
  "session_ended r \<longleftrightarrow> (case r of Some (Inr x) \<Rightarrow> True | _ \<Rightarrow> False)"

definition exch_handle :: "os \<Rightarrow> exch_cfg \<Rightarrow> wall_clock \<Rightarrow> int \<Rightarrow> string list \<Rightarrow> thread_attr \<Rightarrow> exch_handled" where
  "exch_handle k c clock fd chunks th =
     (let (th', lg) = setup_core k ''exchange'' (ec_pin c) (ec_rt c) (ec_rt_prio c) (ec_cpu c) th;
          r = exch_loop clock chunks [] 1
      in \<lparr>xh_thread = th', xh_log = lg,
          xh_calls = set_nodelay fd @ try_busy_poll fd @ (if session_ended r then [CClose fd] else []),
          xh_out = r\<rparr>)"

section \<open>The process\<close>

text \<open>
  \<^verbatim>\<open>main\<close> and its signal handler. What happens at the blocking \<^verbatim>\<open>accept\<close>: the signal arrives (the
  handler shuts the listening socket down, so \<^verbatim>\<open>accept\<close> fails), it fails for another reason, or a
  client connects; then \<open>cl_chunks\<close> is what the handler reads until it leaves its loop and \<open>cl_signal\<close>
  says whether the signal arrived meanwhile.
\<close>

record exch_client =
  cl_fd :: int
  cl_clock :: wall_clock
  cl_chunks :: "string list"
  cl_signal :: bool

datatype acc_event = Acc_signal | Acc_error | Acc_client exch_client

record exch_proc =
  g_run :: bool
  g_listen_fd :: int
  x_calls :: "ncall list"

definition exch_on_signal :: "exch_proc \<Rightarrow> exch_proc" where
  "exch_on_signal s =
     s\<lparr>g_run := False, x_calls := x_calls s @ (if 0 \<le> g_listen_fd s then [CShutdown (g_listen_fd s)] else [])\<rparr>"

text \<open>
  The accept loop. The last component says whether it was left: it is not when the events are used
  up (the process waits in \<^verbatim>\<open>accept\<close>) or a handler thread does not return.
\<close>

fun accept_loop :: "os \<Rightarrow> exch_cfg \<Rightarrow> thread_attr \<Rightarrow> acc_event list \<Rightarrow> exch_proc \<Rightarrow> exch_handled list \<times> exch_proc \<times> bool" where
  "accept_loop k c th [] s = ([], s, \<not> g_run s)"
| "accept_loop k c th (ev # evs) s =
     (if \<not> g_run s then ([], s, True)
      else case ev of
        Acc_signal \<Rightarrow>
          (let s1 = exch_on_signal s in ([], s1\<lparr>x_calls := x_calls s1 @ [CAccept (g_listen_fd s) (-1)]\<rparr>, True))
      | Acc_error \<Rightarrow> ([], s\<lparr>x_calls := x_calls s @ [CAccept (g_listen_fd s) (-1)]\<rparr>, True)
      | Acc_client cl \<Rightarrow>
          (let h = exch_handle k c (cl_clock cl) (cl_fd cl) (cl_chunks cl) th;
               s1 = s\<lparr>x_calls := x_calls s @ [CAccept (g_listen_fd s) (cl_fd cl)] @ xh_calls h\<rparr>;
               s2 = (if cl_signal cl then exch_on_signal s1 else s1)
           in if session_ended (xh_out h) then
                (let (hs, s3, left) = accept_loop k c th evs s2 in (h # hs, s3, left))
              else ([h], s2, False)))"

text \<open>The exit status (none while the process runs), the connections served and the calls made.\<close>

definition exch_main :: "os \<Rightarrow> thread_attr \<Rightarrow> string list \<Rightarrow> int \<Rightarrow> bool \<Rightarrow> bool \<Rightarrow> acc_event list
    \<Rightarrow> (int option \<times> exch_handled list \<times> ncall list) cpp" where
  "exch_main k th args fd bound listening evs =
     cpp_bind (exch_parse args exch_cfg_default) (\<lambda>c.
     let (lfd, calls) = listen_tcp fd bound listening ''127.0.0.1'' kExchangePort in
     if lfd < 0 then Inr (Some 1, [], calls)
     else let (hs, s, left) = accept_loop k c th evs \<lparr>g_run = True, g_listen_fd = lfd, x_calls = calls\<rparr>
          in Inr (if left then (Some 0, hs, x_calls s @ [CClose lfd]) else (None, hs, x_calls s)))"

section \<open>Facts\<close>

lemma view_scan_clean: "SOH \<notin> set (view_scan msg tag i)"
proof (induction msg tag i rule: view_scan.induct)
  case (1 msg tag i)
  show ?case
  proof (cases "i < length msg")
    case True
    show ?thesis
    proof (cases "str_find msg ''='' i")
      case (Some eq)
      let ?soh = "case str_find msg [SOH] (eq + 1) of None \<Rightarrow> length msg | Some k \<Rightarrow> k"
      have "SOH \<notin> set (substr msg (eq + 1) (?soh - eq - 1))"
      proof (cases "str_find msg [SOH] (eq + 1)")
        case None
        then show ?thesis
          using str_find_bound [OF Some]
          by (auto simp: str_find_def find_char_none substr_def dest: in_set_takeD split: if_splits)
      next
        case soh: (Some k)
        then have "find_in [SOH] (drop (eq + 1) msg) = Some (k - eq - 1)"
          by (auto simp: str_find_def split: if_splits)
        then show ?thesis using find_char_Some soh by (auto simp: substr_def)
      qed
      then show ?thesis
        using 1 [OF True Some] True Some by (subst view_scan.simps) (auto simp: Let_def)
    qed (use True in \<open>subst view_scan.simps, simp\<close>)
  qed (subst view_scan.simps, simp)
qed

lemma view_get_clean [simp]: "SOH \<notin> set (view_get msg tag)"
  by (simp add: view_get_def view_scan_clean)

lemma to_chars_clean [simp]: "SOH \<notin> set (to_chars v)"
  using to_chars_special(2) by (simp add: SOH_def)

lemma to_chars_i64_length: "i64_ok v \<Longrightarrow> length (to_chars v) \<le> 20"
  using nat_str_length [of "nat v" 19] nat_str_length [of "nat (- v)" 19]
  by (auto simp: to_chars_def i64_defs nat_less_iff)

lemma sint_ok: "i64_ok (sint (w :: u64))"
  using sint_ge [of w] sint_lt [of w] by (simp add: i64_defs)

definition msg_fields :: "string \<Rightarrow> u64 \<Rightarrow> string \<Rightarrow> (u64 \<Rightarrow> (int \<times> string) list) \<Rightarrow> (int \<times> string) list" where
  "msg_fields ts sq mtype body =
     [(35, mtype), (49, ''EXCHANGE''), (56, ''TRADER''), (34, to_chars (sint sq)), (52, ts)] @ body (sq + 1)"

lemma builder_adds_append:
  "builder_adds (fs @ gs) b = cpp_bind (builder_adds fs b) (builder_adds gs)"
proof (induction fs arbitrary: b)
  case (Cons f fs)
  obtain t v where "f = (t, v)" by (cases f)
  then show ?case using Cons by (cases "builder_add t v b") simp_all
qed simp

lemma send_msg_build:
  "send_msg clock sq mtype body =
     cpp_bind (utc_timestamp (fst (clock sq)) (snd (clock sq))) (\<lambda>ts.
     cpp_bind (builder_adds (msg_fields ts sq mtype body) []) (\<lambda>b.
     cpp_bind (finalize out_cap b) (\<lambda>msg. Inr (msg, sq + 1))))"
  unfolding send_msg_def msg_fields_def builder_adds_append
  by (auto simp: builder_reset_def builder_add_int_def Let_def cpp_bind_def split: sum.splits)

text \<open>A message built from a list of fields, as \<^verbatim>\<open>View\<close> sees it.\<close>

definition built_from :: "nat \<Rightarrow> (int \<times> string) list \<Rightarrow> string \<Rightarrow> bool" where
  "built_from cap fs msg \<longleftrightarrow> fields_ok fs \<and> builder_adds fs [] = Inr (field_seq fs) \<and>
     finalize cap (field_seq fs) = Inr msg"

lemma built_from_intro:
  assumes "fields_ok fs" "length (field_seq fs) \<le> body_cap" "503 \<le> cap"
  shows "\<exists>msg. builder_adds fs [] = Inr (field_seq fs) \<and> finalize cap (field_seq fs) = Inr msg \<and> built_from cap fs msg"
proof -
  have "length (nat_str (length (field_seq fs))) \<le> 3"
    using nat_str_length [of "length (field_seq fs)" 3] assms(2) by (simp add: body_cap_def)
  then show ?thesis
    using assms builder_adds_spec [OF assms(1), of "[]"]
    by (simp add: built_from_def finalize_cases body_cap_def)
qed

lemma built_from_get:
  assumes "built_from cap fs msg" "tag \<notin> {8, 9, 10}"
  shows "view_get msg tag = (case map_of fs tag of None \<Rightarrow> [] | Some v \<Rightarrow> v)"
  using built_view(1) [of fs "field_seq fs" cap msg tag] assms by (simp add: built_from_def)

lemma built_from_get_int:
  assumes "built_from cap fs msg" "tag \<notin> {8, 9}" "map_of fs tag = Some (to_chars v)" "i64_ok v"
  shows "view_get_int msg tag d = v"
  using built_view(2) [of fs "field_seq fs" cap msg tag v d] assms by (simp add: built_from_def)

lemma built_from_frame: "built_from cap fs msg \<Longrightarrow> is_frame msg"
  using builder_adds_spec [of fs "[]"] finalize_frame [of cap "field_seq fs" msg]
  by (cases "fs = []") (auto simp: built_from_def body_cap_def split: if_splits)

definition clock_ok :: "wall_clock \<Rightarrow> bool" where
  "clock_ok clock \<longleftrightarrow> (\<forall>n. tm_ok (fst (clock n)) \<and> 0 \<le> snd (clock n) \<and> snd (clock n) < 10 ^ 9)"

lemma field_length: "tag_ok t \<Longrightarrow> t < 1000 \<Longrightarrow> length (field t v) \<le> 5 + length v"
  using nat_str_length [of "nat t" 3] by (simp add: field_def to_chars_def tag_ok_def nat_less_iff)

lemma send_msg_ok:
  assumes "clock_ok clock" "length mtype = 1" "SOH \<notin> set mtype" "fields_ok (body (sq + 1))"
    "length (field_seq (body (sq + 1))) \<le> 400"
  shows "\<exists>ts msg. send_msg clock sq mtype body = Inr (msg, sq + 1) \<and> built_from out_cap (msg_fields ts sq mtype body) msg"
proof -
  obtain ts where ts: "utc_timestamp (fst (clock sq)) (snd (clock sq)) = Inr ts" "length ts = 21" "SOH \<notin> set ts"
    using utc_timestamp_ok assms(1) unfolding clock_ok_def SOH_def by blast
  let ?fs = "msg_fields ts sq mtype body"
  have l34: "length (to_chars (sint sq)) \<le> 20" by (rule to_chars_i64_length [OF sint_ok])
  have ok: "fields_ok ?fs"
    using assms(3,4) ts(3) by (simp add: fields_ok_def msg_fields_def tag_ok_def) (simp add: SOH_def)
  have "length (field_seq ?fs) \<le> body_cap"
    using assms(2,5) ts(2) l34 by (simp add: msg_fields_def body_cap_def field_def to_chars_def nat_str.simps)
  from built_from_intro [OF ok this, of out_cap] obtain msg where
    m: "builder_adds ?fs [] = Inr (field_seq ?fs)" "finalize out_cap (field_seq ?fs) = Inr msg" "built_from out_cap ?fs msg"
    by (auto simp: out_cap_def)
  then have "send_msg clock sq mtype body = Inr (msg, sq + 1)" by (simp add: send_msg_build ts(1))
  with m show ?thesis by blast
qed

section \<open>Replies and sessions\<close>

definition fill_fits :: "string \<Rightarrow> bool" where
  "fill_fits msg \<longleftrightarrow> length (view_get msg 11) + length (view_get msg 55) + length (view_get msg 54) +
     2 * length (view_get msg 38) + length (view_get msg 44) \<le> 300"

lemma or_default_props: "SOH \<notin> set d \<Longrightarrow> SOH \<notin> set v \<Longrightarrow> SOH \<notin> set (or_default d v)"
  "length (or_default d v) \<le> length d + length v"
  by (simp_all add: or_default_def)

lemma fill_body_ok:
  assumes "fill_fits msg"
  shows "fields_ok (fill_body msg sq)" "length (field_seq (fill_body msg sq)) \<le> 400"
proof -
  show "fields_ok (fill_body msg sq)"
    by (simp add: fields_ok_def fill_body_def Let_def tag_ok_def or_default_props)
      (simp add: SOH_def or_default_def view_get_clean [unfolded SOH_def])
  have lits: "to_chars 37 = ''37''" "to_chars 11 = ''11''" "to_chars 17 = ''17''" "to_chars 150 = ''150''"
    "to_chars 39 = ''39''" "to_chars 55 = ''55''" "to_chars 54 = ''54''" "to_chars 38 = ''38''"
    "to_chars 32 = ''32''" "to_chars 31 = ''31''"
    by (simp_all add: to_chars_def nat_str.simps digit_char_def char_of_eq_iff)
  show "length (field_seq (fill_body msg sq)) \<le> 400"
    using assms to_chars_i64_length [OF sint_ok [of sq]]
      or_default_props(2) [of "''NIFTY''" "view_get msg 55"] or_default_props(2) [of "''1''" "view_get msg 54"]
      or_default_props(2) [of "''1''" "view_get msg 38"] or_default_props(2) [of "''0''" "view_get msg 44"]
    by (simp add: fill_body_def Let_def field_def fill_fits_def lits)
qed

lemma simple_bodies_ok:
  "fields_ok (logon_body sq)" "length (field_seq (logon_body sq)) \<le> 400"
  by (simp add: logon_body_def fields_ok_def tag_ok_def)
    (simp add: logon_body_def field_def to_chars_def nat_str.simps)

definition wants_reply :: "string \<Rightarrow> bool" where
  "wants_reply msg \<longleftrightarrow> view_get msg 35 \<in> {''A'', ''D'', ''1''}"

lemma exch_reply_cases:
  assumes c: "clock_ok clock" and fit: "view_get msg 35 = ''D'' \<longrightarrow> fill_fits msg"
  obtains (ignore) "\<not> wants_reply msg" "exch_reply clock msg sq = Inr ([], sq)"
  | (reply) ts mtype body m where "wants_reply msg" "exch_reply clock msg sq = Inr ([m], sq + 1)"
      "built_from out_cap (msg_fields ts sq mtype body) m"
      "view_get msg 35 = ''D'' \<longrightarrow> mtype = ''8'' \<and> body = fill_body msg"
      "view_get msg 35 = ''A'' \<longrightarrow> mtype = ''A'' \<and> body = logon_body"
proof -
  have send: thesis
    if "wants_reply msg" "length mtype = 1" "SOH \<notin> set mtype" "fields_ok (body (sq + 1))"
      "length (field_seq (body (sq + 1))) \<le> 400"
      "\<And>m. send_msg clock sq mtype body = Inr (m, sq + 1) \<Longrightarrow> exch_reply clock msg sq = Inr ([m], sq + 1)"
      "view_get msg 35 = ''D'' \<longrightarrow> mtype = ''8'' \<and> body = fill_body msg"
      "view_get msg 35 = ''A'' \<longrightarrow> mtype = ''A'' \<and> body = logon_body" for mtype body
    using send_msg_ok [of clock mtype body sq, OF c that(2-5)] that(1,6,7,8) reply by blast
  consider "view_get msg 35 = ''A''" | "view_get msg 35 = ''D''" | "view_get msg 35 = ''1''" | "\<not> wants_reply msg"
    by (auto simp: wants_reply_def)
  then show thesis
  proof cases
    case 1
    then show ?thesis
      using simple_bodies_ok by (intro send [of "''A''" logon_body]) (simp_all add: wants_reply_def exch_reply_def SOH_def)
  next
    case 2
    then show ?thesis
      using fill_body_ok [OF mp [OF fit 2]]
      by (intro send [of "''8''" "fill_body msg"]) (simp_all add: wants_reply_def exch_reply_def SOH_def)
  next
    case 3
    then show ?thesis
      by (intro send [of "''0''" "\<lambda>_. []"]) (simp_all add: wants_reply_def exch_reply_def SOH_def fields_ok_def)
  next
    case 4
    then show ?thesis by (intro ignore) (auto simp: wants_reply_def exch_reply_def Let_def)
  qed
qed

lemma reply_seq: "built_from cap (msg_fields ts sq mtype body) m \<Longrightarrow> view_get_int m 34 d = sint sq"
  using built_from_get_int [of cap "msg_fields ts sq mtype body" m 34 "sint sq" d] sint_ok [of sq]
  by (simp add: msg_fields_def)

lemma exch_replies_ok:
  assumes c: "clock_ok clock" and fit: "\<And>m. m \<in> set ms \<Longrightarrow> view_get m 35 = ''D'' \<Longrightarrow> fill_fits m"
    and "n + length ms < 2 ^ 63"
  shows "\<exists>out. exch_replies clock ms (of_nat n) = Inr (out, of_nat (n + length out)) \<and>
    length out = length (filter wants_reply ms) \<and> list_all is_frame out \<and>
    map (\<lambda>r. view_get_int r 34 0) out = map int [n..<n + length out]"
  using assms(2,3)
proof (induction ms arbitrary: n)
  case (Cons m ms)
  have f: "view_get m 35 = ''D'' \<longrightarrow> fill_fits m" using Cons.prems(1) by simp
  show ?case
  proof (cases rule: exch_reply_cases [OF c f, where sq = "of_nat n", consumes 0, case_names ignore reply])
    case ignore
    then show ?thesis using Cons.IH [of n] Cons.prems by auto
  next
    case (reply ts mtype body r)
    have "exch_reply clock m (of_nat n) = Inr ([r], of_nat (Suc n))" using reply(2) by (simp add: add.commute)
    moreover obtain out where "exch_replies clock ms (of_nat (Suc n)) = Inr (out, of_nat (Suc n + length out))"
      "length out = length (filter wants_reply ms)" "list_all is_frame out"
      "map (\<lambda>r. view_get_int r 34 0) out = map int [Suc n..<Suc n + length out]"
      using Cons.IH [of "Suc n"] Cons.prems by auto
    moreover have "view_get_int r 34 0 = int n" using reply_seq [OF reply(3)] Cons.prems(2) by (simp add: sint_of_nat_u64)
    moreover have "[n..<n + Suc (length out)] = n # [Suc n..<Suc n + length out]" for out :: "string list"
      by (subst upt_conv_Cons) simp_all
    ultimately show ?thesis
      using reply(1) built_from_frame [OF reply(3)] by (intro exI [of _ "r # out"]) simp
  qed
qed simp

lemma exch_replies_append:
  "exch_replies clock (ms @ ms') sq = cpp_bind (exch_replies clock ms sq) (\<lambda>(o1, s1).
     cpp_bind (exch_replies clock ms' s1) (\<lambda>(o2, s2). Inr (o1 @ o2, s2)))"
proof (induction ms arbitrary: sq)
  case (Cons m ms)
  show ?case
  proof (cases "exch_reply clock m sq")
    case (Inr r)
    obtain o1 s1 where r: "r = (o1, s1)" by (cases r)
    show ?thesis
      by (cases "exch_replies clock ms s1") (auto simp: Inr r Cons.IH cpp_bind_def split: sum.splits)
  qed simp
qed (auto simp: cpp_bind_def split: sum.splits)

lemma exch_loop_feed:
  "framer_feed cs buf = Some (ms, b) \<Longrightarrow> exch_replies clock ms sq = Inr (out, sq') \<Longrightarrow>
    exch_loop clock cs buf sq = Some (Inr (out, b, sq'))"
proof (induction cs arbitrary: buf ms sq out)
  case (Cons c cs)
  from Cons.prems(1) obtain ms1 b1 ms2 where d: "framer_drain (framer_append c buf) = Some (ms1, b1)"
    "framer_feed cs b1 = Some (ms2, b)" "ms = ms1 @ ms2" by (auto split: Option.bind_splits)
  from Cons.prems(2) obtain o1 s1 o2 where r: "exch_replies clock ms1 sq = Inr (o1, s1)"
    "exch_replies clock ms2 s1 = Inr (o2, sq')" "out = o1 @ o2"
    unfolding d(3) exch_replies_append by (auto simp: cpp_bind_eq_Inr_iff)
  show ?case using Cons.IH [OF d(2) r(2)] d r by simp
qed simp

lemma fill_reply:
  assumes "clock_ok clock" and msg: "built_from cap fs msg"
    and "map_of fs 35 = Some ''D''" "map_of fs 11 = Some (to_chars cid)" "i64_ok cid"
    and "map_of fs 55 = Some sy" "map_of fs 54 = Some sd" "map_of fs 38 = Some q" "map_of fs 44 = Some p"
    and "sy \<noteq> []" "sd \<noteq> []" "q \<noteq> []" "p \<noteq> []"
    and "length sy + length sd + 2 * length q + length p \<le> 280"
  shows "\<exists>r. exch_reply clock msg sq = Inr ([r], sq + 1) \<and> is_frame r \<and>
    view_get r 35 = ''8'' \<and> view_get_int r 11 0 = cid \<and> view_get r 55 = sy \<and> view_get r 54 = sd \<and>
    view_get r 38 = q \<and> view_get r 32 = q \<and> view_get r 31 = p \<and> view_get r 39 = ''2'' \<and>
    view_get_int r 34 0 = sint sq \<and> view_get_int r 37 0 = sint (sq + 1) \<and> view_get_int r 17 0 = sint (sq + 1)"
proof -
  have get: "view_get msg 35 = ''D''" "view_get msg 11 = to_chars cid" "view_get msg 55 = sy"
    "view_get msg 54 = sd" "view_get msg 38 = q" "view_get msg 44 = p"
    using built_from_get [OF msg] assms(3-) by simp_all
  have fit: "view_get msg 35 = ''D'' \<longrightarrow> fill_fits msg"
    using to_chars_i64_length [OF assms(5)] assms(14) by (simp add: fill_fits_def get)
  show ?thesis
  proof (cases rule: exch_reply_cases [OF assms(1) fit, where sq = sq, consumes 0, case_names ignore reply])
    case ignore
    then show ?thesis by (simp add: wants_reply_def get)
  next
    case (reply ts mtype body r)
    let ?fs = "msg_fields ts sq ''8'' (fill_body msg)"
    have b: "built_from out_cap ?fs r" using reply(3,4) get(1) by simp
    have "view_get r 35 = ''8''" "view_get r 55 = sy" "view_get r 54 = sd" "view_get r 38 = q"
      "view_get r 32 = q" "view_get r 31 = p" "view_get r 39 = ''2''"
      using built_from_get [OF b] assms(10-13)
      by (simp_all add: msg_fields_def fill_body_def Let_def get or_default_def)
    moreover have "view_get_int r 11 0 = cid"
      using built_from_get_int [OF b, of 11 cid 0] assms(5) by (simp add: msg_fields_def fill_body_def Let_def get)
    moreover have "view_get_int r 37 0 = sint (sq + 1)" "view_get_int r 17 0 = sint (sq + 1)"
      using built_from_get_int [OF b, of _ "sint (sq + 1)" 0] sint_ok [of "sq + 1"]
      by (simp_all add: msg_fields_def fill_body_def Let_def)
    ultimately show ?thesis using reply(2) reply_seq [OF b, of 0] built_from_frame [OF b] by blast
  qed
qed

section \<open>Properties\<close>

text \<open>
  A NewOrderSingle is filled: the exchange answers a message whose \<^verbatim>\<open>MsgType\<close> is \<^verbatim>\<open>D\<close> with one
  ExecutionReport, a complete frame, that echoes the client order id, symbol, side, quantity and
  price, has status filled and the next sequence number; order and execution id are the number
  after it.
\<close>

lemma exchange_fills_order:
  assumes "clock_ok clock" and msg: "built_from cap fs msg"
    and "map_of fs 35 = Some ''D''" "map_of fs 11 = Some (to_chars cid)" "i64_ok cid"
    and "map_of fs 55 = Some sy" "map_of fs 54 = Some sd" "map_of fs 38 = Some q" "map_of fs 44 = Some p"
    and "sy \<noteq> []" "sd \<noteq> []" "q \<noteq> []" "p \<noteq> []"
    and "length sy + length sd + 2 * length q + length p \<le> 280"
  shows "\<exists>r. exch_reply clock msg sq = Inr ([r], sq + 1) \<and> is_frame r \<and>
    view_get r 35 = ''8'' \<and> view_get_int r 11 0 = cid \<and> view_get r 55 = sy \<and> view_get r 54 = sd \<and>
    view_get r 38 = q \<and> view_get r 32 = q \<and> view_get r 31 = p \<and> view_get r 39 = ''2'' \<and>
    view_get_int r 34 0 = sint sq \<and> view_get_int r 37 0 = sint (sq + 1) \<and> view_get_int r 17 0 = sint (sq + 1)"
  using assms by (rule fill_reply)

definition sample_clock :: wall_clock where
  "sample_clock = (\<lambda>_. (\<lparr>tm_year = 124, tm_mon = 0, tm_mday = 15, tm_hour = 9, tm_min = 15, tm_sec = 0\<rparr>, 123000000))"

definition sample_fields :: "(int \<times> string) list" where
  "sample_fields = [(35, ''D''), (11, to_chars 7), (55, ''TCS''), (54, ''1''), (38, ''5000''), (44, ''10050'')]"

lemma sample_clock_ok: "clock_ok sample_clock"
  by (simp add: clock_ok_def sample_clock_def tm_ok_def)

lemma sample_built: "\<exists>msg. built_from 512 sample_fields msg"
proof -
  have "fields_ok sample_fields"
    by (simp add: fields_ok_def sample_fields_def tag_ok_def) (simp add: SOH_def)
  moreover have "length (field_seq sample_fields) \<le> body_cap"
    by (simp add: sample_fields_def field_def to_chars_def nat_str.simps body_cap_def)
  ultimately show ?thesis using built_from_intro [of sample_fields 512] by auto
qed

text \<open>The messages of a client that follows the protocol, in the chunks in which they arrive.\<close>

definition good_stream :: "string list \<Rightarrow> string list \<Rightarrow> bool" where
  "good_stream ms chunks \<longleftrightarrow> concat chunks = concat ms \<and> length ms < 2 ^ 62 \<and>
     (\<forall>m \<in> set ms. (\<exists>cap fs. built_from cap fs m) \<and> (view_get m 35 = ''D'' \<longrightarrow> fill_fits m))"

lemma session_ok:
  assumes "clock_ok clock" and "good_stream ms chunks"
  shows "\<exists>out sq. exch_loop clock chunks [] 1 = Some (Inr (out, [], sq)) \<and>
    length out = length (filter wants_reply ms) \<and> list_all is_frame out \<and>
    map (\<lambda>r. view_get_int r 34 0) out = map int [1..<1 + length out]"
proof -
  have g: "concat chunks = concat ms" "length ms < 2 ^ 62" "\<And>m. m \<in> set ms \<Longrightarrow> \<exists>cap fs. built_from cap fs m"
    "\<And>m. m \<in> set ms \<Longrightarrow> view_get m 35 = ''D'' \<Longrightarrow> fill_fits m" using assms(2) by (auto simp: good_stream_def)
  have fr: "list_all is_frame ms" using g(3) built_from_frame by (auto simp: list_all_iff)
  have und: "undelivered [] ms" using fr by (auto simp: undelivered_def is_frame_def split: list.splits)
  have feed: "framer_feed chunks [] = Some (ms, [])" by (rule framer_feed_stream) (use fr und g(1) in auto)
  obtain out where out: "exch_replies clock ms (of_nat 1) = Inr (out, of_nat (1 + length out))"
    "length out = length (filter wants_reply ms)" "list_all is_frame out"
    "map (\<lambda>r. view_get_int r 34 0) out = map int [1..<1 + length out]"
    using exch_replies_ok [of clock ms 1] assms(1) g(2,4) by auto
  then show ?thesis using exch_loop_feed [OF feed out(1)] by auto
qed

text \<open>
  C11. A whole session: whatever the chunks in which the client's messages arrive, \<^verbatim>\<open>handle\<close> ends
  after the last one with nothing left over, and has sent exactly one well-formed frame per
  logon, order and test request, numbered 1, 2, 3, \<open>\<dots>\<close> in the order of the requests.
\<close>

theorem exchange_session:
  assumes "clock_ok clock" and "good_stream ms chunks"
  shows "\<exists>out sq. xh_out (exch_handle k cfg clock fd chunks th) = Some (Inr (out, [], sq)) \<and>
    length out = length (filter wants_reply ms) \<and> list_all is_frame out \<and>
    map (\<lambda>r. view_get_int r 34 0) out = map int [1..<1 + length out]"
  using session_ok [OF assms] by (simp add: exch_handle_def case_prod_unfold Let_def)

definition sample_os :: os where
  "sample_os = \<lparr>os_setaff = (\<lambda>m _. Some m), os_getaff = True, os_fifo = (\<lambda>_. False)\<rparr>"

lemma sample_stream:
  "\<exists>msg. built_from 512 sample_fields msg \<and> good_stream [msg, msg] [take 5 msg, drop 5 msg @ msg] \<and> wants_reply msg"
proof -
  obtain msg where m: "built_from 512 sample_fields msg" using sample_built by blast
  have get: "view_get msg t = (case map_of sample_fields t of None \<Rightarrow> [] | Some v \<Rightarrow> v)" if "t \<notin> {8, 9, 10}" for t
    using built_from_get [OF m that] .
  have fit: "fill_fits msg" using get to_chars_i64_length [of 7] by (simp add: fill_fits_def sample_fields_def i64_defs)
  have "wants_reply msg" using get by (simp add: wants_reply_def sample_fields_def)
  then show ?thesis using m fit by (auto simp: good_stream_def)
qed

theorem exchange_session_witness:
  "\<exists>msg out sq. built_from 512 sample_fields msg \<and>
     xh_out (exch_handle sample_os exch_cfg_default sample_clock 5 [take 5 msg, drop 5 msg @ msg] \<lparr>th_mask = {0}, th_fifo = None\<rparr>)
       = Some (Inr (out, [], sq)) \<and>
     length out = 2"
proof -
  obtain msg where m: "built_from 512 sample_fields msg" "good_stream [msg, msg] [take 5 msg, drop 5 msg @ msg]" "wants_reply msg"
    using sample_stream by blast
  then show ?thesis using exchange_session [OF sample_clock_ok m(2)] by fastforce
qed

section \<open>The process as a whole\<close>

definition serve :: "os \<Rightarrow> exch_cfg \<Rightarrow> thread_attr \<Rightarrow> exch_client \<Rightarrow> exch_handled" where
  "serve k c th cl = exch_handle k c (cl_clock cl) (cl_fd cl) (cl_chunks cl) th"

definition good_client :: "int \<Rightarrow> exch_client \<Rightarrow> bool" where
  "good_client lfd cl \<longleftrightarrow> clock_ok (cl_clock cl) \<and> (\<exists>ms. good_stream ms (cl_chunks cl)) \<and> 0 \<le> cl_fd cl \<and> cl_fd cl \<noteq> lfd \<and>
     \<not> cl_signal cl"

lemma good_client_served:
  assumes "good_client lfd cl"
  shows "session_ended (xh_out (serve k c th cl))"
    and "open_fds (CAccept lfd (cl_fd cl) # xh_calls (serve k c th cl)) {lfd} = {lfd}"
    and "\<exists>out sq. xh_out (serve k c th cl) = Some (Inr (out, [], sq)) \<and> list_all is_frame out \<and>
      map (\<lambda>r. view_get_int r 34 0) out = map int [1..<1 + length out]"
proof -
  obtain out sq where o: "exch_loop (cl_clock cl) (cl_chunks cl) [] 1 = Some (Inr (out, [], sq))" "list_all is_frame out"
    "map (\<lambda>r. view_get_int r 34 0) out = map int [1..<1 + length out]"
    using session_ok assms unfolding good_client_def by blast
  then show "session_ended (xh_out (serve k c th cl))"
    "open_fds (CAccept lfd (cl_fd cl) # xh_calls (serve k c th cl)) {lfd} = {lfd}"
    using assms by (auto simp: serve_def exch_handle_def case_prod_unfold Let_def session_ended_def good_client_def fd_call_def)
  show "\<exists>out sq. xh_out (serve k c th cl) = Some (Inr (out, [], sq)) \<and> list_all is_frame out \<and>
      map (\<lambda>r. view_get_int r 34 0) out = map int [1..<1 + length out]"
    using o by (simp add: serve_def exch_handle_def case_prod_unfold Let_def)
qed

lemma accept_clients:
  assumes "g_run s" "list_all (good_client (g_listen_fd s)) cls"
  shows "\<exists>calls. open_fds calls {g_listen_fd s} = {g_listen_fd s} \<and>
    accept_loop k c th (map Acc_client cls @ evs) s =
      (let (hs, s', left) = accept_loop k c th evs (s\<lparr>x_calls := x_calls s @ calls\<rparr>) in (map (serve k c th) cls @ hs, s', left))"
  using assms
proof (induction cls arbitrary: s)
  case Nil
  then show ?case by (intro exI [of _ "[]"]) (simp add: case_prod_unfold Let_def)
next
  case (Cons cl cls)
  let ?calls = "CAccept (g_listen_fd s) (cl_fd cl) # xh_calls (serve k c th cl)"
  let ?s = "s\<lparr>x_calls := x_calls s @ ?calls\<rparr>"
  have g: "good_client (g_listen_fd s) cl" using Cons.prems(2) by simp
  note G = good_client_served [OF g, of k c th]
  obtain calls where IH: "open_fds calls {g_listen_fd s} = {g_listen_fd s}"
    "accept_loop k c th (map Acc_client cls @ evs) ?s =
      (let (hs, s', left) = accept_loop k c th evs (?s\<lparr>x_calls := x_calls ?s @ calls\<rparr>) in (map (serve k c th) cls @ hs, s', left))"
    using Cons.IH [of ?s] Cons.prems by auto
  have "accept_loop k c th (map Acc_client (cl # cls) @ evs) s =
      (let (hs, s', left) = accept_loop k c th (map Acc_client cls @ evs) ?s in (serve k c th cl # hs, s', left))"
    using Cons.prems(1) g G(1) by (simp add: serve_def Let_def good_client_def)
  then show ?case using IH(2) G(2) IH(1)
    by (intro exI [of _ "?calls @ calls"]) (simp add: case_prod_unfold Let_def)
qed

text \<open>
  C13. The exchange process: when it cannot listen it exits with status 1 and has closed its socket;
  otherwise it serves the clients one after the other, each as if it were the only one (its replies
  numbered from 1, nothing left over from the client before), and when the signal arrives it exits
  with status 0 and every descriptor closed.
\<close>

theorem exchange_process:
  assumes "exch_parse args exch_cfg_default = Inr c" and "list_all (good_client lfd) cls"
  shows "(\<not> (0 \<le> lfd \<and> bound \<and> listening) \<longrightarrow> (\<exists>calls. exch_main k th args lfd bound listening evs = Inr (Some 1, [], calls) \<and>
      open_fds calls {} = {})) \<and>
    (0 \<le> lfd \<longrightarrow> (\<exists>calls. exch_main k th args lfd True True (map Acc_client cls @ [Acc_signal]) =
      Inr (Some 0, map (serve k c th) cls, calls) \<and> open_fds calls {} = {})) \<and>
    (\<forall>cl \<in> set cls. \<exists>out sq. xh_out (serve k c th cl) = Some (Inr (out, [], sq)) \<and> list_all is_frame out \<and>
      map (\<lambda>r. view_get_int r 34 0) out = map int [1..<1 + length out])"
proof (intro conjI impI ballI)
  have "lfd \<notin> {}" by simp
  note L = sockets_no_leak [OF this, where ip = "''127.0.0.1''" and port = kExchangePort]
  show "\<exists>calls. exch_main k th args lfd bound listening evs = Inr (Some 1, [], calls) \<and> open_fds calls {} = {}"
    if "\<not> (0 \<le> lfd \<and> bound \<and> listening)"
  proof -
    have "fst (listen_tcp lfd bound listening ''127.0.0.1'' kExchangePort) = -1" using L(4) [where b = bound and l = listening] that by auto
    then show ?thesis using L(2) [where b = bound and l = listening] assms(1) by (simp add: exch_main_def case_prod_unfold Let_def)
  qed
  show "\<exists>calls. exch_main k th args lfd True True (map Acc_client cls @ [Acc_signal]) =
      Inr (Some 0, map (serve k c th) cls, calls) \<and> open_fds calls {} = {}" if lfd: "0 \<le> lfd"
  proof -
    let ?l = "listen_tcp lfd True True ''127.0.0.1'' kExchangePort"
    have l: "fst ?l = lfd" "open_fds (snd ?l) {} = {lfd}" using lfd L(2) [where b = True and l = True] by (simp_all add: listen_tcp_def)
    let ?s = "\<lparr>g_run = True, g_listen_fd = lfd, x_calls = snd ?l\<rparr>"
    obtain calls where c: "open_fds calls {lfd} = {lfd}"
      "accept_loop k c th (map Acc_client cls @ [Acc_signal]) ?s =
        (let (hs, s', left) = accept_loop k c th [Acc_signal] (?s\<lparr>x_calls := x_calls ?s @ calls\<rparr>) in (map (serve k c th) cls @ hs, s', left))"
      using accept_clients [of ?s cls k c th "[Acc_signal]"] assms(2) by auto
    then show ?thesis
      using assms(1) l lfd by (simp add: exch_main_def case_prod_unfold Let_def exch_on_signal_def fd_call_def)
  qed
  show "\<exists>out sq. xh_out (serve k c th cl) = Some (Inr (out, [], sq)) \<and> list_all is_frame out \<and>
      map (\<lambda>r. view_get_int r 34 0) out = map int [1..<1 + length out]" if "cl \<in> set cls" for cl
  proof (rule good_client_served(3))
    show "good_client lfd cl" using assms(2) that by (simp add: list_all_iff)
  qed
qed

theorem exchange_process_witness:
  "\<exists>cl calls. cl_chunks cl \<noteq> [] \<and> exch_main sample_os \<lparr>th_mask = {0}, th_fifo = None\<rparr> [''--pin=off''] 3 True True
     (map Acc_client [cl, cl] @ [Acc_signal]) =
       Inr (Some 0, map (serve sample_os exch_cfg_default \<lparr>th_mask = {0}, th_fifo = None\<rparr>) [cl, cl], calls) \<and> open_fds calls {} = {}"
proof -
  obtain msg where m: "good_stream [msg, msg] [take 5 msg, drop 5 msg @ msg]" using sample_stream by blast
  let ?cl = "\<lparr>cl_fd = 4, cl_clock = sample_clock, cl_chunks = [take 5 msg, drop 5 msg @ msg], cl_signal = False\<rparr>"
  have p: "exch_parse [''--pin=off''] exch_cfg_default = Inr exch_cfg_default"
    by (simp add: exch_parse.simps exch_cfg_default_def starts_with_def)
  have g: "list_all (good_client 3) [?cl, ?cl]" using m sample_clock_ok by (auto simp: good_client_def)
  have "0 \<le> (3 :: int) \<longrightarrow> (\<exists>calls. exch_main sample_os \<lparr>th_mask = {0}, th_fifo = None\<rparr> [''--pin=off''] 3 True True
      (map Acc_client [?cl, ?cl] @ [Acc_signal]) =
      Inr (Some 0, map (serve sample_os exch_cfg_default \<lparr>th_mask = {0}, th_fifo = None\<rparr>) [?cl, ?cl], calls) \<and> open_fds calls {} = {})"
    using exchange_process [OF p g, THEN conjunct2, THEN conjunct1] .
  then show ?thesis by (intro exI [of _ ?cl]) simp
qed

end
