(* ===== verification/Arena.thy ===== *)
theory Arena
  imports Interfaces
begin

text \<open>
  \<^verbatim>\<open>include/bump.hpp\<close> and \<^verbatim>\<open>include/huge.hpp\<close>: the two bump allocators. Addresses and sizes are
  64-bit words, so the address arithmetic wraps around as in the code; \<^verbatim>\<open>nullptr\<close> is the address 0
  in the state of \<^verbatim>\<open>HugeArena\<close> and \<open>None\<close> as a result. The kernel's \<^verbatim>\<open>mmap\<close> is a parameter: a
  function from the length and the flags of the request to the mapped address (\<open>None\<close> for
  \<^verbatim>\<open>MAP_FAILED\<close>).
\<close>

section \<open>BumpAllocator\<close>

record bump =
  bbase :: u64
  bsize :: u64
  boff :: u64

definition bump_new :: "u64 \<Rightarrow> u64 \<Rightarrow> bump" where
  "bump_new base sz = \<lparr>bbase = base, bsize = sz, boff = 0\<rparr>"

definition bump_alloc :: "u64 \<Rightarrow> u64 \<Rightarrow> bump \<Rightarrow> u64 option \<times> bump" where
  "bump_alloc n align b =
     (let cur = bbase b + boff b;
          aligned = (cur + (align - 1)) AND NOT (align - 1);
          new_off = (aligned - bbase b) + n
      in if new_off > bsize b then (None, b)
         else (Some (bbase b + (aligned - bbase b)), b\<lparr>boff := new_off\<rparr>))"

definition bump_make :: "u64 \<Rightarrow> u64 \<Rightarrow> 'a \<Rightarrow> bump \<Rightarrow> (u64 \<times> 'a) option \<times> bump" where
  "bump_make size_T align_T v b =
     (let (p, b') = bump_alloc size_T align_T b
      in (case p of None \<Rightarrow> None | Some a \<Rightarrow> Some (a, v), b'))"

definition bump_reset :: "bump \<Rightarrow> bump" where
  "bump_reset b = b\<lparr>boff := 0\<rparr>"

definition bump_used :: "bump \<Rightarrow> u64" where
  "bump_used b = boff b"

section \<open>HugeArena\<close>

definition kHugePageSize :: u64 where
  "kHugePageSize = push_bit 20 2"

definition MAP_PRIVATE :: u32 where "MAP_PRIVATE = 0x02"
definition MAP_ANONYMOUS :: u32 where "MAP_ANONYMOUS = 0x20"
definition MAP_POPULATE :: u32 where "MAP_POPULATE = 0x8000"
definition MAP_HUGETLB :: u32 where "MAP_HUGETLB = 0x40000"
definition MAP_HUGE_SHIFT :: nat where "MAP_HUGE_SHIFT = 26"

record harena =
  hbase :: u64
  hsize :: u64
  hoff :: u64
  huge_ok :: bool

datatype mcall = Mmap u64 u32 "u64 option" | Madvise u64 u64 | Munmap u64 u64

definition round_up :: "u64 \<Rightarrow> u64 \<Rightarrow> u64" where
  "round_up v a = (v + (a - 1)) AND NOT (a - 1)"

definition huge_new :: "(u64 \<Rightarrow> u32 \<Rightarrow> u64 option) \<Rightarrow> u64 \<Rightarrow> bool \<Rightarrow> harena \<times> mcall list" where
  "huge_new mmap bytes huge =
     (let sz = round_up bytes kHugePageSize;
          flags = MAP_PRIVATE OR MAP_ANONYMOUS OR MAP_POPULATE;
          hflags = flags OR MAP_HUGETLB OR push_bit MAP_HUGE_SHIFT 21;
          (base1, hok, calls1) =
            (if huge then
               (case mmap sz hflags of
                  Some p \<Rightarrow> (p, True, [Mmap sz hflags (Some p)])
                | None \<Rightarrow> (0, False, [Mmap sz hflags None]))
             else (0, False, []));
          (base2, calls2) =
            (if base1 = 0 then
               (case mmap sz flags of
                  Some p \<Rightarrow> (p, calls1 @ [Mmap sz flags (Some p)])
                | None \<Rightarrow> (0, calls1 @ [Mmap sz flags None]))
             else (base1, calls1));
          calls3 = (if base2 \<noteq> 0 then calls2 @ [Madvise base2 sz] else calls2)
      in (\<lparr>hbase = base2, hsize = sz, hoff = 0, huge_ok = hok\<rparr>, calls3))"

definition huge_free :: "harena \<Rightarrow> mcall list" where
  "huge_free h = (if hbase h \<noteq> 0 then [Munmap (hbase h) (hsize h)] else [])"

definition huge_alloc :: "u64 \<Rightarrow> u64 \<Rightarrow> harena \<Rightarrow> u64 option \<times> harena" where
  "huge_alloc n align h =
     (let cur = hbase h + hoff h;
          aligned = (cur + (align - 1)) AND NOT (align - 1);
          new_off = (aligned - hbase h) + n
      in if hbase h = 0 \<or> new_off > hsize h then (None, h)
         else (Some aligned, h\<lparr>hoff := new_off\<rparr>))"

definition huge_is_ok :: "harena \<Rightarrow> bool" where
  "huge_is_ok h \<longleftrightarrow> hbase h \<noteq> 0"

definition using_hugepages :: "harena \<Rightarrow> bool" where
  "using_hugepages h = huge_ok h"

definition huge_size :: "harena \<Rightarrow> u64" where
  "huge_size h = hsize h"

section \<open>The address computation without wrap-around\<close>

definition arena_fits :: "u64 \<Rightarrow> u64 \<Rightarrow> nat \<Rightarrow> bool" where
  "arena_fits n a end_addr \<longleftrightarrow> a \<noteq> 0 \<and> pow2_assert a \<and> end_addr + unat a + unat n \<le> 2 ^ 64"

definition bump_ok :: "bump \<Rightarrow> bool" where
  "bump_ok b \<longleftrightarrow> boff b \<le> bsize b"

definition huge_arena_ok :: "harena \<Rightarrow> bool" where
  "huge_arena_ok h \<longleftrightarrow> hbase h \<noteq> 0 \<and> hoff h \<le> hsize h"

lemma alloc_arith:
  fixes base off sz n a :: u64
  assumes off: "off \<le> sz" and f: "arena_fits n a (unat base + unat sz)"
  defines "al \<equiv> align_up (base + off) a"
  shows "unat al = ((unat base + unat off + unat a - 1) div unat a) * unat a"
    and "unat a dvd unat al" and "unat base + unat off \<le> unat al"
    and "unat base + unat ((al - base) + n) = unat al + unat n"
    and "base + (al - base) = al"
proof -
  have a: "a \<noteq> 0" "pow2_assert a" and ov: "unat base + unat sz + unat a + unat n \<le> 2 ^ 64"
    using f by (auto simp: arena_fits_def)
  have o: "unat off \<le> unat sz" using off by (simp add: word_le_nat_alt)
  have apos: "0 < unat a" using a(1) by (simp add: unat_gt_0)
  have cur: "unat (base + off) = unat base + unat off"
    using ov o apos by (simp add: unat_add_lem [THEN iffD1])
  have ov': "unat (base + off) + unat a \<le> 2 ^ 64" using ov o cur by linarith
  note sp = align_up_spec [OF a ov', folded al_def, unfolded cur]
  show "unat al = ((unat base + unat off + unat a - 1) div unat a) * unat a"
    using align_up_nat [OF a ov'] by (simp add: al_def cur)
  show "unat a dvd unat al" "unat base + unat off \<le> unat al" using sp by simp_all
  have ge: "base \<le> al" using sp(2) by (simp add: word_le_nat_alt)
  have lt: "unat al - unat base + unat n < 2 ^ 64" using sp o ov by linarith
  then have "unat ((al - base) + n) = (unat al - unat base) + unat n"
    using ge by (simp add: unat_add_lem [THEN iffD1] unat_sub)
  then show "unat base + unat ((al - base) + n) = unat al + unat n" using sp(2) by simp
  show "base + (al - base) = al" by simp
qed

lemma bump_alloc_align:
  "bump_alloc n a b = (let al = align_up (bbase b + boff b) a; new_off = (al - bbase b) + n
     in if new_off > bsize b then (None, b) else (Some (bbase b + (al - bbase b)), b\<lparr>boff := new_off\<rparr>))"
  by (simp add: bump_alloc_def align_up_def Let_def)

lemma huge_alloc_align:
  "huge_alloc n a h = (let al = align_up (hbase h + hoff h) a; new_off = (al - hbase h) + n
     in if hbase h = 0 \<or> new_off > hsize h then (None, h) else (Some al, h\<lparr>hoff := new_off\<rparr>))"
  by (simp add: huge_alloc_def align_up_def Let_def)

interpretation bump: arena bump_alloc "\<lambda>b. unat (bbase b)" "\<lambda>b. unat (boff b)" "\<lambda>b. unat (bsize b)"
  arena_fits bump_ok
proof unfold_locales
  fix b :: bump and n a p :: u64
  show "unat (bbase (snd (bump_alloc n a b))) = unat (bbase b) \<and>
      unat (bsize (snd (bump_alloc n a b))) = unat (bsize b)"
    by (simp add: bump_alloc_def Let_def)
  assume ok: "bump_ok b"
  show "snd (bump_alloc n a b) = b" if "fst (bump_alloc n a b) = None"
    using that by (simp add: bump_alloc_def Let_def split: if_splits)
  assume f: "arena_fits n a (unat (bbase b) + unat (bsize b))"
  have le: "boff b \<le> bsize b" using ok by (simp add: bump_ok_def)
  note A = alloc_arith [OF le f]
  show "bump_ok (snd (bump_alloc n a b))" using ok by (auto simp: bump_alloc_align bump_ok_def Let_def)
  show "fst (bump_alloc n a b) = None \<longleftrightarrow> unat (bbase b) + unat (bsize b) <
      ((unat (bbase b) + unat (boff b) + unat a - 1) div unat a) * unat a + unat n"
    using A(1,4) by (simp add: bump_alloc_align Let_def word_less_nat_alt)
  show "unat a dvd unat p \<and> unat (bbase b) + unat (boff b) \<le> unat p \<and>
      unat (bbase b) + unat (boff (snd (bump_alloc n a b))) = unat p + unat n \<and>
      unat (boff (snd (bump_alloc n a b))) \<le> unat (bsize b)"
    if "fst (bump_alloc n a b) = Some p"
    using that A(2-5) by (auto simp: bump_alloc_align Let_def word_less_nat_alt split: if_splits)
qed

interpretation huge: arena huge_alloc "\<lambda>b. unat (hbase b)" "\<lambda>b. unat (hoff b)" "\<lambda>b. unat (hsize b)"
  arena_fits huge_arena_ok
proof unfold_locales
  fix b :: harena and n a p :: u64
  show "unat (hbase (snd (huge_alloc n a b))) = unat (hbase b) \<and>
      unat (hsize (snd (huge_alloc n a b))) = unat (hsize b)"
    by (simp add: huge_alloc_def Let_def)
  assume ok: "huge_arena_ok b"
  show "snd (huge_alloc n a b) = b" if "fst (huge_alloc n a b) = None"
    using that by (auto simp: huge_alloc_def Let_def split: if_splits)
  assume f: "arena_fits n a (unat (hbase b) + unat (hsize b))"
  have le: "hoff b \<le> hsize b" and nn: "hbase b \<noteq> 0" using ok by (simp_all add: huge_arena_ok_def)
  note A = alloc_arith [OF le f]
  show "huge_arena_ok (snd (huge_alloc n a b))" using ok by (auto simp: huge_alloc_align huge_arena_ok_def Let_def)
  show "fst (huge_alloc n a b) = None \<longleftrightarrow> unat (hbase b) + unat (hsize b) <
      ((unat (hbase b) + unat (hoff b) + unat a - 1) div unat a) * unat a + unat n"
    using A(1,4) nn by (simp add: huge_alloc_align Let_def word_less_nat_alt)
  show "unat a dvd unat p \<and> unat (hbase b) + unat (hoff b) \<le> unat p \<and>
      unat (hbase b) + unat (hoff (snd (huge_alloc n a b))) = unat p + unat n \<and>
      unat (hoff (snd (huge_alloc n a b))) \<le> unat (hsize b)"
    if "fst (huge_alloc n a b) = Some p"
    using that A(2-4) nn by (auto simp: huge_alloc_align Let_def word_less_nat_alt split: if_splits)
qed

section \<open>What the clients of the arenas get\<close>

text \<open>
  C32. The blocks a \<^verbatim>\<open>BumpAllocator\<close> hands out in a sequence of requests are aligned, lie inside the block it was
  given, and each lies wholly above the previous ones, so that no two overlap, provided that every requested alignment is a
  power of two and that the end of the given block, the alignment and the size together do not exceed \<open>2 ^ 64\<close>. The
  second condition is needed: a request whose size wraps the new offset around is granted, and the next one gets an address that
  is in use.
\<close>

theorem bump_blocks_disjoint:
  shows "((\<forall>(n, a) \<in> set rs. a \<noteq> 0 \<and> pow2_assert a \<and> unat base + unat sz + unat a + unat n \<le> 2 ^ 64) \<longrightarrow>
      list_all (block_within (unat base) (unat base + unat sz)) (fst (alloc_run bump_alloc rs (bump_new base sz))) \<and>
      sorted_wrt block_below (fst (alloc_run bump_alloc rs (bump_new base sz)))) \<and>
    fst (alloc_run bump_alloc [(8, 1), (2 ^ 64 - 8, 1), (8, 1)] (bump_new 0x1000 64)) =
      [(8, 1, 0x1000), (2 ^ 64 - 8, 1, 0x1008), (8, 1, 0x1000)]"
proof (intro conjI impI)
  assume "\<forall>(n, a) \<in> set rs. a \<noteq> 0 \<and> pow2_assert a \<and> unat base + unat sz + unat a + unat n \<le> 2 ^ 64"
  then have f: "arena_fits n a (unat base + unat sz)" if "(n, a) \<in> set rs" for n a
    using that by (auto simp: arena_fits_def)
  show "list_all (block_within (unat base) (unat base + unat sz)) (fst (alloc_run bump_alloc rs (bump_new base sz)))"
    "sorted_wrt block_below (fst (alloc_run bump_alloc rs (bump_new base sz)))"
    using bump.alloc_run_blocks [of "bump_new base sz" rs] f by (simp_all add: bump_new_def bump_ok_def)
qed (simp add: bump_alloc_def bump_new_def)

theorem bump_blocks_disjoint_witness:
  "fst (alloc_run bump_alloc [(10, 8), (4, 16), (100, 1)] (bump_new 0x1001 64)) = [(10, 8, 0x1008), (4, 16, 0x1020)] \<and>
   sorted_wrt block_below [(10, 8, 0x1008), (4, 16, 0x1020)]"
proof -
  have e: "fst (alloc_run bump_alloc [(10, 8), (4, 16), (100, 1)] (bump_new 0x1001 64)) = [(10, 8, 0x1008), (4, 16, 0x1020)]"
    by (simp add: bump_alloc_def bump_new_def)
  have "\<forall>(n, a) \<in> set [(10, 8), (4, 16), (100, 1 :: u64) :: u64 \<times> u64]. a \<noteq> 0 \<and> pow2_assert a \<and>
      unat (0x1001 :: u64) + unat (64 :: u64) + unat a + unat n \<le> 2 ^ 64"
    by (simp add: pow2_assert_def)
  then have "sorted_wrt block_below (fst (alloc_run bump_alloc [(10, 8), (4, 16), (100, 1)] (bump_new 0x1001 64)))"
    using bump_blocks_disjoint [of "[(10, 8), (4, 16), (100, 1)]" "0x1001" "64"] by blast
  with e show ?thesis by metis
qed

text \<open>
  A \<^verbatim>\<open>BumpAllocator\<close> refuses a request exactly when the aligned block would end past its size;
  a refused request changes nothing, and after \<^verbatim>\<open>reset\<close> the whole block is available again.
\<close>

lemma bump_refuses_iff:
  assumes "boff b \<le> bsize b" and "arena_fits n a (unat (bbase b) + unat (bsize b))"
  shows "(fst (bump_alloc n a b) = None \<longleftrightarrow> unat (bbase b) + unat (bsize b) <
      ((unat (bbase b) + unat (boff b) + unat a - 1) div unat a) * unat a + unat n) \<and>
    (fst (bump_alloc n a b) = None \<longrightarrow> snd (bump_alloc n a b) = b) \<and>
    (bump_reset (snd (bump_alloc n a b)) = bump_new (bbase b) (bsize b))"
proof (intro conjI impI)
  have ok: "bump_ok b" using assms(1) by (simp add: bump_ok_def)
  show "fst (bump_alloc n a b) = None \<longleftrightarrow> unat (bbase b) + unat (bsize b) <
      ((unat (bbase b) + unat (boff b) + unat a - 1) div unat a) * unat a + unat n"
    by (rule bump.alloc_refused [OF ok assms(2)])
  show "fst (bump_alloc n a b) = None \<Longrightarrow> snd (bump_alloc n a b) = b" by (rule bump.alloc_none [OF ok])
  show "bump_reset (snd (bump_alloc n a b)) = bump_new (bbase b) (bsize b)"
    by (simp add: bump_reset_def bump_new_def bump_alloc_def Let_def)
qed

text \<open>
  The overflow the two allocators do not check: a request whose size wraps the new offset
  around is granted, and moves the offset back below blocks that are still in use.
\<close>

lemma bump_alloc_wraps:
  "bump_alloc (2 ^ 64 - 8) 1 \<lparr>bbase = 0x1000, bsize = 64, boff = 8\<rparr> =
     (Some 0x1008, \<lparr>bbase = 0x1000, bsize = 64, boff = 0\<rparr>)"
  by (simp add: bump_alloc_def)

lemma kHugePageSize_eq: "kHugePageSize = 2097152" "pow2_assert kHugePageSize"
  by (simp_all add: kHugePageSize_def pow2_assert_def)

lemma huge_new_shape:
  "hsize (fst (huge_new mmap bytes huge)) = round_up bytes kHugePageSize"
  "hoff (fst (huge_new mmap bytes huge)) = 0"
  by (simp_all add: huge_new_def Let_def case_prod_unfold)

lemma round_up_page:
  assumes "unat bytes + 2 ^ 21 \<le> 2 ^ 64"
  shows "2 ^ 21 dvd unat (round_up bytes kHugePageSize)" "unat bytes \<le> unat (round_up bytes kHugePageSize)"
    "unat (round_up bytes kHugePageSize) < unat bytes + 2 ^ 21"
  using align_up_spec [of 2097152 bytes] assms kHugePageSize_eq(2)
  by (simp_all add: round_up_def align_up_def kHugePageSize_eq(1))

text \<open>
  The constructor of \<^verbatim>\<open>HugeArena\<close> asks for a whole number of 2 MB pages that holds the bytes
  wanted; it asks for huge pages only when told to, falls back to normal pages when they are
  refused, reports huge pages only when it got them, and is \<^verbatim>\<open>ok()\<close> exactly when one of the two
  requests succeeded. (\<^verbatim>\<open>mmap\<close> is taken to return a non-null address when it succeeds.)
\<close>

lemma huge_new_fallback:
  assumes "unat bytes + 2 ^ 21 \<le> 2 ^ 64" and "\<forall>n f p. mmap n f = Some p \<longrightarrow> p \<noteq> 0"
    and h_def: "h = fst (huge_new mmap bytes huge)"
    and n_def: "normal = MAP_PRIVATE OR MAP_ANONYMOUS OR MAP_POPULATE"
    and l_def: "large = normal OR MAP_HUGETLB OR push_bit 26 21"
  shows "(2 ^ 21 dvd unat (huge_size h)) \<and>
    (unat bytes \<le> unat (huge_size h)) \<and>
    (using_hugepages h \<longleftrightarrow> huge \<and> mmap (hsize h) large \<noteq> None) \<and>
    (using_hugepages h \<longrightarrow> mmap (hsize h) large = Some (hbase h)) \<and>
    (\<not> using_hugepages h \<longrightarrow> huge_is_ok h \<longleftrightarrow> mmap (hsize h) normal \<noteq> None) \<and>
    (\<not> using_hugepages h \<longrightarrow> huge_is_ok h \<longrightarrow> mmap (hsize h) normal = Some (hbase h))"
proof (intro conjI impI)
  have sz: "hsize h = round_up bytes kHugePageSize" by (simp add: h_def huge_new_shape)
  then show "2 ^ 21 dvd unat (huge_size h)" "unat bytes \<le> unat (huge_size h)"
    using round_up_page [OF assms(1)] by (simp_all add: huge_size_def)
  note D = sz h_def n_def l_def huge_new_def Let_def using_hugepages_def huge_is_ok_def MAP_HUGE_SHIFT_def
  show "using_hugepages h \<longleftrightarrow> huge \<and> mmap (hsize h) large \<noteq> None"
    unfolding sz by (simp add: D case_prod_unfold split: option.splits)
  show "using_hugepages h \<Longrightarrow> mmap (hsize h) large = Some (hbase h)"
    unfolding sz using assms(2) by (auto simp: D split: option.splits if_splits prod.splits)
  show "\<not> using_hugepages h \<Longrightarrow> huge_is_ok h \<longleftrightarrow> mmap (hsize h) normal \<noteq> None"
    unfolding sz using assms(2) by (auto simp: D split: option.splits if_splits prod.splits)
  show "\<not> using_hugepages h \<Longrightarrow> huge_is_ok h \<Longrightarrow> mmap (hsize h) normal = Some (hbase h)"
    unfolding sz using assms(2) by (auto simp: D split: option.splits if_splits prod.splits)
qed

text \<open>
  A constructed \<^verbatim>\<open>HugeArena\<close> satisfies the arena contract on the region the kernel mapped
  (a region that ends inside the address space): the placed objects are aligned, inside the
  region and disjoint, and the destructor unmaps exactly that region.
\<close>

lemma huge_blocks_disjoint:
  assumes h_def: "h = fst (huge_new mmap bytes huge)" and "huge_is_ok h"
    and "\<And>n a. (n, a) \<in> set rs \<Longrightarrow> arena_fits n a (unat (hbase h) + unat (hsize h))"
  shows "(list_all (block_within (unat (hbase h)) (unat (hbase h) + unat (hsize h))) (fst (alloc_run huge_alloc rs h))) \<and>
    (sorted_wrt block_below (fst (alloc_run huge_alloc rs h))) \<and>
    (huge_free (snd (alloc_run huge_alloc rs h)) = [Munmap (hbase h) (hsize h)])"
proof (intro conjI impI)
  have off: "hoff h = 0" by (simp add: h_def huge_new_shape)
  have ok: "huge_arena_ok h" using assms(2) off by (simp add: huge_arena_ok_def huge_is_ok_def)
  show "list_all (block_within (unat (hbase h)) (unat (hbase h) + unat (hsize h))) (fst (alloc_run huge_alloc rs h))"
    "sorted_wrt block_below (fst (alloc_run huge_alloc rs h))"
    using huge.alloc_run_blocks [OF ok, of rs] assms(3) off by simp_all
  have "hbase (snd (alloc_run huge_alloc rs h')) = hbase h' \<and> hsize (snd (alloc_run huge_alloc rs h')) = hsize h'" for h'
    by (induction rs arbitrary: h') (auto simp: case_prod_unfold Let_def huge_alloc_def)
  then show "huge_free (snd (alloc_run huge_alloc rs h)) = [Munmap (hbase h) (hsize h)]"
    using assms(2) by (simp add: huge_free_def huge_is_ok_def)
qed

end
