(* ===== verification/Metrics.thy ===== *)
theory Metrics
  imports Hist Tsc Platform Messages
begin

text \<open>
  The metrics endpoint of \<^verbatim>\<open>src/engine_main.cpp\<close>: the Prometheus text built from the counters and
  histograms, the HTTP response, and the thread that serves it. Each line is formatted by \<^verbatim>\<open>snprintf\<close> into \<^verbatim>\<open>char line[128]\<close> and
  appended with the length \<^verbatim>\<open>snprintf\<close> returns, which is that of the untruncated text.
\<close>

definition NL :: char where
  "NL = CHR 0x0A"

definition line_cap :: nat where
  "line_cap = 128"

definition append_line :: "string \<Rightarrow> string \<Rightarrow> string cpp" where
  "append_line s txt =
     (if length txt < line_cap then Inr (s @ txt)
      else if length txt = line_cap then Inr (s @ take (line_cap - 1) txt @ [CHR 0x00])
      else Inl Out_of_bounds)"

definition gauge_text :: "string \<Rightarrow> u64 \<Rightarrow> string" where
  "gauge_text name v = ''# TYPE '' @ name @ '' gauge'' @ [NL] @ name @ '' '' @ nat_str (unat v) @ [NL]"

definition append_gauge :: "string \<Rightarrow> u64 \<Rightarrow> string \<Rightarrow> string cpp" where
  "append_gauge name v s = append_line s (gauge_text name v)"

definition counters_text :: "u64 \<Rightarrow> u64 \<Rightarrow> string" where
  "counters_text n_orders n_fills =
     ''# TYPE engine_orders_total counter'' @ [NL] @ ''engine_orders_total '' @ nat_str (unat n_orders) @ [NL] @
     ''# TYPE engine_fills_total counter'' @ [NL] @ ''engine_fills_total '' @ nat_str (unat n_fills) @ [NL]"

text \<open>\<^verbatim>\<open>%.nf\<close>: the exact value rounded to \<open>n\<close> decimals, ties to even.\<close>

definition fmt_fixed :: "nat \<Rightarrow> dbl \<Rightarrow> string" where
  "fmt_fixed n d =
     (let q = (if 0 \<le> expo d then mant d * 10 ^ n * 2 ^ nat (expo d) else rne (nat (- expo d)) (mant d * 10 ^ n))
      in nat_str (q div 10 ^ n) @ ''.'' @ pad_int n (int (q mod 10 ^ n)))"

definition ghz_text :: "tsc_clock \<Rightarrow> string" where
  "ghz_text clk = (if mant (ns_per_tick clk) = 0 then ''inf'' else fmt_fixed 3 (ghz clk))"

definition system_text :: "tsc_clock \<Rightarrow> bool \<Rightarrow> string" where
  "system_text clk on_huge =
     ''# TYPE engine_tsc_ghz gauge'' @ [NL] @ ''engine_tsc_ghz '' @ ghz_text clk @ [NL] @
     ''# TYPE engine_hugepages gauge'' @ [NL] @ ''engine_hugepages '' @ (if on_huge then ''1'' else ''0'') @ [NL]"

fun append_gauges :: "(string \<times> u64) list \<Rightarrow> string \<Rightarrow> string cpp" where
  "append_gauges [] s = Inr s"
| "append_gauges ((name, v) # gs) s = cpp_bind (append_gauge name v s) (append_gauges gs)"

definition metric_gauges :: "snapshot \<Rightarrow> snapshot \<Rightarrow> (string \<times> u64) list" where
  "metric_gauges p q =
     [(''engine_t2t_p50_ns'', s_p50 p), (''engine_t2t_p99_ns'', s_p99 p), (''engine_t2t_p999_ns'', s_p999 p),
      (''engine_t2t_max_ns'', s_max p), (''engine_t2t_mean_ns'', s_mean p),
      (''engine_rtt_p50_ns'', s_p50 q), (''engine_rtt_p99_ns'', s_p99 q), (''engine_rtt_p999_ns'', s_p999 q),
      (''engine_rtt_max_ns'', s_max q), (''engine_rtt_mean_ns'', s_mean q)]"

text \<open>The text, given the two snapshots and the counters, and the whole call on values that do not change meanwhile.\<close>

definition page_text :: "snapshot \<Rightarrow> snapshot \<Rightarrow> u64 \<Rightarrow> u64 \<Rightarrow> tsc_clock \<Rightarrow> bool \<Rightarrow> string cpp" where
  "page_text p q n_orders n_fills clk on_huge =
     cpp_bind (append_line [] (counters_text n_orders n_fills)) (\<lambda>s.
     cpp_bind (append_gauges (metric_gauges p q) s) (\<lambda>s2.
     append_line s2 (system_text clk on_huge)))"

definition build_metrics :: "histogram \<Rightarrow> histogram \<Rightarrow> u64 \<Rightarrow> u64 \<Rightarrow> tsc_clock \<Rightarrow> bool \<Rightarrow> string cpp" where
  "build_metrics h_t2t h_rtt n_orders n_fills clk on_huge =
     cpp_bind (hist_snapshot h_t2t) (\<lambda>p.
     cpp_bind (hist_snapshot h_rtt) (\<lambda>q.
     page_text p q n_orders n_fills clk on_huge))"

definition CRLF :: string where
  "CRLF = [CHR 0x0D, CHR 0x0A]"

definition http_response :: "string \<Rightarrow> string" where
  "http_response body =
     ''HTTP/1.0 200 OK'' @ CRLF @ ''Content-Type: text/plain; version=0.0.4'' @ CRLF @
     ''Connection: close'' @ CRLF @ ''Content-Length: '' @ nat_str (length body) @ CRLF @ CRLF @ body"

section \<open>The thread\<close>

text \<open>
  \<^verbatim>\<open>run_metrics\<close> at its start, at the test of the flag, in \<^verbatim>\<open>accept\<close> with the listening descriptor, or returned; the
  calls it has made and the bytes it has sent to each client.
\<close>

datatype mx_pc = Mx_Start | Mx_Loop int | Mx_Accept int | Mx_Done

record mx_state =
  mx_at :: mx_pc
  mx_calls :: "ncall list"
  mx_sent :: "string list"

definition mx_new :: mx_state where
  "mx_new = \<lparr>mx_at = Mx_Start, mx_calls = [], mx_sent = []\<rparr>"

text \<open>
  The kernel's answers: \<open>lis\<close> for the listening socket, \<open>afd\<close> from \<^verbatim>\<open>accept\<close> (negative on its timeout of
  200 ms), \<open>rs\<close> while sending. \<open>page\<close> is the page built at that moment. The request is
  read and dropped by the code; serving a client, from \<^verbatim>\<open>accept\<close> to \<^verbatim>\<open>close\<close>, is one step here and taken apart in \<open>Scrape\<close>.
\<close>

definition mx_run :: "bool \<Rightarrow> string cpp \<Rightarrow> int \<times> bool \<times> bool \<Rightarrow> int \<Rightarrow> send_res list \<Rightarrow> mx_state \<Rightarrow> mx_state cpp" where
  "mx_run running page lis afd rs m =
     (case mx_at m of
        Mx_Start \<Rightarrow>
          (let (fd, bound, listening) = lis;
               (lfd, calls) = listen_tcp fd bound listening ''127.0.0.1'' kMetricsPort
           in if lfd < 0 then Inr (m\<lparr>mx_at := Mx_Done, mx_calls := mx_calls m @ calls\<rparr>)
              else Inr (m\<lparr>mx_at := Mx_Loop lfd, mx_calls := mx_calls m @ calls @ [CSetopt lfd SO_RCVTIMEO 200000]\<rparr>))
      | Mx_Loop lfd \<Rightarrow>
          (if running then Inr (m\<lparr>mx_at := Mx_Accept lfd\<rparr>)
           else Inr (m\<lparr>mx_at := Mx_Done, mx_calls := mx_calls m @ [CClose lfd]\<rparr>))
      | Mx_Accept lfd \<Rightarrow>
          (if afd < 0 then Inr (m\<lparr>mx_at := Mx_Loop lfd, mx_calls := mx_calls m @ [CAccept lfd afd]\<rparr>)
           else cpp_bind page (\<lambda>body.
             Inr (m\<lparr>mx_at := Mx_Loop lfd, mx_calls := mx_calls m @ [CAccept lfd afd, CClose afd],
                mx_sent := mx_sent m @ [snd (send_all rs (http_response body))]\<rparr>)))
      | Mx_Done \<Rightarrow> Inr m)"

section \<open>Facts\<close>

lemma nat_str_u64_length: "length (nat_str (unat (v :: u64))) \<le> 20"
  using nat_str_length [of "unat v" 20] unat_u64_less [of v] by simp

lemma append_gauge_ok: "length name \<le> 18 \<Longrightarrow> append_gauge name v s = Inr (s @ gauge_text name v)"
  using nat_str_u64_length [of v] by (simp add: append_gauge_def append_line_def gauge_text_def line_cap_def)

lemma append_gauges_ok:
  "list_all (\<lambda>(name, v). length name \<le> 18) gs \<Longrightarrow>
    append_gauges gs s = Inr (s @ concat (map (\<lambda>(name, v). gauge_text name v) gs))"
  by (induction gs s rule: append_gauges.induct) (simp_all add: append_gauge_ok)

lemma counters_length:
  "length (counters_text a b) = 110 + length (nat_str (unat a)) + length (nat_str (unat b))"
  by (simp add: counters_text_def)

text \<open>The HTTP response declares the number of bytes after its blank line.\<close>

lemma http_content_length:
  shows "\<exists>hdr n. http_response body = hdr @ ''Content-Length: '' @ n @ CRLF @ CRLF @ body \<and>
    list_all is_digit n \<and> digits_val n = length body"
  unfolding http_response_def using nat_str_digits digits_val_nat_str
  by (metis append.assoc)

lemma page_text_lines:
  assumes "length (ghz_text clk) \<le> 30" "length (nat_str (unat a)) + length (nat_str (unat b)) \<le> 17"
  shows "page_text p q a b clk hp = Inr (counters_text a b @
    concat (map (\<lambda>(name, v). gauge_text name v) (metric_gauges p q)) @ system_text clk hp)"
proof -
  have "list_all (\<lambda>(name, v). length name \<le> 18) (metric_gauges p q)" by (simp add: metric_gauges_def)
  note G = append_gauges_ok [OF this]
  have "length (system_text clk hp) < line_cap" using assms(1) by (simp add: system_text_def line_cap_def)
  then show ?thesis using assms(2) by (simp add: page_text_def append_line_def counters_length line_cap_def G)
qed

lemma page_text_overrun:
  "19 \<le> length (nat_str (unat a)) + length (nat_str (unat b)) \<Longrightarrow> page_text p q a b clk hp = Inl Out_of_bounds"
  by (simp add: page_text_def append_line_def counters_length line_cap_def)

section \<open>Properties\<close>

text \<open>
  C35. The metrics page. While the order and fill counters have at most seventeen digits together
  (and the clock rate prints in at most thirty characters), \<^verbatim>\<open>build_metrics\<close> returns every line of the
  page complete and in order; once they have nineteen digits or more (both counters past a
  thousand million, for instance) it reads past the end of its line buffer.
\<close>

theorem metrics_page:
  assumes "hist_snapshot h1 = Inr p" "hist_snapshot h2 = Inr q" "length (ghz_text clk) \<le> 30"
  shows "(length (nat_str (unat a)) + length (nat_str (unat b)) \<le> 17 \<longrightarrow>
      build_metrics h1 h2 a b clk hp = Inr (counters_text a b @
        concat (map (\<lambda>(name, v). gauge_text name v) (metric_gauges p q)) @ system_text clk hp)) \<and>
    (19 \<le> length (nat_str (unat a)) + length (nat_str (unat b)) \<longrightarrow>
      build_metrics h1 h2 a b clk hp = Inl Out_of_bounds)"
  using page_text_lines [OF assms(3), of a b p q hp] page_text_overrun [of a b p q clk hp] assms(1,2)
  by (simp add: build_metrics_def)

lemma snapshot_hist_new: "\<exists>s. hist_snapshot hist_new = Inr s"
  by (simp add: hist_snapshot_def hist_new_def Let_def sum_list_replicate)

theorem metrics_page_witness:
  "build_metrics hist_new hist_new 1000000000 999999999 \<lparr>ns_per_tick = Dbl 0 0\<rparr> True = Inl Out_of_bounds"
proof -
  obtain s where s: "hist_snapshot hist_new = Inr s" using snapshot_hist_new by blast
  show ?thesis
    by (rule metrics_page [OF s s, THEN conjunct2, THEN mp]) (simp_all add: ghz_text_def nat_str.simps)
qed

end
