(* ===== verification/Session.thy ===== *)
theory Session
  imports Pipeline Exchange Arena Metrics
begin

text \<open>
  The start of the engine (\<^verbatim>\<open>main\<close> and \<^verbatim>\<open>do_logon\<close> of \<^verbatim>\<open>src/engine_main.cpp\<close>) and what the engine and
  the exchange do together: the logon handshake and the life of one order from its tick to its fill.
\<close>

section \<open>Placing the hot state\<close>

text \<open>
  \<open>sz\<close> is \<^verbatim>\<open>sizeof(HotState)\<close>. The result is the address in the arena, or none when the state
  goes to the heap, and whether it is on huge pages.
\<close>

definition place_hot_state :: "(u64 \<Rightarrow> u32 \<Rightarrow> u64 option) \<Rightarrow> bool \<Rightarrow> u64 \<Rightarrow> u64 option \<times> bool" where
  "place_hot_state mmap use_huge sz =
     (if use_huge then
        (let (a, calls) = huge_new mmap (sz + push_bit 20 1) True
         in if huge_is_ok a then
              (case huge_alloc sz 64 a of
                 (Some m, a') \<Rightarrow> (Some m, using_hugepages a')
               | (None, a') \<Rightarrow> (None, False))
            else (None, False))
      else (None, False))"

section \<open>Logon\<close>

definition logon_fields :: "string \<Rightarrow> (int \<times> string) list" where
  "logon_fields ts = [(35, ''A''), (49, ''TRADER''), (56, ''EXCHANGE''), (34, to_chars 1), (52, ts),
     (98, to_chars 0), (108, to_chars 30)]"

definition logon_cap :: nat where
  "logon_cap = 256"

definition logon_message :: "tm \<Rightarrow> int \<Rightarrow> string cpp" where
  "logon_message g ns =
     cpp_bind (utc_timestamp g ns) (\<lambda>ts.
     cpp_bind (builder_adds (logon_fields ts) (builder_reset [])) (finalize logon_cap))"

text \<open>\<open>None\<close> is the loop over the framer's messages that does not end.\<close>

partial_function (option) logon_scan :: "string \<Rightarrow> (bool \<times> string) option" where
  "logon_scan buf =
     (case framer_next buf of
        (None, rest) \<Rightarrow> Some (False, rest)
      | (Some m, rest) \<Rightarrow> if view_get m 35 = ''A'' then Some (True, rest) else logon_scan rest)"

text \<open>
  At most \<open>tries\<close> calls of \<^verbatim>\<open>recv\<close>. The results given are those of the calls made while \<^verbatim>\<open>g_running\<close> is set: a failed call ends the
  wait, and so does the end of the results, where the test at the head of the loop finds the flag cleared.
\<close>

fun logon_wait :: "nat \<Rightarrow> recv_res list \<Rightarrow> string \<Rightarrow> bool option" where
  "logon_wait 0 rs buf = Some False"
| "logon_wait (Suc tries) [] buf = Some False"
| "logon_wait (Suc tries) (r # rs) buf =
     (case r of
        Recv bytes \<Rightarrow> Option.bind (logon_scan (framer_append bytes buf)) (\<lambda>(found, rest).
          if found then Some True else logon_wait tries rs rest)
      | _ \<Rightarrow> Some False)"

definition do_logon :: "tm \<Rightarrow> int \<Rightarrow> send_res list \<Rightarrow> recv_res list \<Rightarrow> (string \<times> bool option) cpp" where
  "do_logon g ns srs rrs =
     cpp_bind (logon_message g ns) (\<lambda>msg.
     let (ok, bytes) = send_all srs msg
     in Inr (bytes, case ok of None \<Rightarrow> None | Some False \<Rightarrow> Some False | Some True \<Rightarrow> logon_wait 50 rrs []))"

section \<open>Facts\<close>

lemma logon_message_built:
  assumes "tm_ok g" "0 \<le> ns" "ns < 10 ^ 9"
  shows "\<exists>ts msg. logon_message g ns = Inr msg \<and> built_from logon_cap (logon_fields ts) msg"
proof -
  obtain ts where ts: "utc_timestamp g ns = Inr ts" "length ts = 21" "SOH \<notin> set ts"
    using utc_timestamp_ok [OF assms] unfolding SOH_def by blast
  have ok: "fields_ok (logon_fields ts)"
    using ts(3) by (simp add: fields_ok_def logon_fields_def tag_ok_def) (simp add: SOH_def)
  have len: "length (field_seq (logon_fields ts)) = 69"
    using ts(2) by (simp add: logon_fields_def field_def to_chars_def nat_str.simps)
  have b: "builder_adds (logon_fields ts) [] = Inr (field_seq (logon_fields ts))"
    using builder_adds_spec [OF ok, of "[]"] len by (simp add: body_cap_def)
  have "finalize logon_cap (field_seq (logon_fields ts)) = Inr (frame_of (field_seq (logon_fields ts)))"
    by (simp add: finalize_cases len nat_str.simps logon_cap_def)
  then show ?thesis using ts(1) b ok by (auto simp: logon_message_def builder_reset_def built_from_def)
qed

lemma logon_scan_found:
  assumes "is_frame m" "view_get m 35 = ''A''"
  shows "logon_scan (m @ rest) = Some (True, rest)"
  by (subst logon_scan.simps) (simp add: framer_next_frame [OF assms(1)] assms(2))

lemma logon_scan_partial:
  assumes "is_frame (b @ q)" "q \<noteq> []"
  shows "logon_scan b = Some (False, b)"
  by (subst logon_scan.simps) (simp add: framer_next_partial [OF assms])

lemma logon_wait_found:
  assumes "is_frame m" "view_get m 35 = ''A''" "b @ concat cs = m" "length b < length m" "length cs \<le> tries"
  shows "logon_wait tries (map Recv cs) b = Some True"
  using assms(3-5)
proof (induction cs arbitrary: b tries)
  case (Cons c cs)
  obtain t where t: "tries = Suc t" using Cons.prems(3) by (cases tries) auto
  have m: "(b @ c) @ concat cs = m" using Cons.prems(1) by simp
  show ?case
  proof (cases "concat cs = []")
    case False
    then have lt: "length (b @ c) < length m" unfolding m [symmetric] by simp
    have "logon_scan (b @ c) = Some (False, b @ c)"
      using logon_scan_partial [of "b @ c" "concat cs"] False assms(1) m by simp
    then show ?thesis using Cons.IH [OF m lt, of t] Cons.prems(3) t by (simp add: framer_append_def)
  next
    case True
    then have "b @ c = m" using m [unfolded True] by simp
    then have "logon_scan (b @ c) = Some (True, [])" using logon_scan_found [OF assms(1,2), of "[]"] by simp
    then show ?thesis using t by (simp add: framer_append_def)
  qed
qed simp

lemma frame_nonempty: "is_frame m \<Longrightarrow> 0 < length m"
  by (auto simp: is_frame_def)

lemma logon_answered:
  assumes "clock_ok clock" "built_from cap fs req" "map_of fs 35 = Some ''A''"
  shows "\<exists>reply. exch_reply clock req sq = Inr ([reply], sq + 1) \<and> is_frame reply \<and> view_get reply 35 = ''A''"
proof -
  have A: "view_get req 35 = ''A''" using built_from_get [OF assms(2), of 35] assms(3) by simp
  then have fit: "view_get req 35 = ''D'' \<longrightarrow> fill_fits req" by simp
  show ?thesis
  proof (cases rule: exch_reply_cases [OF assms(1) fit, where sq = sq, consumes 0, case_names ignore reply])
    case ignore
    then show ?thesis using A by (simp add: wants_reply_def)
  next
    case (reply ts mtype body r)
    then have b: "built_from out_cap (msg_fields ts sq ''A'' logon_body) r" using A by simp
    have "view_get r 35 = ''A''" using built_from_get [OF b, of 35] by (simp add: msg_fields_def)
    then show ?thesis using reply(2) built_from_frame [OF b] by blast
  qed
qed

lemma exch_handle_one:
  assumes "is_frame req" "exch_reply clock req 1 = Inr ([reply], 2)" "concat cs = req"
  shows "xh_out (exch_handle k xc clock fd cs th) = Some (Inr ([reply], [], 2))"
proof -
  have "framer_feed cs [] = Some ([req], [])"
    by (rule framer_feed_stream) (use assms frame_nonempty in \<open>simp_all add: undelivered_def\<close>)
  then have "exch_loop clock cs [] 1 = Some (Inr ([reply], [], 2))"
    by (rule exch_loop_feed) (simp add: assms(2))
  then show ?thesis by (simp add: exch_handle_def case_prod_unfold Let_def)
qed

lemma order_built:
  assumes "tick_at k t" "order_for k t od"
  defines "cid \<equiv> of_nat (Suc k) :: u64" and "sy \<equiv> of_nat (k mod 6) :: u32"
  defines "p \<equiv> plain_order (t_t0_tsc t) sy (of_nat k) cid"
  shows "built_from (length (o_fix od)) (nos_fields (kSymbols ! unat sy) p) (o_fix od)"
    and "unat sy < length kSymbols" and "o_clordid od = cid"
proof -
  let ?fs = "nos_fields (kSymbols ! unat sy) p"
  have "decide t cid = Inr p" using decide_md_tick assms(1) unfolding tick_at_def p_def cid_def sy_def by metis
  then have f: "unat sy < length kSymbols" "length (field_seq ?fs) \<le> body_cap" "o_fix od = frame_of (field_seq ?fs)"
    "o_clordid od = cid"
    using assms(2) unfolding order_for_def make_order_Inr nos_frame_def by (auto simp: plain_order_def p_def cid_def)
  have ok: "fields_ok ?fs" using kSymbols_clean(1) [OF f(1)] by (rule nos_fields_ok)
  then show "built_from (length (o_fix od)) ?fs (o_fix od)"
    using f(2,3) builder_adds_spec [OF ok, of "[]"] by (simp add: built_from_def finalize_cases frame_of_length)
  show "unat sy < length kSymbols" "o_clordid od = cid" using f by simp_all
qed

lemma order_is_frame: "tick_at k t \<Longrightarrow> order_for k t od \<Longrightarrow> is_frame (o_fix od)"
  using order_built(1) built_from_frame by blast

lemma order_answered:
  assumes "clock_ok clock" "tick_at k t" "order_for k t od"
  shows "\<exists>r. exch_reply clock (o_fix od) sq = Inr ([r], sq + 1) \<and> is_frame r \<and> view_get r 35 = ''8'' \<and>
    view_get_int r 11 0 = sint (o_clordid od)"
proof -
  let ?cid = "of_nat (Suc k) :: u64" and ?sy = "of_nat (k mod 6) :: u32"
  let ?p = "plain_order (t_t0_tsc t) ?sy (of_nat k) ?cid"
  note b = order_built(1) [OF assms(2,3)] and f = order_built(2,3) [OF assms(2,3)]
  have px: "length (to_chars (o_px ?p)) \<le> 20"
    using to_chars_i64_length [of "o_px ?p"] md_price_bounds [of "of_nat k"] by (simp add: plain_order_def i64_defs)
  have side: "length (to_chars (uint (side_code (o_side ?p)))) = 1"
    by (cases "o_side ?p") (simp_all add: side_code_def tag_lits)
  have "\<exists>r. exch_reply clock (o_fix od) sq = Inr ([r], sq + 1) \<and> is_frame r \<and>
    view_get r 35 = ''8'' \<and> view_get_int r 11 0 = sint ?cid \<and> view_get r 55 = kSymbols ! unat ?sy \<and>
    view_get r 54 = to_chars (uint (side_code (o_side ?p))) \<and>
    view_get r 38 = to_chars (o_qty ?p) \<and> view_get r 32 = to_chars (o_qty ?p) \<and> view_get r 31 = to_chars (o_px ?p) \<and>
    view_get r 39 = ''2'' \<and> view_get_int r 34 0 = sint sq \<and> view_get_int r 37 0 = sint (sq + 1) \<and>
    view_get_int r 17 0 = sint (sq + 1)"
  proof (rule fill_reply [OF assms(1) b])
    show "length (kSymbols ! unat ?sy) + length (to_chars (uint (side_code (o_side ?p)))) + 2 * length (to_chars (o_qty ?p)) +
        length (to_chars (o_px ?p)) \<le> 280"
      using px side kSymbols_clean(2) [OF f(1)] by (simp add: plain_order_def tag_lits)
  qed (use kSymbols_clean(3) [OF f(1)] sint_ok in \<open>simp_all add: nos_fields_def plain_order_def\<close>)
  then show ?thesis using f(2) by auto
qed

text \<open>The handshake from both ends.\<close>

lemma logon_completes:
  assumes "tm_ok g" "0 \<le> ns" "ns < 10 ^ 9" "clock_ok clock"
  shows "\<exists>req reply. logon_message g ns = Inr req \<and>
    (\<forall>cs. concat cs = req \<longrightarrow> xh_out (exch_handle k xc clock fd cs th) = Some (Inr ([reply], [], 2))) \<and>
    (\<forall>srs cs. fst (send_all srs req) = Some True \<and> concat cs = reply \<and> length cs \<le> 50 \<longrightarrow>
       do_logon g ns srs (map Recv cs) = Inr (req, Some True))"
proof -
  obtain ts req where req: "logon_message g ns = Inr req" "built_from logon_cap (logon_fields ts) req"
    using logon_message_built [OF assms(1-3)] by blast
  obtain reply where reply: "exch_reply clock req 1 = Inr ([reply], 2)" "is_frame reply" "view_get reply 35 = ''A''"
    using logon_answered [OF assms(4) req(2), of 1] by (auto simp: logon_fields_def)
  have "do_logon g ns srs (map Recv cs) = Inr (req, Some True)"
    if "fst (send_all srs req) = Some True" "concat cs = reply" "length cs \<le> 50" for srs cs
  proof -
    have "snd (send_all srs req) = req" using that(1) send_loop_prefix [of 0 req srs] by (simp add: send_all_def)
    moreover have "logon_wait 50 (map Recv cs) [] = Some True"
      using logon_wait_found [OF reply(2,3), of "[]" cs 50] that frame_nonempty [OF reply(2)] by simp
    ultimately show ?thesis using that(1) req(1) by (simp add: do_logon_def case_prod_unfold Let_def)
  qed
  then show ?thesis using req(1) exch_handle_one [OF built_from_frame [OF req(2)] reply(1)] by blast
qed

section \<open>Placement of the hot state\<close>

text \<open>
  Placing the hot state: with \<^verbatim>\<open>--huge=on\<close>, whenever the kernel grants a mapping (of huge or normal
  pages, ending inside the address space) the state is placed in it at an address aligned to 64,
  wholly inside the mapping, and the flag for huge pages says whether the kernel granted those.
\<close>

lemma hot_state_placed:
  assumes "a = fst (huge_new mmap (sz + push_bit 20 1) True)" "huge_is_ok a"
    and "unat sz < 2 ^ 62" "unat (hbase a) + unat (hsize a) < 2 ^ 63"
  shows "\<exists>p. place_hot_state mmap True sz = (Some p, using_hugepages a) \<and> unat p mod 64 = 0 \<and>
    unat (hbase a) \<le> unat p \<and> unat p + unat sz \<le> unat (hbase a) + unat (hsize a)"
proof -
  have off: "hoff a = 0" and size: "hsize a = round_up (sz + push_bit 20 1) kHugePageSize"
    by (simp_all add: assms(1) huge_new_shape)
  have pb: "unat (push_bit 20 1 :: u64) = 2 ^ 20" by (simp add: push_bit_eq_mult)
  have us: "unat (sz + push_bit 20 1) = unat sz + 2 ^ 20"
    using assms(3) pb by (subst unat_add_lem [THEN iffD1]) simp_all
  have sz: "unat sz + 2 ^ 20 \<le> unat (hsize a)"
    using round_up_page(2) [of "sz + push_bit 20 1"] us assms(3) size by simp
  have ok: "huge_arena_ok a" using assms(2) off by (simp add: huge_arena_ok_def huge_is_ok_def)
  have fits: "arena_fits sz 64 (unat (hbase a) + unat (hsize a))"
    using assms(3,4) by (simp add: arena_fits_def pow2_assert_def)
  have "fst (huge_alloc sz 64 a) \<noteq> None"
    using huge.alloc_refused [OF ok fits] round_up_div_bounds(2) [of 64 "unat (hbase a)"] sz off by simp
  then obtain p h where al: "huge_alloc sz 64 a = (Some p, h)" by (cases "huge_alloc sz 64 a") auto
  then have A: "64 dvd unat p" "unat (hbase a) \<le> unat p" "unat (hbase a) + unat (hoff h) = unat p + unat sz" "unat (hoff h) \<le> unat (hsize a)"
    using huge.alloc_some [OF ok fits, of p] off by simp_all
  have "huge_ok h = huge_ok a" using al by (auto simp: huge_alloc_def Let_def split: if_splits)
  then have "place_hot_state mmap True sz = (Some p, using_hugepages a)"
    using al assms(1,2) by (simp add: place_hot_state_def case_prod_unfold Let_def using_hugepages_def)
  then show ?thesis using A by (auto simp: dvd_eq_mod_eq_0)
qed

end
