(* ===== verification/Recording.thy ===== *)
theory Recording
  imports Pipeline
begin

text \<open>
  What the running engine of \<open>Pipeline\<close> keeps and records: every payload in its rings is well
  formed, so that each array access made with it is in bounds; the histograms hold one sample per
  order sent and per ExecutionReport received after the warm-up; the log file lists the orders that were sent.
\<close>

section \<open>Well-formed payloads\<close>

definition tick_wf :: "tick \<Rightarrow> bool" where
  "tick_wf t \<longleftrightarrow> t_sym_id t < kNumSymbols \<and> t_ask t = t_bid t + 10 \<and> 9945 \<le> t_bid t \<and> t_ask t \<le> 10050"

definition order_wf :: "order \<Rightarrow> bool" where
  "order_wf od \<longleftrightarrow> o_sym_id od < kNumSymbols \<and> o_qty od = order_qty kLimits \<and> 9950 \<le> o_px od \<and> o_px od \<le> 10045 \<and>
     unat (o_fix_len od) = length (o_fix od) \<and> length (o_fix od) \<le> order_fix_cap \<and> is_frame (o_fix od)"

definition log_wf :: "log_event \<Rightarrow> bool" where
  "log_wf le \<longleftrightarrow> unat (le_len le) = length (le_msg le) \<and> length (le_msg le) < log_msg_cap"

lemma num_symbols: "kNumSymbols = 6" "unat kNumSymbols = 6" "length kSymbols = 6"
  by (simp_all add: kNumSymbols_def kSymbols_def)

lemma tick_at_wf: "tick_at i t \<Longrightarrow> tick_wf t"
proof -
  assume "tick_at i t"
  then obtain t0 where t: "t = md_tick t0 (of_nat (i mod 6)) (of_nat i)" unfolding tick_at_def by blast
  have "(of_nat (i mod 6) :: u32) < 6" by (simp add: word_less_nat_alt unat_of_nat)
  then show ?thesis using md_price_bounds [of "of_nat i"]
    by (simp add: t tick_wf_def num_symbols md_tick_def Let_def kLimits_def)
qed

lemma order_for_wf:
  assumes "tick_at i t" "order_for i t od"
  shows "order_wf od"
proof -
  obtain t0 where t: "t = md_tick t0 (of_nat (i mod 6)) (of_nat i)" using assms(1) unfolding tick_at_def by blast
  let ?p = "plain_order t0 (of_nat (i mod 6)) (of_nat i) (of_nat (Suc i))"
  let ?b = "field_seq (nos_fields (kSymbols ! unat (o_sym_id ?p)) ?p)"
  have d: "decide t (of_nat (Suc i)) = Inr ?p" unfolding t by (rule decide_md_tick)
  have f: "length ?b \<le> body_cap" "length (nos_frame ?p) \<le> order_fix_cap"
    "od = ?p\<lparr>o_fix_len := of_nat (length (nos_frame ?p)), o_fix := nos_frame ?p\<rparr>"
    using assms(2) d unfolding order_for_def make_order_Inr by auto
  have "is_frame (nos_frame ?p)"
    by (rule finalize_frame [of "length (nos_frame ?p)" ?b])
      (use f(1) in \<open>simp_all add: finalize_cases nos_frame_def frame_of_length body_cap_def\<close>)
  moreover have "(of_nat (i mod 6) :: u32) < 6" by (simp add: word_less_nat_alt unat_of_nat)
  moreover have "unat (of_nat (length (nos_frame ?p)) :: u32) = length (nos_frame ?p)"
    using f(2) by (simp add: order_fix_cap_def unat_of_nat)
  ultimately show ?thesis using f(2) md_price_bounds [of "of_nat i"]
    by (simp add: f(3) order_wf_def num_symbols plain_order_def kLimits_def)
qed

lemma nos_log_facts:
  "le_msg (nos_log tsc cid) = ''NOS id='' @ nat_str (unat cid)" "log_wf (nos_log tsc cid)"
  "log_line (nos_log tsc cid) = nat_str (unat tsc) @ '' 1 NOS id='' @ nat_str (unat cid) @ [CHR 0x0A]"
proof -
  have n: "length (nat_str (unat cid)) \<le> 20" using nat_str_length [of "unat cid" 20] unat_u64_less [of cid] by simp
  then have u: "unat (of_nat (7 + length (nat_str (unat cid))) :: u8) = 7 + length (nat_str (unat cid))"
    by (simp add: unat_of_nat del: of_nat_add)
  show m: "le_msg (nos_log tsc cid) = ''NOS id='' @ nat_str (unat cid)" using n by (simp add: nos_log_def Let_def log_msg_cap_def)
  have l: "unat (le_len (nos_log tsc cid)) = 7 + length (nat_str (unat cid))" using u by (simp add: nos_log_def Let_def)
  show "log_wf (nos_log tsc cid)" using m l n by (simp add: log_wf_def log_msg_cap_def)
  have "nat_str 1 = ''1''" by (simp add: nat_str.simps digit_char_def char_of_eq_iff)
  then show "log_line (nos_log tsc cid) = nat_str (unat tsc) @ '' 1 NOS id='' @ nat_str (unat cid) @ [CHR 0x0A]"
    using m l by (simp add: log_line_def) (simp add: nos_log_def Let_def log_type_code_def)
qed

section \<open>The log\<close>

text \<open>The line of the log for an order sent at the given counter reading.\<close>

definition nos_line :: "u64 \<Rightarrow> order \<Rightarrow> string" where
  "nos_line tsc od = nat_str (unat tsc) @ '' 1 NOS id='' @ nat_str (unat (o_clordid od)) @ [CHR 0x0A]"

lemma event_line: "event_for od le \<Longrightarrow> log_line le = nos_line (le_tsc le) od"
  using nos_log_facts(3) unfolding event_for_def nos_line_def by metis

lemma event_lines: "list_all2 event_for ods les \<Longrightarrow> map log_line les = map2 nos_line (map le_tsc les) ods"
  by (induction rule: list_all2_induct) (simp_all add: event_line)

lemma list_all2_take: "list_all2 P xs ys \<Longrightarrow> list_all2 P (take n xs) (take n ys)"
  by (simp add: list_all2_takeI)

lemma logged_prefix: "prefix (logged opo at) opo"
  by (cases at) (simp_all add: logged_def butlast_conv_take take_is_prefix)

lemma logged_length: "length opo \<le> Suc (length (logged opo at))"
  by (cases at) (simp_all add: logged_def)

section \<open>Elements of the rings\<close>

lemma in_ring1:
  assumes "engine_inv e" "t \<in> set (ring_list ring_capacity (ring1 e))"
  obtains i where "tick_at i t"
proof -
  have "t \<in> set (ticks_seen (ticks_popped e) (ring1 e))" using assms(2) by (simp add: ticks_seen_def)
  then show thesis using that assms(1) by (auto simp: engine_inv_def md_ok_def in_set_conv_nth)
qed

lemma pushed_wf:
  assumes inv: "engine_inv e" and od: "od \<in> set (orders_pushed e)"
  shows "order_wf od"
proof -
  obtain i where i: "i < length (orders_pushed e)" "orders_pushed e ! i = od" using od by (auto simp: in_set_conv_nth)
  have it: "i < length (ticks_popped e)" and f: "order_for i (ticks_popped e ! i) od"
    using inv i by (auto simp: engine_inv_def st_ok_def)
  have "tick_at i (ticks_seen (ticks_popped e) (ring1 e) ! i)" using inv it by (auto simp: engine_inv_def md_ok_def ticks_seen_def)
  then show ?thesis using order_for_wf [OF _ f] it by (simp add: ticks_seen_def nth_append)
qed

lemma logged_wf:
  assumes inv: "engine_inv e" and le: "le \<in> set (log_pushed e)"
  shows "log_wf le"
proof -
  obtain sub where "list_all2 event_for sub (log_pushed e)" using inv by (auto simp: engine_inv_def events_ok_def)
  then obtain od where "event_for od le" using le by (auto simp: list_all2_conv_all_nth in_set_conv_nth)
  then show ?thesis using nos_log_facts(2) unfolding event_for_def by metis
qed

text \<open>The sample run continued: the logger writes the line of the first order.\<close>

lemma run_one_line:
  "\<exists>e. reach engine_init (engine_step c clk period) e \<and> length (orders_popped e) = 1 \<and> lg_file e \<and>
     log_refused e = 0 \<and> log_text e \<noteq> []"
proof -
  let ?reach = "reach engine_init (engine_step c clk period)"
  obtain e where e: "?reach e" "length (orders_popped e) = 1" "g_running e" "gw_at e = Gw_Log 1" "lg_at e = Lg_Loop"
    "log_pushed e = []" "log_popped e = []" "lg_file e" using run_one_order by blast
  have inv: "engine_inv e" by (rule engine_run.reach_inv [OF e(1)])
  have L: "ring_ok ring_capacity (ring3 e)" "ring_list ring_capacity (ring3 e) = []" "log_refused e = 0" "log_text e = []"
    using inv e by (auto simp: engine_inv_def log_ok_def events_ok_def logged_def)
  let ?le = "nos_log 0 1"
  note pu = push_into_empty [OF L(1,2), of ?le]
  obtain e1 where e1: "e1 = gw_log 0 e" "ring3 e1 = snd (try_push ring_capacity ?le (ring3 e))" "lg_at e1 = Lg_Loop" "g_running e1"
    "lg_file e1" "log_refused e1 = 0" "orders_popped e1 = orders_popped e" "log_text e1 = []"
    using pu(1) e L by (simp add: gw_log_def case_prod_unfold Let_def)
  obtain r where pop: "try_pop ring_capacity (ring3 e1) = (Some ?le, r)" by (rule pop_single [OF pu(3,2)]) (simp add: e1(2))
  have r1: "?reach e1" unfolding e1(1) by (rule reach_step [OF e(1) engine_steps(4)])
  have r2: "?reach (lg_run (lg_run e1))" by (rule reach_step [OF reach_step [OF r1 engine_steps(5)] engine_steps(5)])
  have "log_text (lg_run (lg_run e1)) = log_line ?le" "lg_file (lg_run (lg_run e1))" "log_refused (lg_run (lg_run e1)) = 0"
    "orders_popped (lg_run (lg_run e1)) = orders_popped e"
    using e1 pop by (simp_all add: lg_run_def)
  then show ?thesis using r2 e(2) nos_log_facts(3) [of 0 1] by (intro exI [of _ "lg_run (lg_run e1)"]) simp
qed

section \<open>Messages and samples\<close>

text \<open>
  The messages that a receive call of the gateway completes, and a run of the engine together with all of them. This is a
  history outside the state: nothing the gateway counts or records enters it.
\<close>

definition framed :: "recv_res \<Rightarrow> engine \<Rightarrow> string list" where
  "framed r e =
     (case r of
        Recv bytes \<Rightarrow> (if gw_at e = Gw_Recv then
           (case framer_drain (framer_append bytes (gw_buf e)) of None \<Rightarrow> [] | Some (ms, buf) \<Rightarrow> ms) else [])
      | _ \<Rightarrow> [])"

inductive engine_trace :: "cfg \<Rightarrow> tsc_clock \<Rightarrow> u64 \<Rightarrow> string list \<Rightarrow> engine \<Rightarrow> bool" for c clk period where
  trace_init: "engine_init e \<Longrightarrow> engine_trace c clk period [] e"
| trace_thread: "engine_trace c clk period ms e \<Longrightarrow> thread_step c clk period e e' \<Longrightarrow> engine_trace c clk period ms e'"
| trace_recv: "engine_trace c clk period ms e \<Longrightarrow> gw_recv clk rx r e = Some (Inr e') \<Longrightarrow>
    engine_trace c clk period (ms @ framed r e) e'"

definition is_report :: "string \<Rightarrow> bool" where
  "is_report m \<longleftrightarrow> view_get m 35 = ''8''"

definition reports :: "string list \<Rightarrow> string list" where
  "reports ms = filter is_report ms"

lemma trace_reach: "engine_trace c clk period ms e \<Longrightarrow> reach engine_init (engine_step c clk period) e"
  by (induction rule: engine_trace.induct) (auto intro: reach.intros engine_step.intros)

lemma reach_trace: "reach engine_init (engine_step c clk period) e \<Longrightarrow> \<exists>ms. engine_trace c clk period ms e"
  by (induction rule: reach.induct) (auto intro: engine_trace.intros elim!: engine_step.cases)

lemma gw_fills_counts:
  assumes "fills e = of_nat n" "samples_ok (rtt e) n" "gw_fills clk rx ms e = Inr e'"
  shows "fills e' = of_nat (n + length (reports ms)) \<and> samples_ok (rtt e') (n + length (reports ms))"
  using assms
proof (induction ms arbitrary: e n)
  case (Cons m ms)
  obtain e1 where e1: "gw_fill clk rx m e = Inr e1" "gw_fills clk rx ms e1 = Inr e'"
    using Cons.prems(3) by (auto simp: cpp_bind_eq_Inr_iff)
  show ?case
  proof (cases "is_report m")
    case True
    obtain h dt where h: "(if warm (of_nat n) then hist_record [] dt (rtt e) else Inr (rtt e)) = Inr h"
      "e1 = e\<lparr>rtt := h, fills := fills e + 1\<rparr>"
      using e1(1) True by (auto simp: is_report_def gw_fill_def Let_def cpp_bind_eq_Inr_iff Cons.prems(1))
    have "fills e1 = of_nat (Suc n)" "samples_ok (rtt e1) (Suc n)"
      using samples_record [OF Cons.prems(2) h(1)] Cons.prems(1) by (simp_all add: h(2))
    then show ?thesis using Cons.IH [OF _ _ e1(2), of "Suc n"] True by (simp add: reports_def)
  next
    case False
    then have "e1 = e" using e1(1) by (simp add: is_report_def gw_fill_def)
    then show ?thesis using Cons.IH [OF Cons.prems(1,2)] e1(2) False by (simp add: reports_def)
  qed
qed (simp add: reports_def)

lemma thread_keeps_input: "thread_step c clk period e e' \<Longrightarrow> fills e' = fills e \<and> rtt e' = rtt e \<and> gw_buf e' = gw_buf e"
proof (induction rule: thread_step.induct)
  case (step_md e now t0)
  then show ?case by (auto simp: md_run_def md_advance_def Let_def split: md_pc.splits prod.splits)
next
  case (step_st m e e')
  then show ?case
    by (auto simp: st_run_def st_finish_def Let_def cpp_bind_eq_Inr_iff split: st_pc.splits prod.splits option.splits if_splits)
next
  case (step_gw_send rs e now e')
  then show ?case by (auto simp: gw_send_def cpp_bind_eq_Inr_iff split: gw_pc.splits prod.splits option.splits)
next
  case (step_gw_log e now)
  then show ?case by (auto simp: gw_log_def Let_def split: gw_pc.splits prod.splits)
next
  case (step_lg e)
  then show ?case by (auto simp: lg_run_def split: lg_pc.splits prod.splits option.splits)
next
  case (step_stop e)
  then show ?case by (simp add: on_signal_def)
next
  case (step_stale e e')
  then show ?case by (auto elim: stale_stepE)
qed

lemma trace_counts:
  "engine_trace c clk period ms e \<Longrightarrow>
     fills e = of_nat (length (reports ms)) \<and> samples_ok (rtt e) (length (reports ms))"
proof (induction rule: engine_trace.induct)
  case (trace_init e)
  then show ?case using samples_new by (auto simp: engine_init_def engine_new_def reports_def)
next
  case (trace_thread ms e e')
  then show ?case using thread_keeps_input by metis
next
  case (trace_recv ms e rx r e')
  have stay: "fills e' = fills e \<and> rtt e' = rtt e \<and> framed r e = []" if "gw_at e \<noteq> Gw_Recv \<or> (\<forall>bytes. r \<noteq> Recv bytes)"
    using that trace_recv(2) by (auto simp: gw_recv_def framed_def split: recv_res.splits if_splits)
  show ?case
  proof (cases "gw_at e = Gw_Recv \<and> (\<exists>bytes. r = Recv bytes)")
    case True
    then obtain fs buf where f: "framed r e = fs" "gw_fills clk rx fs (e\<lparr>gw_buf := buf, gw_at := Gw_Loop\<rparr>) = Inr e'"
      using trace_recv(2) by (auto simp: gw_recv_def framed_def split: option.splits)
    then show ?thesis using gw_fills_counts [OF _ _ f(2), of "length (reports ms)"] trace_recv(3) by (simp add: reports_def)
  next
    case False
    then show ?thesis using stay trace_recv(3) by (auto simp: reports_def)
  qed
qed

text \<open>The sample run continued: the gateway receives an ExecutionReport for the order it has sent.\<close>

lemma sample_report: "\<exists>m. is_frame m \<and> is_report m"
proof -
  let ?fs = "[(35, ''8''), (11, ''1'')]"
  have ok: "fields_ok ?fs" by (simp add: fields_ok_def tag_ok_def SOH_def)
  have l: "length (field_seq ?fs) = 10" by (simp add: field_def tag_lits)
  have b: "builder_adds ?fs [] = Inr (field_seq ?fs)" using builder_adds_spec [OF ok, of "[]"] l by (simp add: body_cap_def)
  have f: "finalize 100 (field_seq ?fs) = Inr (frame_of (field_seq ?fs))"
    by (simp only: finalize_cases l) (simp add: nat_str.simps)
  have "is_report (frame_of (field_seq ?fs))" using built_view(1) [OF ok b f, of 35] by (simp add: is_report_def)
  moreover have "is_frame (frame_of (field_seq ?fs))" using finalize_frame [OF f] l by simp
  ultimately show ?thesis by blast
qed

lemma run_one_report:
  "\<exists>e m. engine_trace c clk period [m] e \<and> is_report m \<and> length (orders_popped e) = 1"
proof -
  obtain e where e: "reach engine_init (thread_step c clk period) e" "length (orders_popped e) = 1" "gw_at e = Gw_Log 1" "g_running e"
    using run_one_sent by blast
  have tr: "engine_trace c clk period [] e"
    using e(1) by (induction rule: reach.induct) (auto intro: engine_trace.intros)
  have f0: "fills e = 0" "samples_ok (rtt e) 0" using trace_counts [OF tr] by (simp_all add: reports_def)
  have buf: "gw_buf e = []" using e(1)
    by (induction rule: reach.induct) (auto simp: engine_init_def engine_new_def dest: thread_keeps_input)
  let ?e = "gw_log 0 e"
  have tr1: "engine_trace c clk period [] ?e" by (rule trace_thread [OF tr step_gw_log])
  have g: "gw_at ?e = Gw_Recv" "gw_buf ?e = []" "fills ?e = 0" "rtt ?e = rtt e" "length (orders_popped ?e) = 1"
    using e f0 buf by (simp_all add: gw_log_def Let_def case_prod_unfold)
  obtain m where m: "is_frame m" "is_report m" using sample_report by blast
  have d: "framer_drain (framer_append m []) = Some ([m], [])"
    using framer_drain_frame [OF m(1), of "[]"] by (simp add: framer_append_def framer_drain_none framer_next_nil)
  let ?t0 = "pending ?e ! unat (of_int (view_get_int m 11 0) AND kPendingMask)"
  let ?e1 = "?e\<lparr>gw_buf := [], gw_at := Gw_Loop, fills := 1\<rparr>"
  have "ticks_to_ns clk 0 = Inr 0" by (simp add: ticks_to_ns_scaled)
  then have "gw_recv clk (\<lambda>n. ?t0) (Recv m) ?e = Some (Inr ?e1)"
    using m(2) by (simp add: gw_recv_def g d is_report_def gw_fill_def Let_def warm_def kLimits_def)
  from trace_recv [OF tr1 this] have "engine_trace c clk period [m] ?e1" by (simp add: framed_def g d)
  then show ?thesis using m(2) g(5) by (intro exI [of _ ?e1] exI [of _ m]) simp
qed

section \<open>Properties\<close>

text \<open>
  C19. Types of the running engine: in every reachable state each tick in the first ring names one
  of the configured symbols and has a bid below its ask, each order in the second ring names a
  symbol, has the configured quantity, and carries a complete message whose length field is its length and
  that fits its array, and each event in the third ring has a text that fits its array with
  the right length. The table of outstanding orders keeps its size.
\<close>

theorem payloads_typed:
  assumes "reach engine_init (engine_step c clk period) e"
  shows "list_all tick_wf (ring_list ring_capacity (ring1 e)) \<and> list_all order_wf (ring_list ring_capacity (ring2 e)) \<and>
    list_all log_wf (ring_list ring_capacity (ring3 e)) \<and> length (pending e) = unat pending_capacity"
proof (intro conjI)
  have inv: "engine_inv e" by (rule engine_run.reach_inv [OF assms])
  show "list_all tick_wf (ring_list ring_capacity (ring1 e))"
    using in_ring1 [OF inv] tick_at_wf unfolding list_all_iff by blast
  have "set (ring_list ring_capacity (ring2 e)) \<subseteq> set (orders_pushed e)" "set (ring_list ring_capacity (ring3 e)) \<subseteq> set (log_pushed e)"
    using inv by (auto simp: engine_inv_def gw_ok_def log_ok_def)
  then show "list_all order_wf (ring_list ring_capacity (ring2 e))" "list_all log_wf (ring_list ring_capacity (ring3 e))"
    using pushed_wf [OF inv] logged_wf [OF inv] unfolding list_all_iff by blast+
  show "length (pending e) = unat pending_capacity" using inv by (simp add: engine_inv_def pend_ok_def caps)
qed

theorem payloads_typed_witness:
  "\<exists>e. reach engine_init (engine_step cfg_default \<lparr>ns_per_tick = Dbl 1 0\<rparr> 1000) e \<and>
     ring_list ring_capacity (ring2 e) \<noteq> [] \<and> list_all order_wf (ring_list ring_capacity (ring2 e))"
proof -
  obtain e od where e: "reach engine_init (engine_step cfg_default \<lparr>ns_per_tick = Dbl 1 0\<rparr> 1000) e"
    "ring_list ring_capacity (ring2 e) = [od]" using run_order reach_threads by blast
  have "list_all order_wf (ring_list ring_capacity (ring2 e))" using payloads_typed [OF e(1)] by blast
  then show ?thesis using e by auto
qed

text \<open>
  C15. The histograms count. Take any run of the engine and the messages \<open>ms\<close> its gateway has framed on it out of the
  bytes received. The tick-to-trade histogram holds exactly one sample for every order sent after the
  first 500, the fill counter counts the ExecutionReports among \<open>ms\<close> (modulo \<open>2 ^ 64\<close>), and up to \<open>2 ^ 64\<close> of
  them the round-trip histogram holds exactly one sample for every report after the first 500; every sample is in the
  range of the buckets, and the order counter counts the orders sent.
\<close>

theorem histograms_count:
  assumes "engine_trace c clk period ms e" and "length (orders_popped e) \<le> 2 ^ 64"
  shows "(\<exists>xs. hist_of xs (t2t e) \<and> list_all in_range xs \<and> length xs = length (orders_popped e) - 500) \<and>
    orders e = of_nat (length (orders_popped e)) \<and> fills e = of_nat (length (reports ms)) \<and>
    (length (reports ms) \<le> 2 ^ 64 \<longrightarrow>
      (\<exists>xs. hist_of xs (rtt e) \<and> list_all in_range xs \<and> length xs = length (reports ms) - 500))"
proof -
  have "engine_inv e" by (rule engine_run.reach_inv [OF trace_reach [OF assms(1)]])
  then have "samples_ok (t2t e) (length (orders_popped e))" "orders e = of_nat (length (orders_popped e))"
    by (simp_all add: engine_inv_def gw_ok_def)
  then show ?thesis
    using trace_counts [OF assms(1)] warm_count_eq [OF assms(2)] warm_count_eq [of "length (reports ms)"]
    unfolding samples_ok_def by auto
qed

theorem histograms_count_witness:
  "\<exists>e m. engine_trace cfg_default \<lparr>ns_per_tick = Dbl 1 0\<rparr> 1000 [m] e \<and> is_report m \<and>
     length (orders_popped e) = 1 \<and> fills e = 1 \<and> hist_of [] (t2t e) \<and> hist_of [] (rtt e)"
proof -
  obtain e m where e: "engine_trace cfg_default \<lparr>ns_per_tick = Dbl 1 0\<rparr> 1000 [m] e" "is_report m" "length (orders_popped e) = 1"
    using run_one_report by blast
  then show ?thesis using histograms_count [OF e(1)] by (auto simp: reports_def intro!: exI [of _ e] exI [of _ m])
qed

text \<open>
  C18. The log file: it consists of one complete line per event taken, in the order of sending, each
  for an order that was sent. Unless a full ring has refused an event the lines are those of the
  first orders without a gap, and the file is never more than 4097 orders and the refused events
  behind.
\<close>

theorem log_file_lines:
  assumes "reach engine_init (engine_step c clk period) e" and "lg_file e"
  shows "\<exists>tscs sub. length tscs = length sub \<and> log_text e = concat (map2 nos_line tscs sub) \<and>
    subseq sub (orders_popped e) \<and> (log_refused e = 0 \<longrightarrow> prefix sub (orders_popped e)) \<and>
    length (orders_popped e) \<le> length sub + 4097 + log_refused e"
proof -
  have inv: "engine_inv e" by (rule engine_run.reach_inv [OF assms(1)])
  let ?L = "logged (orders_popped e) (gw_at e)" and ?n = "length (log_popped e)"
  have L: "log_pushed e = log_popped e @ ring_list ring_capacity (ring3 e)" "ring_ok ring_capacity (ring3 e)"
    "log_text e = concat (map log_line (log_popped e))" using inv assms(2) by (simp_all add: engine_inv_def log_ok_def)
  obtain ods where ods: "subseq ods ?L" "list_all2 event_for ods (log_pushed e)" "length (log_pushed e) + log_refused e = length ?L"
    using inv by (auto simp: engine_inv_def events_ok_def)
  have len: "length ods = length (log_pushed e)" using ods(2) by (rule list_all2_lengthD)
  let ?sub = "take ?n ods"
  have a: "list_all2 event_for ?sub (log_popped e)" using list_all2_take [OF ods(2), of ?n] L(1) by simp
  have sub: "subseq ?sub (orders_popped e)"
    by (meson take_is_prefix logged_prefix ods(1) prefix_imp_subseq subseq_order.trans)
  have "prefix ?sub (orders_popped e)" if "log_refused e = 0"
  proof -
    have "ods = ?L" using subseq_same_length [OF ods(1)] len ods(3) that by simp
    then show ?thesis by (meson take_is_prefix logged_prefix prefix_order.trans)
  qed
  moreover have "length (orders_popped e) \<le> length ?sub + 4097 + log_refused e"
    using logged_length [of "orders_popped e" "gw_at e"] ods(3) L(1) len ringq.contents_bound [OF L(2)] caps(1) by simp
  moreover have "length (map le_tsc (log_popped e)) = length ?sub" using list_all2_lengthD [OF a] by simp
  ultimately show ?thesis using sub L(3) event_lines [OF a] by metis
qed

theorem log_file_lines_witness:
  "\<exists>e tsc. reach engine_init (engine_step cfg_default \<lparr>ns_per_tick = Dbl 1 0\<rparr> 1000) e \<and> length (orders_popped e) = 1 \<and>
     log_text e = nos_line tsc (hd (orders_popped e))"
proof -
  obtain e where e: "reach engine_init (engine_step cfg_default \<lparr>ns_per_tick = Dbl 1 0\<rparr> 1000) e"
    "length (orders_popped e) = 1" "lg_file e" "log_refused e = 0" "log_text e \<noteq> []" using run_one_line by blast
  obtain tscs sub where s: "length tscs = length sub" "log_text e = concat (map2 nos_line tscs sub)" "prefix sub (orders_popped e)"
    using log_file_lines [OF e(1,3)] e(4) by auto
  obtain od where od: "orders_popped e = [od]" using e(2) by (cases "orders_popped e") auto
  have "sub = [od]" using s e(5) od by (cases sub) (auto simp: prefix_Cons)
  moreover obtain t where "tscs = [t]" using s(1) calculation by (cases tscs) auto
  ultimately show ?thesis using e od s(2) by (intro exI [of _ e] exI [of _ t]) simp
qed

end
