(* ===== verification/Shutdown.thy ===== *)
theory Shutdown
  imports Recording
begin

text \<open>
  The end of a run. Once the signal handler has cleared \<^verbatim>\<open>g_running\<close> every thread leaves its loop:
  a measure on the engine state bounds the steps that are left, so that the joins of \<^verbatim>\<open>main\<close> return.
  The logger's drain of the third ring is not ordered after the gateway's last push.
\<close>

section \<open>Steps left\<close>

fun md_left :: "md_pc \<Rightarrow> nat" where
  "md_left Md_Done = 0"
| "md_left Md_Loop = 1"
| "md_left (Md_Retry t) = 2"
| "md_left (Md_Push t) = 3"

fun st_left :: "st_pc \<Rightarrow> nat" where
  "st_left St_Done = 0"
| "st_left St_Loop = 1"
| "st_left (St_Retry od ptr) = 2"
| "st_left (St_Push od ptr) = 3"
| "st_left St_Pop = 4"

fun gw_left :: "gw_pc \<Rightarrow> nat" where
  "gw_left Gw_Done = 0"
| "gw_left Gw_Loop = 1"
| "gw_left Gw_Recv = 2"
| "gw_left (Gw_Log cid) = 3"
| "gw_left Gw_Pop = 4"

fun lg_left :: "nat \<Rightarrow> lg_pc \<Rightarrow> nat" where
  "lg_left n Lg_Done = 0"
| "lg_left n Lg_Size = 3 * n + 1"
| "lg_left n Lg_Loop = 3 * n + 2"
| "lg_left n Lg_Pop = (if n = 0 then 3 else 3 * n)"

text \<open>A step of the gateway may add an event to the log ring, which costs the logger three steps.\<close>

definition steps_left :: "engine \<Rightarrow> nat" where
  "steps_left e = md_left (md_at e) + st_left (st_at e) + 4 * gw_left (gw_at e) +
     lg_left (length (ring_list ring_capacity (ring3 e))) (lg_at e)"

definition all_done :: "engine \<Rightarrow> bool" where
  "all_done e \<longleftrightarrow> md_at e = Md_Done \<and> st_at e = St_Done \<and> gw_at e = Gw_Done \<and> lg_at e = Lg_Done"

lemma steps_left_done: "steps_left e = 0 \<longleftrightarrow> all_done e"
proof -
  have "md_left a = 0 \<longleftrightarrow> a = Md_Done" for a by (cases a) simp_all
  moreover have "st_left a = 0 \<longleftrightarrow> a = St_Done" for a by (cases a) simp_all
  moreover have "gw_left a = 0 \<longleftrightarrow> a = Gw_Done" for a by (cases a) simp_all
  moreover have "lg_left n a = 0 \<longleftrightarrow> a = Lg_Done" for n a by (cases a) simp_all
  ultimately show ?thesis by (simp add: steps_left_def all_done_def)
qed

lemma steps_left_bound:
  assumes "engine_inv e"
  shows "steps_left e \<le> 12314"
proof -
  have "length (ring_list ring_capacity (ring3 e)) \<le> 4096"
    using ringq.contents_bound [of ring_capacity "ring3 e"] assms caps(1) by (simp add: engine_inv_def log_ok_def)
  then have "lg_left (length (ring_list ring_capacity (ring3 e))) (lg_at e) \<le> 12291" by (cases "lg_at e") auto
  moreover have "md_left (md_at e) \<le> 3" by (cases "md_at e") simp_all
  moreover have "st_left (st_at e) \<le> 4" by (cases "st_at e") simp_all
  moreover have "gw_left (gw_at e) \<le> 4" by (cases "gw_at e") simp_all
  ultimately show ?thesis unfolding steps_left_def by linarith
qed

section \<open>The steps of each thread\<close>

lemma md_run_left:
  assumes "\<not> g_running e" "md_at e \<noteq> Md_Done"
  shows "steps_left (md_run period now t0 e) < steps_left e"
  using assms by (cases "md_at e") (auto simp: md_run_def md_advance_def steps_left_def case_prod_unfold Let_def)

lemma st_finish_left: "st_finish ptr e = Inr e' \<Longrightarrow> \<exists>p. e' = e\<lparr>opool := p, st_clordid := st_clordid e + 1, st_at := St_Loop\<rparr>"
  by (auto simp: st_finish_def cpp_bind_eq_Inr_iff)

lemma st_run_left:
  assumes "\<not> g_running e" "st_run c m e = Inr e'" "st_at e \<noteq> St_Done"
  shows "steps_left e' < steps_left e \<and> st_at e' \<noteq> St_Pop \<and> \<not> g_running e'"
proof (cases "st_at e")
  case St_Pop
  then show ?thesis using assms(1,2)
    by (auto simp: st_run_def steps_left_def Let_def cpp_bind_eq_Inr_iff split: prod.splits option.splits)
next
  case (St_Push od ptr)
  then show ?thesis using assms(1,2)
    by (auto simp: st_run_def steps_left_def Let_def split: prod.splits if_splits dest!: st_finish_left)
qed (use assms in \<open>auto simp: st_run_def steps_left_def dest!: st_finish_left\<close>)

lemma gw_send_left:
  assumes "\<not> g_running e" "gw_send clk now rs e = Inr e'"
  shows "(e' = e \<or> steps_left e' < steps_left e) \<and> st_at e' = st_at e \<and> ticks_popped e' = ticks_popped e \<and> \<not> g_running e'"
proof (cases "gw_at e")
  case Gw_Pop
  then show ?thesis using assms
    by (auto simp: gw_send_def steps_left_def cpp_bind_eq_Inr_iff split: prod.splits option.splits)
qed (use assms in \<open>auto simp: gw_send_def steps_left_def\<close>)

lemma lg_left_push: "lg_left (Suc n) at \<le> lg_left n at + 3"
  by (cases at) simp_all

lemma gw_log_left:
  assumes inv: "engine_inv e" and at: "gw_at e = Gw_Log cid"
  shows "steps_left (gw_log now e) < steps_left e"
proof -
  have ok: "ring_ok ring_capacity (ring3 e)" using inv by (simp add: engine_inv_def log_ok_def)
  have "lg_left (length (ring_list ring_capacity (snd (try_push ring_capacity (nos_log now cid) (ring3 e))))) (lg_at e)
      \<le> lg_left (length (ring_list ring_capacity (ring3 e))) (lg_at e) + 3"
    using lg_left_push ringq.contents_push [OF ok, of "nos_log now cid"] by simp
  then show ?thesis using at by (simp add: gw_log_def case_prod_unfold Let_def steps_left_def)
qed

lemma gw_fills_frame: "gw_fills clk rx ms e = Inr e' \<Longrightarrow> \<exists>h n. e' = e\<lparr>rtt := h, fills := n\<rparr>"
proof (induction ms arbitrary: e)
  case (Cons m ms)
  then obtain e1 where e1: "gw_fill clk rx m e = Inr e1" "gw_fills clk rx ms e1 = Inr e'" by (auto simp: cpp_bind_eq_Inr_iff)
  have "\<exists>h n. e1 = e\<lparr>rtt := h, fills := n\<rparr>"
  proof (cases "view_get m 35 = ''8''")
    case False
    then have "e1 = e\<lparr>rtt := rtt e, fills := fills e\<rparr>" using e1(1) by (simp add: gw_fill_def)
    then show ?thesis by blast
  qed (use e1(1) in \<open>auto simp: gw_fill_def Let_def cpp_bind_eq_Inr_iff\<close>)
  then show ?case using Cons.IH [OF e1(2)] by fastforce
next
  case Nil
  then have "e' = e\<lparr>rtt := rtt e, fills := fills e\<rparr>" by simp
  then show ?case by blast
qed

lemma gw_recv_cases:
  assumes "gw_recv clk rx r e = Some (Inr e')"
  obtains "e' = e" | buf h n at where "gw_at e = Gw_Recv" "at = Gw_Loop \<or> at = Gw_Done"
    "e' = e\<lparr>gw_buf := buf, rtt := h, fills := n, gw_at := at\<rparr>"
proof (cases "gw_at e = Gw_Recv")
  case True
  show thesis
  proof (cases r)
    case (Recv bytes)
    then obtain ms buf where "gw_fills clk rx ms (e\<lparr>gw_buf := buf, gw_at := Gw_Loop\<rparr>) = Inr e'"
      using assms True by (auto simp: gw_recv_def split: option.splits)
    then obtain h n where "e' = e\<lparr>gw_buf := buf, gw_at := Gw_Loop, rtt := h, fills := n\<rparr>" using gw_fills_frame by blast
    then have "e' = e\<lparr>gw_buf := buf, rtt := h, fills := n, gw_at := Gw_Loop\<rparr>" by simp
    then show thesis using that(2) True by blast
  next
    case Recv_again
    then show thesis using that(2) [of Gw_Loop "fills e" "rtt e" "gw_buf e"] assms True by (simp add: gw_recv_def)
  qed (use that(2) [of Gw_Done "fills e" "rtt e" "gw_buf e"] assms True in \<open>simp_all add: gw_recv_def\<close>)
qed (use that(1) assms in \<open>simp add: gw_recv_def\<close>)

lemma size_approx_list: "0 < size_approx r \<longleftrightarrow> ring_list cap r \<noteq> []"
  by (simp add: ring_list_def word_less_nat_alt)

lemma lg_run_left:
  assumes inv: "engine_inv e" and stop: "\<not> g_running e" and at: "lg_at e \<noteq> Lg_Done"
  shows "steps_left (lg_run e) < steps_left e"
proof (cases "lg_at e")
  case Lg_Pop
  have ok: "ring_ok ring_capacity (ring3 e)" using inv by (simp add: engine_inv_def log_ok_def)
  obtain x r where pop: "try_pop ring_capacity (ring3 e) = (x, r)" by (cases "try_pop ring_capacity (ring3 e)")
  show ?thesis
  proof (cases x)
    case None
    then have "ring_list ring_capacity r = ring_list ring_capacity (ring3 e)" "ring_list ring_capacity (ring3 e) = []"
      using ring_pop_none(2) [OF ok] ringq.pop_none_iff [OF ok] pop by simp_all
    then show ?thesis using pop None Lg_Pop by (simp add: lg_run_def steps_left_def)
  next
    case (Some le)
    then show ?thesis using ring_pop_some(2) [OF ok] pop Lg_Pop by (simp add: lg_run_def steps_left_def)
  qed
next
  case Lg_Size
  then show ?thesis using size_approx_list [of "ring3 e" ring_capacity]
    by (cases "ring_list ring_capacity (ring3 e) = []") (simp_all add: lg_run_def steps_left_def del: ring_list_length)
qed (use stop at in \<open>simp_all add: lg_run_def steps_left_def\<close>)

section \<open>The engine after the signal\<close>

text \<open>The strategy takes at most one more tick, whose order must still fit its buffer.\<close>

definition stopping :: "engine \<Rightarrow> bool" where
  "stopping e \<longleftrightarrow> engine_inv e \<and> \<not> g_running e \<and> (st_at e = St_Pop \<longrightarrow> length (ticks_popped e) < 10 ^ 7 - 1)"

lemma thread_lowers_left:
  assumes step: "thread_step c clk period e e'" and inv: "engine_inv e" and stop: "\<not> g_running e"
  shows "(e' = e \<or> steps_left e' < steps_left e \<or> stale_step e e' \<and> steps_left e' \<le> steps_left e + 2) \<and> \<not> g_running e' \<and>
    (st_at e' = St_Pop \<longrightarrow> st_at e = St_Pop \<and> ticks_popped e' = ticks_popped e)"
  using step
proof (cases rule: thread_step.cases)
  case (step_md now t0)
  have "g_running (md_run period now t0 e) = g_running e" "st_at (md_run period now t0 e) = st_at e"
    "ticks_popped (md_run period now t0 e) = ticks_popped e" "md_at e = Md_Done \<Longrightarrow> md_run period now t0 e = e"
    by (auto simp: md_run_def md_advance_def Let_def split: md_pc.splits prod.splits)
  then show ?thesis using md_run_left [OF stop, of period now t0] stop step_md by auto
next
  case (step_st m)
  then show ?thesis using st_run_left [OF stop, of c m e'] stop by (cases "st_at e = St_Done") (auto simp: st_run_def)
next
  case (step_gw_send rs now)
  then show ?thesis using gw_send_left [OF stop] by metis
next
  case (step_gw_log now)
  have "g_running (gw_log now e) = g_running e" "st_at (gw_log now e) = st_at e" "ticks_popped (gw_log now e) = ticks_popped e"
    by (auto simp: gw_log_def Let_def split: gw_pc.splits prod.splits)
  moreover have "gw_log now e = e \<or> steps_left (gw_log now e) < steps_left e"
    using gw_log_left [OF inv, of _ now] by (cases "gw_at e") (simp_all add: gw_log_def)
  ultimately show ?thesis using stop step_gw_log by auto
next
  case step_lg
  have "g_running (lg_run e) = g_running e" "st_at (lg_run e) = st_at e" "ticks_popped (lg_run e) = ticks_popped e"
    "lg_at e = Lg_Done \<Longrightarrow> lg_run e = e"
    by (auto simp: lg_run_def split: lg_pc.splits prod.splits option.splits)
  then show ?thesis using lg_run_left [OF inv stop] stop step_lg by auto
next
  case step_stop
  then show ?thesis using stop by (cases e) (simp add: on_signal_def)
next
  case step_stale
  then have "steps_left e' \<le> steps_left e + 2" by (elim stale_stepE) (auto simp: steps_left_def)
  moreover have "\<not> g_running e'" "st_at e' = St_Pop \<longrightarrow> st_at e = St_Pop \<and> ticks_popped e' = ticks_popped e"
    using step_stale stop by (elim stale_stepE; simp)+
  ultimately show ?thesis using step_stale by blast
qed

lemma step_lowers_left:
  assumes step: "engine_step c clk period e e'" and inv: "engine_inv e" and stop: "\<not> g_running e"
  shows "(e' = e \<or> steps_left e' < steps_left e \<or> stale_step e e' \<and> steps_left e' \<le> steps_left e + 2) \<and> \<not> g_running e' \<and>
    (st_at e' = St_Pop \<longrightarrow> st_at e = St_Pop \<and> ticks_popped e' = ticks_popped e)"
  using step
proof (cases rule: engine_step.cases)
  case (step_gw_recv rx r)
  then show ?thesis using stop by (elim gw_recv_cases) (auto simp: steps_left_def)
qed (use thread_lowers_left [OF _ inv stop] in blast)

text \<open>While a thread has not returned, a step of that thread is enabled.\<close>

lemma gw_pop_enabled:
  assumes inv: "engine_inv e" and at: "gw_at e = Gw_Pop"
  shows "\<exists>rs now e'. send_returns rs e \<and> gw_send clk now rs e = Inr e'"
proof (cases "try_pop ring_capacity (ring2 e)")
  case (Pair x r)
  show ?thesis
  proof (cases x)
    case None
    then show ?thesis using at Pair by (auto simp: send_returns_def gw_send_def)
  next
    case (Some od)
    let ?b = "take (unat (o_fix_len od)) (o_fix od)"
    let ?rs = "[Sent (Suc (length ?b))]"
    have "fst (send_all ?rs ?b) = Some True" using send_loop_returns [of ?rs ?b 0] by (simp add: send_all_def accepted_def)
    then have ret: "send_returns ?rs e" using Pair Some by (simp add: send_returns_def)
    have "ticks_to_ns clk 0 = Inr 0" by (simp add: ticks_to_ns_scaled)
    moreover obtain xs where "hist_of xs (t2t e)" using inv by (auto simp: engine_inv_def samples_ok_def)
    ultimately have "\<exists>h. record_if (warm (orders e)) clk (o_t0_tsc od - o_t0_tsc od) (t2t e) = Inr h"
      using hist_record_step [of xs "t2t e" 0 "[]"] by (auto simp: record_if_def in_range_def)
    then obtain e' where "gw_send clk (o_t0_tsc od) ?rs e = Inr e'" using at Pair Some by (auto simp: gw_send_def)
    then show ?thesis using ret by blast
  qed
qed

lemma st_enabled:
  assumes inv: "engine_inv e" and ok: "stopping e"
  shows "\<exists>e'. st_run c True e = Inr e'"
proof (cases "st_at e")
  case St_Pop
  then show ?thesis using st_no_fault [OF inv, of c True] ok by (simp add: stopping_def)
next
  case (St_Push od ptr)
  then show ?thesis using st_push_inv [OF inv] by blast
next
  case (St_Retry od ptr)
  then show ?thesis using st_retry_inv [OF inv] by blast
qed (simp_all add: st_run_def)

lemma gw_enabled:
  assumes inv: "engine_inv e" and stop: "\<not> g_running e" and gw: "gw_at e \<noteq> Gw_Done"
  shows "\<exists>e'. engine_step c clk period e e' \<and> steps_left e' < steps_left e"
proof (cases "gw_at e")
  case Gw_Loop
  then have "gw_send clk 0 [] e = Inr (e\<lparr>gw_at := Gw_Done\<rparr>)" "send_returns [] e" using stop by (simp_all add: gw_send_def send_returns_def)
  then show ?thesis using engine_steps(3) Gw_Loop by (fastforce simp: steps_left_def)
next
  case Gw_Pop
  then obtain rs now e' where s: "send_returns rs e" "gw_send clk now rs e = Inr e'" using gw_pop_enabled [OF inv] by blast
  then have "gw_at e' \<noteq> Gw_Pop" using Gw_Pop by (auto simp: gw_send_def cpp_bind_eq_Inr_iff split: prod.splits option.splits)
  then have "e' \<noteq> e" using Gw_Pop by auto
  then show ?thesis using gw_send_left [OF stop s(2)] engine_steps(3) [OF s] by blast
next
  case (Gw_Log cid)
  then show ?thesis using gw_log_left [OF inv] engine_steps(4) by blast
next
  case Gw_Recv
  then have "gw_recv clk (\<lambda>_. 0) Recv_again e = Some (Inr (e\<lparr>gw_at := Gw_Loop\<rparr>))" by (simp add: gw_recv_def)
  then show ?thesis using step_gw_recv Gw_Recv by (fastforce simp: steps_left_def)
qed (use gw in simp)

lemma unfinished_steps:
  assumes ok: "stopping e" and "\<not> all_done e"
  shows "\<exists>e'. engine_step c clk period e e' \<and> steps_left e' < steps_left e"
proof -
  have inv: "engine_inv e" and stop: "\<not> g_running e" using ok by (simp_all add: stopping_def)
  consider (md) "md_at e \<noteq> Md_Done" | (st) "st_at e \<noteq> St_Done" | (gw) "gw_at e \<noteq> Gw_Done" | (lg) "lg_at e \<noteq> Lg_Done"
    using assms(2) by (auto simp: all_done_def)
  then show ?thesis
  proof cases
    case md
    then show ?thesis using md_run_left [OF stop] engine_steps(1) by blast
  next
    case st
    then show ?thesis using st_enabled [OF inv ok, of c] st_run_left [OF stop _ st] engine_steps(2) by blast
  next
    case gw
    then show ?thesis by (rule gw_enabled [OF inv stop])
  next
    case lg
    then show ?thesis using lg_run_left [OF inv stop] engine_steps(5) by blast
  qed
qed

interpretation stopped: draining "engine_step c clk period" stale_step 2 stopping all_done steps_left for c clk period
proof unfold_locales
  fix e e'
  assume e: "stopping e"
  then have inv: "engine_inv e" "\<not> g_running e" by (simp_all add: stopping_def)
  show "stopping e'" if "engine_step c clk period e e'"
    using step_lowers_left [OF that inv] engine_run.inv_step [OF inv(1) that] e by (auto simp: stopping_def)
  show "e' = e \<or> steps_left e' < steps_left e \<or> stale_step e e' \<and> steps_left e' \<le> steps_left e + 2" if "engine_step c clk period e e'"
    using step_lowers_left [OF that inv] by blast
  show "\<exists>e'. engine_step c clk period e e' \<and> steps_left e' < steps_left e" if "\<not> all_done e"
    using unfinished_steps [OF e that] .
qed

section \<open>Properties\<close>

text \<open>
  Shutdown terminates: from every reachable state in which the flag has been cleared (with fewer
  than ten million ticks taken) all four threads can run to their return, and a schedule in which
  \<open>k\<close> loads of ring indices return an old value makes at most \<open>12314 + 3 * k\<close> steps that change the
  state. So every fair schedule gets there once the stores of the others become visible.
\<close>

lemma shutdown_terminates:
  assumes "reach engine_init (engine_step c clk period) e" and "\<not> g_running e" and "length (ticks_popped e) < 10 ^ 7 - 1"
  shows "(\<exists>e'. (engine_step c clk period)\<^sup>*\<^sup>* e e' \<and> all_done e') \<and>
    (\<forall>f n. f 0 = e \<and> (\<forall>i < n. engine_step c clk period (f i) (f (Suc i)) \<and> f (Suc i) \<noteq> f i) \<longrightarrow>
      n \<le> 12314 + 3 * card {i. i < n \<and> stale_step (f i) (f (Suc i))})"
proof (intro conjI allI impI)
  have inv: "engine_inv e" by (rule engine_run.reach_inv [OF assms(1)])
  then have s: "stopping e" using assms(2,3) by (simp add: stopping_def)
  show "\<exists>e'. (engine_step c clk period)\<^sup>*\<^sup>* e e' \<and> all_done e'" using stopped.comes_to_rest [OF s] by blast
  fix f n
  assume f: "f 0 = e \<and> (\<forall>i < n. engine_step c clk period (f i) (f (Suc i)) \<and> f (Suc i) \<noteq> f i)"
  have "n + steps_left (f n) \<le> steps_left (f 0) + Suc 2 * card {i. i < n \<and> stale_step (f i) (f (Suc i))}"
    by (rule stopped.run_bounded [of f n c clk period]) (use f s in simp_all)
  then show "n \<le> 12314 + 3 * card {i. i < n \<and> stale_step (f i) (f (Suc i))}" using steps_left_bound [OF inv] f by simp
qed

text \<open>The sample run of one order, stopped while the gateway is about to log it.\<close>

lemma run_stopped:
  "\<exists>e. reach engine_init (engine_step c clk period) e \<and> \<not> g_running e \<and> length (orders_popped e) = 1 \<and>
     length (ticks_popped e) = 1 \<and> gw_at e = Gw_Log 1 \<and> lg_at e = Lg_Loop \<and> log_pushed e = [] \<and> log_popped e = [] \<and>
     md_at e = Md_Loop \<and> st_at e = St_Loop \<and> lg_file e"
proof -
  obtain e where e: "reach engine_init (engine_step c clk period) e" "length (orders_popped e) = 1"
     "length (ticks_popped e) = 1" "gw_at e = Gw_Log 1" "lg_at e = Lg_Loop" "log_pushed e = []" "log_popped e = []"
     "md_at e = Md_Loop" "st_at e = St_Loop" "lg_file e" using run_one_order by blast
  have "reach engine_init (engine_step c clk period) (on_signal e)" by (rule reach_step [OF e(1) engine_steps(6)])
  then show ?thesis using e(2-) by (intro exI [of _ "on_signal e"]) (simp add: on_signal_def)
qed

text \<open>
  C38. The logger may return too early: there is a run with its file open in which every thread has
  returned, an order was sent, no event was refused, and yet the event of the order is still in
  the ring and the file is empty. The logger read the cleared flag and the empty ring while the
  gateway, past its own test of the flag, had still to push the event.
\<close>

theorem shutdown_loses_event:
  shows "\<exists>e. reach engine_init (engine_step c clk period) e \<and> all_done e \<and> length (orders_popped e) = 1 \<and>
    lg_file e \<and> log_refused e = 0 \<and> log_text e = [] \<and> ring_list ring_capacity (ring3 e) \<noteq> []"
proof -
  let ?reach = "reach engine_init (engine_step c clk period)"
  obtain e where e: "?reach e" "\<not> g_running e" "length (orders_popped e) = 1" "gw_at e = Gw_Log 1" "lg_at e = Lg_Loop"
    "log_pushed e = []" "log_popped e = []" "md_at e = Md_Loop" "st_at e = St_Loop" "lg_file e" using run_stopped by blast
  have L: "ring_ok ring_capacity (ring3 e)" "ring_list ring_capacity (ring3 e) = []" "log_refused e = 0" "log_text e = []"
    using engine_run.reach_inv [OF e(1)] e by (auto simp: engine_inv_def log_ok_def events_ok_def logged_def)
  have empty: "\<not> 0 < size_approx (ring3 e)" using size_approx_list [of "ring3 e" ring_capacity] L(2) by simp
  let ?q = "try_push ring_capacity (nos_log 0 1) (ring3 e)"
  note pu = push_into_empty [OF L(1,2), of "nos_log 0 1"]
  have l: "?reach (lg_run (lg_run e))" by (rule reach_step [OF reach_step [OF e(1) engine_steps(5)] engine_steps(5)])
  have "lg_run (lg_run e) = e\<lparr>lg_at := Lg_Done\<rparr>" using e(2,5) empty by (simp add: lg_run_def)
  then have r1: "?reach (gw_log 0 (e\<lparr>lg_at := Lg_Done\<rparr>))" using reach_step [OF l engine_steps(4)] by simp
  obtain e2 where e2: "e2 = gw_log 0 (e\<lparr>lg_at := Lg_Done\<rparr>)" "gw_at e2 = Gw_Recv" "lg_at e2 = Lg_Done" "ring3 e2 = snd ?q"
    "\<not> g_running e2" "md_at e2 = Md_Loop" "st_at e2 = St_Loop" "lg_file e2" "log_refused e2 = 0" "log_text e2 = []"
    "orders_popped e2 = orders_popped e"
    using e pu(1) L by (simp add: gw_log_def case_prod_unfold Let_def)
  have r2: "?reach e2" using r1 e2(1) by simp
  have r3: "?reach (e2\<lparr>gw_at := Gw_Loop\<rparr>)"
    by (rule reach_step [OF r2 step_gw_recv [of clk "\<lambda>_. 0" Recv_again]]) (simp add: gw_recv_def e2(2))
  have r4: "?reach (e2\<lparr>gw_at := Gw_Done\<rparr>)"
    by (rule reach_step [OF r3 engine_steps(3) [of "[]" _ clk 0]]) (simp_all add: gw_send_def send_returns_def e2(5))
  have r5: "?reach (e2\<lparr>gw_at := Gw_Done, md_at := Md_Done\<rparr>)"
    using reach_step [OF r4 engine_steps(1) [of c clk period _ 0 0]] by (simp add: md_run_def e2(5,6))
  have r6: "?reach (e2\<lparr>gw_at := Gw_Done, md_at := Md_Done, st_at := St_Done\<rparr>)"
    by (rule reach_step [OF r5 engine_steps(2) [of c True]]) (simp add: st_run_def e2(5,7))
  show ?thesis
    by (intro exI conjI, rule r6) (use e2 pu(2) e(3) in \<open>simp_all add: all_done_def\<close>)
qed

end
