(* ===== verification/Startup.thy ===== *)
theory Startup
  imports Session Shutdown
begin

text \<open>
  The engine process: \<^verbatim>\<open>main\<close> of \<^verbatim>\<open>src/engine_main.cpp\<close> from the command line to the exit status. Start-up
  (memory lock, placement of the hot state, calibration, connection, logon), the five threads as
  one step relation (the four of \<open>Pipeline\<close> and the metrics thread), the joins, and the clean-up.
\<close>

section \<open>Start-up\<close>

definition lock_memory :: "int \<Rightarrow> bool" where
  "lock_memory mlockall = (mlockall = 0)"

text \<open>
  What the outside answers during start-up. \<open>be_sizeof\<close> is \<^verbatim>\<open>sizeof(HotState)\<close>.
\<close>

record boot_env =
  be_mlock :: int
  be_mmap :: "u64 \<Rightarrow> u32 \<Rightarrow> u64 option"
  be_sizeof :: u64
  be_calib :: calib_sample
  be_cpuinfo :: "string list"
  be_fd :: int
  be_connect :: bool
  be_getfl :: u32
  be_tm :: tm
  be_ns :: int
  be_send :: "send_res list"
  be_recv :: "recv_res list"

datatype boot_msg = Mlock_denied | Tsc_not_invariant | Banner cfg bool | Cannot_connect string u16 | Logon_failed
  | Logon_acknowledged | Shutdown_counts u64 u64

text \<open>
  The process exits with a status, waits forever, or starts its threads with the configuration, the
  clock, the address of the hot state (none: on the heap), the huge-page flag and the socket.
\<close>

datatype boot_result = Boot_exit int | Boot_hangs | Boot_run cfg "tsc_clock option" "u64 option" bool int

definition engine_boot :: "string list \<Rightarrow> boot_env \<Rightarrow> (boot_result \<times> boot_msg list \<times> ncall list) cpp" where
  "engine_boot args v =
     cpp_bind (parse args cfg_default) (\<lambda>c.
     let m1 = (if lock_memory (be_mlock v) then [] else [Mlock_denied]);
         (place, on_huge) = place_hot_state (be_mmap v) (huge c) (be_sizeof v)
     in cpp_bind (calibrate (be_calib v)) (\<lambda>clk.
     let m2 = m1 @ (if tsc_is_invariant (be_cpuinfo v) then [] else [Tsc_not_invariant]) @ [Banner c on_huge];
         (fd, calls) = connect_tcp (be_fd v) (be_connect v) (exch_ip c) kExchangePort
     in if fd < 0 then Inr (Boot_exit 1, m2 @ [Cannot_connect (exch_ip c) kExchangePort], calls)
        else cpp_bind (do_logon (be_tm v) (be_ns v) (be_send v) (be_recv v)) (\<lambda>(sent, ok).
          case ok of
            None \<Rightarrow> Inr (Boot_hangs, m2, calls)
          | Some False \<Rightarrow> Inr (Boot_exit 1, m2 @ [Logon_failed], calls @ [CClose fd])
          | Some True \<Rightarrow> Inr (Boot_run c clk place on_huge fd, m2 @ [Logon_acknowledged],
              calls @ set_nonblocking (be_getfl v) fd))))"

section \<open>The threads\<close>

record system =
  s_engine :: engine
  s_mx :: mx_state

text \<open>The metrics thread reads the hot state of the moment; the kernel hands out descriptors not in use.\<close>

definition mx_page :: "tsc_clock \<Rightarrow> bool \<Rightarrow> engine \<Rightarrow> string cpp" where
  "mx_page clk on_huge e = build_metrics (t2t e) (rtt e) (orders e) (fills e) clk on_huge"

definition fresh_fd :: "int \<Rightarrow> int \<Rightarrow> mx_state \<Rightarrow> bool" where
  "fresh_fd sock fd m \<longleftrightarrow> fd \<noteq> sock \<and> fd \<notin> open_fds (mx_calls m) {}"

text \<open>A step of the metrics thread that answers a client ends when its \<^verbatim>\<open>send_all\<close> does.\<close>

definition mx_send_returns :: "string cpp \<Rightarrow> int \<Rightarrow> send_res list \<Rightarrow> mx_state \<Rightarrow> bool" where
  "mx_send_returns page afd rs m \<longleftrightarrow>
     (case mx_at m of
        Mx_Accept lfd \<Rightarrow> afd < 0 \<or> (case page of Inl _ \<Rightarrow> True | Inr body \<Rightarrow> fst (send_all rs (http_response body)) \<noteq> None)
      | _ \<Rightarrow> True)"

inductive system_step :: "cfg \<Rightarrow> tsc_clock \<Rightarrow> u64 \<Rightarrow> bool \<Rightarrow> int \<Rightarrow> system \<Rightarrow> system \<Rightarrow> bool"
  for c clk period on_huge sock where
  sys_engine: "engine_step c clk period (s_engine s) e' \<Longrightarrow> system_step c clk period on_huge sock s (s\<lparr>s_engine := e'\<rparr>)"
| sys_mx: "mx_run (g_running (s_engine s)) (mx_page clk on_huge (s_engine s)) lis afd rs (s_mx s) = Inr m' \<Longrightarrow>
    fresh_fd sock (fst lis) (s_mx s) \<Longrightarrow> fresh_fd sock afd (s_mx s) \<Longrightarrow>
    mx_send_returns (mx_page clk on_huge (s_engine s)) afd rs (s_mx s) \<Longrightarrow>
    system_step c clk period on_huge sock s (s\<lparr>s_mx := m'\<rparr>)"

inductive_cases system_stepE: "system_step c clk period on_huge sock s s'"

definition system_init :: "system \<Rightarrow> bool" where
  "system_init s \<longleftrightarrow> engine_init (s_engine s) \<and> s_mx s = mx_new"

definition joined :: "system \<Rightarrow> bool" where
  "joined s \<longleftrightarrow> all_done (s_engine s) \<and> mx_at (s_mx s) = Mx_Done"

section \<open>The process\<close>

text \<open>How the hot state is given up: destroyed in the arena or deleted from the heap.\<close>

datatype hot_end = Destroyed u64 | Deleted

definition engine_end :: "u64 option \<Rightarrow> int \<Rightarrow> engine \<Rightarrow> int \<times> boot_msg list \<times> ncall list \<times> hot_end" where
  "engine_end place fd e =
     (0, [Shutdown_counts (orders e) (fills e)], [CClose fd], case place of Some a \<Rightarrow> Destroyed a | None \<Rightarrow> Deleted)"

text \<open>
  A complete run of \<^verbatim>\<open>main\<close>: its exit status, the messages it prints and the calls of its threads. The
  threads start once the period of the market data could be computed.
\<close>

inductive engine_main :: "string list \<Rightarrow> boot_env \<Rightarrow> int \<Rightarrow> boot_msg list \<Rightarrow> ncall list \<Rightarrow> bool" for args v where
  main_refused: "engine_boot args v = Inr (Boot_exit n, msgs, calls) \<Longrightarrow> engine_main args v n msgs calls"
| main_run: "engine_boot args v = Inr (Boot_run c (Some clk) place on_huge fd, msgs, calls) \<Longrightarrow>
    period_ticks c clk = Inr period \<Longrightarrow> system_init s0 \<Longrightarrow> (system_step c clk period on_huge fd)\<^sup>*\<^sup>* s0 s \<Longrightarrow> joined s \<Longrightarrow>
    engine_end place fd (s_engine s) = (n, msgs', calls', ending) \<Longrightarrow>
    engine_main args v n (msgs @ msgs') (calls @ mx_calls (s_mx s) @ calls')"

section \<open>Invariants of the system\<close>

definition mx_open :: "mx_pc \<Rightarrow> int set" where
  "mx_open at = (case at of Mx_Loop lfd \<Rightarrow> {lfd} | Mx_Accept lfd \<Rightarrow> {lfd} | _ \<Rightarrow> {})"

definition system_inv :: "cfg \<Rightarrow> tsc_clock \<Rightarrow> u64 \<Rightarrow> bool \<Rightarrow> int \<Rightarrow> system \<Rightarrow> bool" where
  "system_inv c clk period on_huge sock s \<longleftrightarrow> reach engine_init (engine_step c clk period) (s_engine s) \<and>
     open_fds (mx_calls (s_mx s)) {} = mx_open (mx_at (s_mx s)) \<and> sock \<notin> mx_open (mx_at (s_mx s)) \<and>
     open_fds (mx_calls (s_mx s)) {sock} = insert sock (mx_open (mx_at (s_mx s)))"

lemma mx_run_inv:
  assumes inv: "system_inv c clk period on_huge sock s"
    and run: "mx_run (g_running (s_engine s)) (mx_page clk on_huge (s_engine s)) lis afd rs (s_mx s) = Inr m'"
    and fresh: "fresh_fd sock (fst lis) (s_mx s)" "fresh_fd sock afd (s_mx s)"
  shows "system_inv c clk period on_huge sock (s\<lparr>s_mx := m'\<rparr>)"
proof (cases "mx_at (s_mx s)")
  case Mx_Start
  obtain fd b l where lis: "lis = (fd, b, l)" by (cases lis)
  let ?l = "listen_tcp fd b l ''127.0.0.1'' kMetricsPort"
  have n: "fd \<noteq> sock" using fresh(1) by (simp add: lis fresh_fd_def)
  have "fd \<notin> {}" "fd \<notin> {sock}" using n by simp_all
  note L = sockets_no_leak(2,4,6) [OF this(1), where b = b and l = l and ip = "''127.0.0.1''" and port = kMetricsPort]
    sockets_no_leak(2) [OF this(2), where b = b and l = l and ip = "''127.0.0.1''" and port = kMetricsPort]
  have "fst ?l = fd" if "fst ?l \<noteq> -1" using that by (simp add: listen_tcp_def split: if_splits)
  then show ?thesis using inv run Mx_Start lis L n
    by (cases "fst ?l = -1") (auto simp: mx_run_def Let_def case_prod_unfold system_inv_def mx_open_def fd_call_def)
next
  case (Mx_Loop lfd)
  then show ?thesis using inv run
    by (cases "g_running (s_engine s)") (auto simp: mx_run_def system_inv_def mx_open_def fd_call_def)
next
  case (Mx_Accept lfd)
  have a: "afd \<noteq> sock" "afd \<noteq> lfd" using fresh(2) inv Mx_Accept by (auto simp: fresh_fd_def system_inv_def mx_open_def)
  show ?thesis
  proof (cases "afd < 0")
    case True
    then show ?thesis using inv run Mx_Accept by (auto simp: mx_run_def system_inv_def mx_open_def fd_call_def)
  next
    case False
    then obtain body where body: "mx_page clk on_huge (s_engine s) = Inr body"
      "m' = (s_mx s)\<lparr>mx_at := Mx_Loop lfd, mx_calls := mx_calls (s_mx s) @ [CAccept lfd afd, CClose afd],
         mx_sent := mx_sent (s_mx s) @ [snd (send_all rs (http_response body))]\<rparr>"
      using run Mx_Accept by (auto simp: mx_run_def cpp_bind_eq_Inr_iff)
    show ?thesis using inv False Mx_Accept a by (auto simp: body(2) system_inv_def mx_open_def fd_call_def)
  qed
qed (use inv run in \<open>auto simp: mx_run_def\<close>)

interpretation system_run: inductive_invariant system_init "system_step c clk period on_huge sock" "system_inv c clk period on_huge sock"
  for c clk period on_huge sock
proof unfold_locales
  show "system_inv c clk period on_huge sock s" if "system_init s" for s
    using that by (auto simp: system_init_def system_inv_def mx_new_def mx_open_def intro: reach_init)
  show "system_inv c clk period on_huge sock s'"
    if inv: "system_inv c clk period on_huge sock s" and step: "system_step c clk period on_huge sock s s'" for s s'
    using step
  proof (cases rule: system_step.cases)
    case (sys_engine e')
    then show ?thesis using inv by (auto simp: system_inv_def intro: reach_step)
  next
    case (sys_mx lis afd rs m')
    then show ?thesis using mx_run_inv [OF inv] by simp
  qed
qed

section \<open>Stopping\<close>

fun mx_left :: "mx_pc \<Rightarrow> nat" where
  "mx_left Mx_Done = 0"
| "mx_left (Mx_Loop lfd) = 1"
| "mx_left (Mx_Accept lfd) = 2"
| "mx_left Mx_Start = 2"

definition system_left :: "system \<Rightarrow> nat" where
  "system_left s = steps_left (s_engine s) + mx_left (mx_at (s_mx s))"

lemma mx_run_left:
  assumes "mx_run False page lis afd rs m = Inr m'"
  shows "m' = m \<or> mx_left (mx_at m') < mx_left (mx_at m)"
  using assms
  by (cases "mx_at m") (auto simp: mx_run_def Let_def case_prod_unfold cpp_bind_eq_Inr_iff split: if_splits)

lemma fresh_negative:
  assumes "system_inv c clk period on_huge sock s"
  obtains fd where "fd < 0" "fresh_fd sock fd (s_mx s)"
proof -
  obtain lfd where l: "mx_open (mx_at (s_mx s)) \<subseteq> {lfd}" by (cases "mx_at (s_mx s)") (auto simp: mx_open_def)
  let ?fd = "- 1 - \<bar>sock\<bar> - \<bar>lfd\<bar>"
  have "?fd < 0" "?fd \<noteq> sock" "?fd \<noteq> lfd" by linarith+
  then show thesis using that [of ?fd] assms l by (auto simp: fresh_fd_def system_inv_def)
qed

lemma mx_enabled:
  assumes inv: "system_inv c clk period on_huge sock s" and stop: "\<not> g_running (s_engine s)" and at: "mx_at (s_mx s) \<noteq> Mx_Done"
  shows "\<exists>s'. system_step c clk period on_huge sock s s' \<and> system_left s' < system_left s"
proof -
  obtain fd where fd: "fd < 0" "fresh_fd sock fd (s_mx s)" using fresh_negative [OF inv] by blast
  let ?run = "mx_run False (mx_page clk on_huge (s_engine s)) (fd, False, False) fd [] (s_mx s)"
  obtain m' where m': "?run = Inr m'" "mx_left (mx_at m') < mx_left (mx_at (s_mx s))"
    using at fd(1) by (cases "mx_at (s_mx s)") (auto simp: mx_run_def Let_def listen_tcp_def)
  have "system_step c clk period on_huge sock s (s\<lparr>s_mx := m'\<rparr>)"
    by (rule sys_mx [of s clk on_huge "(fd, False, False)" fd "[]"]) (use m'(1) stop fd in \<open>simp_all add: mx_send_returns_def split: mx_pc.splits\<close>)
  then show ?thesis using m'(2) by (intro exI [of _ "s\<lparr>s_mx := m'\<rparr>"]) (simp add: system_left_def)
qed

definition system_stopping :: "cfg \<Rightarrow> tsc_clock \<Rightarrow> u64 \<Rightarrow> bool \<Rightarrow> int \<Rightarrow> system \<Rightarrow> bool" where
  "system_stopping c clk period on_huge sock s \<longleftrightarrow> system_inv c clk period on_huge sock s \<and> stopping (s_engine s)"

interpretation system_stopped: draining "system_step c clk period on_huge sock" "\<lambda>s t. stale_step (s_engine s) (s_engine t)" 2 "system_stopping c clk period on_huge sock" joined system_left
  for c clk period on_huge sock
proof unfold_locales
  fix s s'
  assume s: "system_stopping c clk period on_huge sock s"
  then have inv: "system_inv c clk period on_huge sock s" "stopping (s_engine s)" "\<not> g_running (s_engine s)"
    by (simp_all add: system_stopping_def stopping_def)
  show "system_stopping c clk period on_huge sock s'" if step: "system_step c clk period on_huge sock s s'"
    using system_run.inv_step [OF inv(1) step] step stopped.ok_step [OF inv(2)] inv(2)
    unfolding system_stopping_def by (auto elim!: system_stepE)
  show "s' = s \<or> system_left s' < system_left s \<or> stale_step (s_engine s) (s_engine s') \<and> system_left s' \<le> system_left s + 2"
    if step: "system_step c clk period on_huge sock s s'"
    using step
  proof (cases rule: system_step.cases)
    case (sys_engine e')
    then show ?thesis using stopped.step_lowers [OF inv(2) sys_engine(2)] by (auto simp: system_left_def)
  next
    case (sys_mx lis afd rs m')
    then show ?thesis using mx_run_left [of _ lis afd rs "s_mx s" m'] inv(3) by (auto simp: system_left_def)
  qed
  show "\<exists>s'. system_step c clk period on_huge sock s s' \<and> system_left s' < system_left s" if "\<not> joined s"
  proof (cases "all_done (s_engine s)")
    case True
    then show ?thesis using mx_enabled [OF inv(1,3)] that by (simp add: joined_def)
  next
    case False
    then obtain e' where "engine_step c clk period (s_engine s) e'" "steps_left e' < steps_left (s_engine s)"
      using stopped.progress [OF inv(2)] by blast
    then show ?thesis using sys_engine by (intro exI [of _ "s\<lparr>s_engine := e'\<rparr>"]) (simp add: system_left_def)
  qed
qed

section \<open>The command line\<close>

lemma parse_append: "parse (as @ bs) c = cpp_bind (parse as c) (parse bs)"
proof (induction as arbitrary: c)
  case (Cons a as)
  then show ?case by (cases "parse_arg a c") simp_all
qed simp

lemma parse_arg_rate: "parse_arg a c = Inr c' \<Longrightarrow> \<not> starts_with ''--rate='' a \<Longrightarrow> rate c' = rate c"
  by (auto simp: parse_arg_def cpp_bind_eq_Inr_iff split: if_splits)

lemma parse_keeps_rate: "parse as c = Inr c' \<Longrightarrow> list_all (\<lambda>a. \<not> starts_with ''--rate='' a) as \<Longrightarrow> rate c' = rate c"
proof (induction as arbitrary: c)
  case (Cons a as)
  then obtain c1 where "parse_arg a c = Inr c1" "parse as c1 = Inr c'" by (auto simp: cpp_bind_eq_Inr_iff)
  then show ?case using Cons parse_arg_rate [of a c c1] by simp
qed simp

lemma atoi_digits: "ds \<noteq> [] \<Longrightarrow> list_all is_digit ds \<Longrightarrow> atoi ds = Inr v \<Longrightarrow> v = int (digits_val ds)"
proof -
  assume a: "ds \<noteq> []" "list_all is_digit ds" "atoi ds = Inr v"
  then obtain d ds' where d: "ds = d # ds'" "is_digit d" by (cases ds) auto
  then have "\<not> is_space d" "d \<noteq> CHR ''-''" "d \<noteq> CHR ''+''" by (auto simp: is_digit_def is_space_def)
  moreover have "list_all is_digit ds'" using a(2) d(1) by simp
  ultimately show ?thesis using a(3) d by (simp add: atoi_def Let_def takeWhile_digits split: if_splits)
qed

lemma parse_rate_digits:
  assumes "parse_arg (''--rate='' @ ds) c = Inr c'" "ds \<noteq> []" "list_all is_digit ds"
  shows "rate c' = of_nat (digits_val ds)"
  using assms(1) atoi_digits [OF assms(2,3)] by (auto simp: parse_arg_def starts_with_def cpp_bind_eq_Inr_iff)

section \<open>A sample process\<close>

text \<open>A clock of one tick per nanosecond, and the period of a thousand ticks per second on it.\<close>

lemma sample_period:
  "period_ticks cfg_default \<lparr>ns_per_tick = Dbl 4503599627370496 (- 52)\<rparr> = Inr 1000000"
proof -
  have nb: "nbits 1000 = 10" "nbits (2 ^ 52) = 53" "nbits (1000000 * 2 ^ 66) = 86"
    "nbits (1000000 * 2 ^ 90) = 110"
    using nbits_unique [of 9 1000] nbits_unique [of 52 "2 ^ 52"]
      nbits_unique [of 85 "1000000 * 2 ^ 66"] nbits_unique [of 109 "1000000 * 2 ^ 90"] by simp_all
  have "ddiv (dbl_of_nat 1000000000) (dbl_of_nat 1000) = Dbl 8589934592000000 (- 33)"
    using nb(3) by (simp add: dbl_of_nat_small ddiv_def dround_def excess_def rne_def nb(1))
  moreover have "ddiv (Dbl 8589934592000000 (- 33)) (Dbl 4503599627370496 (- 52)) = Dbl 8589934592000000 (- 33)"
    using nb(2,4) by (simp add: ddiv_def dround_def excess_def rne_def)
  ultimately show "period_ticks cfg_default \<lparr>ns_per_tick = Dbl 4503599627370496 (- 52)\<rparr> = Inr 1000000"
    by (simp add: period_ticks_def cfg_default_def dbl_to_u64_def dtrunc_def)
qed

lemma sample_boot:
  "\<exists>v place on_huge msgs calls. engine_boot [] v =
     Inr (Boot_run cfg_default (Some \<lparr>ns_per_tick = Dbl 4503599627370496 (- 52)\<rparr>) place on_huge 3, msgs, calls)"
proof -
  let ?g = "fst (sample_clock 1)"
  have g: "tm_ok ?g" using sample_clock_ok by (simp add: clock_ok_def)
  obtain req reply where r: "logon_message ?g 0 = Inr req"
    "\<forall>srs cs. fst (send_all srs req) = Some True \<and> concat cs = reply \<and> length cs \<le> 50 \<longrightarrow>
       do_logon ?g 0 srs (map Recv cs) = Inr (req, Some True)"
    using logon_completes [OF g _ _ sample_clock_ok, where ns = 0 and k = sample_os and xc = exch_cfg_default and fd = 5
      and th = "\<lparr>th_mask = {0}, th_fifo = None\<rparr>"] by auto
  let ?srs = "[Sent (Suc (length req))]"
  have "fst (send_all ?srs req) = Some True" using send_loop_returns [of ?srs req 0] by (simp add: send_all_def accepted_def)
  then have l: "do_logon ?g 0 ?srs [Recv reply] = Inr (req, Some True)" using r(2) [rule_format, of ?srs "[reply]"] by simp
  let ?v = "\<lparr>be_mlock = 0, be_mmap = (\<lambda>n f. None), be_sizeof = 500000,
    be_calib = \<lparr>cs_w0 = \<lparr>tv_sec = 7, tv_nsec = 0\<rparr>, cs_c0 = 10, cs_c1 = 11, cs_w1 = \<lparr>tv_sec = 7, tv_nsec = 1\<rparr>\<rparr>,
    be_cpuinfo = [''flags : constant_tsc nonstop_tsc''], be_fd = 3, be_connect = True, be_getfl = 2, be_tm = ?g, be_ns = 0,
    be_send = ?srs, be_recv = [Recv reply]\<rparr>"
  have "calibrate (be_calib ?v) = Inr (Some \<lparr>ns_per_tick = Dbl 4503599627370496 (- 52)\<rparr>)"
    using ddiv_one by (simp add: calibrate_def elapsed_ns_def i64_defs)
  then have "\<exists>place on_huge msgs calls. engine_boot [] ?v =
     Inr (Boot_run cfg_default (Some \<lparr>ns_per_tick = Dbl 4503599627370496 (- 52)\<rparr>) place on_huge 3, msgs, calls)"
    using l by (simp add: engine_boot_def Let_def case_prod_unfold connect_tcp_def)
  then show ?thesis by blast
qed

text \<open>The signal, the return of the threads, and the end of \<^verbatim>\<open>main\<close>.\<close>

lemma stop_stopping:
  assumes "system_init s0" "(system_step c clk period on_huge fd)\<^sup>*\<^sup>* s0 s" "length (ticks_popped (s_engine s)) < 10 ^ 7 - 1"
  shows "system_step c clk period on_huge fd s (s\<lparr>s_engine := on_signal (s_engine s)\<rparr>)"
    and "system_stopping c clk period on_huge fd (s\<lparr>s_engine := on_signal (s_engine s)\<rparr>)"
proof -
  let ?e = "on_signal (s_engine s)"
  show step: "system_step c clk period on_huge fd s (s\<lparr>s_engine := ?e\<rparr>)" by (rule sys_engine [OF engine_steps(6)])
  have inv: "system_inv c clk period on_huge fd (s\<lparr>s_engine := ?e\<rparr>)"
    using system_run.inv_step [OF system_run.steps_inv [OF assms(2) system_run.inv_init [OF assms(1)]] step] .
  have "stopping ?e"
    using engine_run.reach_inv [of c clk period ?e] inv assms(3) by (simp add: stopping_def system_inv_def) (simp add: on_signal_def)
  then show "system_stopping c clk period on_huge fd (s\<lparr>s_engine := ?e\<rparr>)" using inv by (simp add: system_stopping_def)
qed

lemma stop_exits:
  assumes "engine_boot args v = Inr (Boot_run c (Some clk) place on_huge fd, msgs, calls)" "period_ticks c clk = Inr period"
    and "system_init s0" "(system_step c clk period on_huge fd)\<^sup>*\<^sup>* s0 s" "length (ticks_popped (s_engine s)) < 10 ^ 7 - 1"
  shows "\<exists>s'. (system_step c clk period on_huge fd)\<^sup>*\<^sup>* (s\<lparr>s_engine := on_signal (s_engine s)\<rparr>) s' \<and> joined s' \<and>
    engine_main args v 0 (msgs @ [Shutdown_counts (orders (s_engine s')) (fills (s_engine s'))])
      (calls @ mx_calls (s_mx s') @ [CClose fd])"
proof -
  let ?s = "s\<lparr>s_engine := on_signal (s_engine s)\<rparr>"
  note S = stop_stopping [OF assms(3-5)]
  from system_stopped.comes_to_rest [OF S(2)] obtain s' where
    s': "(system_step c clk period on_huge fd)\<^sup>*\<^sup>* ?s s'" "joined s'" by blast
  have "(system_step c clk period on_huge fd)\<^sup>*\<^sup>* s0 s'" using assms(4) S(1) s'(1) by (meson rtranclp.rtrancl_into_rtrancl rtranclp_trans)
  then have "engine_main args v 0 (msgs @ [Shutdown_counts (orders (s_engine s')) (fills (s_engine s'))])
      (calls @ mx_calls (s_mx s') @ [CClose fd])"
    by (rule main_run [OF assms(1-3)]) (use s'(2) in \<open>simp_all add: engine_end_def\<close>)
  then show ?thesis using s' by blast
qed

lemma stop_bounded:
  assumes "system_stopping c clk period on_huge fd s"
    and "f 0 = s \<and> (\<forall>i < n. system_step c clk period on_huge fd (f i) (f (Suc i)) \<and> f (Suc i) \<noteq> f i)"
  shows "n \<le> 12316 + 3 * card {i. i < n \<and> stale_step (s_engine (f i)) (s_engine (f (Suc i)))}"
proof -
  have "n + system_left (f n) \<le> system_left (f 0) +
      Suc 2 * card {i. i < n \<and> stale_step (s_engine (f i)) (s_engine (f (Suc i)))}"
    by (rule system_stopped.run_bounded [of c clk period on_huge fd]) (use assms in simp_all)
  moreover have "mx_left (mx_at (s_mx s)) \<le> 2" by (cases "mx_at (s_mx s)") simp_all
  ultimately show ?thesis
    using steps_left_bound [of "s_engine s"] assms by (simp add: system_left_def system_stopping_def stopping_def)
qed

lemma sample_init: "\<exists>s. system_init s \<and> ticks_popped (s_engine s) = []"
proof -
  obtain p :: "order_ctx pool" where p: "pool_new pool_size = Inr p"
    using pool_new_ok [of pool_size, where 'a = order_ctx] by (auto simp: pool_size_def)
  then have "system_init \<lparr>s_engine = engine_new 0 p True, s_mx = mx_new\<rparr>" by (auto simp: system_init_def engine_init_def)
  then show ?thesis by (intro exI conjI, assumption) (simp add: engine_new_def)
qed

lemma sample_exit: "\<exists>v msgs calls. engine_main [] v 0 msgs calls"
proof -
  obtain v place on_huge msgs calls where v: "engine_boot [] v =
     Inr (Boot_run cfg_default (Some \<lparr>ns_per_tick = Dbl 4503599627370496 (- 52)\<rparr>) place on_huge 3, msgs, calls)"
    using sample_boot by blast
  obtain s where s: "system_init s" "ticks_popped (s_engine s) = []" using sample_init by blast
  then show ?thesis using stop_exits [OF v sample_period s(1) rtranclp.rtrancl_refl] by auto
qed

section \<open>Properties\<close>

lemma boot_refused:
  assumes "engine_boot args v = Inr (Boot_exit n, msgs, calls)"
  shows "n = 1 \<and> open_fds calls {} = {} \<and> Logon_acknowledged \<notin> set msgs"
proof -
  obtain c clk where c: "parse args cfg_default = Inr c" "calibrate (be_calib v) = Inr clk"
    using assms by (auto simp: engine_boot_def cpp_bind_eq_Inr_iff Let_def case_prod_unfold)
  let ?t = "connect_tcp (be_fd v) (be_connect v) (exch_ip c) kExchangePort"
  note B = assms [unfolded engine_boot_def c cpp_bind_simps Let_def case_prod_unfold]
  show ?thesis
  proof (cases "fst ?t < 0")
    case True
    then show ?thesis using B sockets_no_leak(1,5) [of "be_fd v" "{}" "be_connect v" "exch_ip c" kExchangePort]
      by (auto split: if_splits)
  next
    case False
    then have t: "?t = (be_fd v, [CSocket (be_fd v), CConnect (be_fd v) (exch_ip c) kExchangePort True] @ set_nodelay (be_fd v))"
      "0 \<le> be_fd v" by (auto simp: connect_tcp_def split: if_splits)
    obtain sent ok where l: "do_logon (be_tm v) (be_ns v) (be_send v) (be_recv v) = Inr (sent, ok)"
      using B False by (auto simp: cpp_bind_eq_Inr_iff)
    then have "ok = Some False" using B False by (auto split: option.splits bool.splits)
    then show ?thesis using B False l t by (auto simp: fd_call_def split: if_splits)
  qed
qed

lemma boot_started:
  assumes "engine_boot args v = Inr (Boot_run c clk place on_huge fd, msgs, calls)"
  shows "fd = be_fd v" "0 \<le> fd" "be_connect v" "open_fds calls {} = {fd}" "Logon_acknowledged \<in> set msgs"
    "\<exists>sent. do_logon (be_tm v) (be_ns v) (be_send v) (be_recv v) = Inr (sent, Some True)"
proof -
  obtain c' clk' where c: "parse args cfg_default = Inr c'" "calibrate (be_calib v) = Inr clk'"
    using assms by (auto simp: engine_boot_def cpp_bind_eq_Inr_iff Let_def case_prod_unfold)
  let ?t = "connect_tcp (be_fd v) (be_connect v) (exch_ip c') kExchangePort"
  note B = assms [unfolded engine_boot_def c cpp_bind_simps Let_def case_prod_unfold]
  have F: "\<not> fst ?t < 0" using B by auto
  then have t: "?t = (be_fd v, [CSocket (be_fd v), CConnect (be_fd v) (exch_ip c') kExchangePort True] @ set_nodelay (be_fd v))"
    "0 \<le> be_fd v" "be_connect v" by (auto simp: connect_tcp_def split: if_splits)
  obtain sent ok where l: "do_logon (be_tm v) (be_ns v) (be_send v) (be_recv v) = Inr (sent, ok)"
    using B F by (auto simp: cpp_bind_eq_Inr_iff)
  then have ok: "ok = Some True" using B F by (auto split: option.splits bool.splits)
  then show "\<exists>sent. do_logon (be_tm v) (be_ns v) (be_send v) (be_recv v) = Inr (sent, Some True)" using l by blast
  show "fd = be_fd v" "0 \<le> fd" "be_connect v" "open_fds calls {} = {fd}" "Logon_acknowledged \<in> set msgs"
    using B F l ok t by (auto simp: fd_call_def split: if_splits)
qed

text \<open>
  C27. The exit of the engine: every complete run of \<^verbatim>\<open>main\<close> returns 0 or 1 and leaves no descriptor
  open; it returns 0 exactly when the exchange acknowledged the logon, which takes a connection
  and a successful logon, and then it reports the final counters last.
\<close>

theorem engine_exit_status:
  assumes "engine_main args v n msgs calls"
  shows "(n = 0 \<or> n = 1) \<and> open_fds calls {} = {} \<and> (n = 0 \<longleftrightarrow> Logon_acknowledged \<in> set msgs) \<and>
    (n = 0 \<longrightarrow> be_connect v \<and> 0 \<le> be_fd v \<and> (\<exists>sent. do_logon (be_tm v) (be_ns v) (be_send v) (be_recv v) = Inr (sent, Some True)) \<and>
      (\<exists>a b. last msgs = Shutdown_counts a b))"
  using assms
proof (cases rule: engine_main.cases)
  case main_refused
  then show ?thesis using boot_refused [OF main_refused] by auto
next
  case (main_run c clk place on_huge fd msgs0 calls0 period s0 s msgs' calls' ending)
  note S = boot_started [OF main_run(3)]
  have "system_inv c clk period on_huge fd s"
    using system_run.steps_inv [OF main_run(6)] system_run.inv_init [OF main_run(5)] by blast
  then have "open_fds (mx_calls (s_mx s)) {fd} = {fd}" using main_run(7) by (simp add: system_inv_def joined_def mx_open_def)
  then show ?thesis using main_run(1,2,8) S by (auto simp: engine_end_def fd_call_def)
qed

theorem engine_exit_status_witness:
  "\<exists>v msgs calls. engine_main [] v 0 msgs calls \<and> open_fds calls {} = {} \<and> Logon_acknowledged \<in> set msgs"
proof -
  obtain v msgs calls where m: "engine_main [] v 0 msgs calls" using sample_exit by blast
  then show ?thesis using engine_exit_status [OF m] by blast
qed

text \<open>
  C12. The engine can be stopped at any point of a run (with fewer than ten million ticks taken): after
  the signal the five threads can run to their return, from where \<^verbatim>\<open>main\<close> exits with status 0 after
  reporting the counters of the final state and closing its socket, and a schedule in which \<open>k\<close> loads
  of ring indices return an old value makes at most \<open>12316 + 3 * k\<close> steps that change the state. Steps are calls that return (and serving a client of the metrics
  thread is one): a peer that never reads can hold up the thread that sends to it.
\<close>

theorem engine_stops:
  assumes "engine_boot args v = Inr (Boot_run c (Some clk) place on_huge fd, msgs, calls)" "period_ticks c clk = Inr period"
    and "system_init s0" "(system_step c clk period on_huge fd)\<^sup>*\<^sup>* s0 s" "length (ticks_popped (s_engine s)) < 10 ^ 7 - 1"
  shows "(\<exists>s'. (system_step c clk period on_huge fd)\<^sup>*\<^sup>* (s\<lparr>s_engine := on_signal (s_engine s)\<rparr>) s' \<and> joined s' \<and>
      engine_main args v 0 (msgs @ [Shutdown_counts (orders (s_engine s')) (fills (s_engine s'))])
        (calls @ mx_calls (s_mx s') @ [CClose fd])) \<and>
    (\<forall>f n. f 0 = s\<lparr>s_engine := on_signal (s_engine s)\<rparr> \<and>
      (\<forall>i < n. system_step c clk period on_huge fd (f i) (f (Suc i)) \<and> f (Suc i) \<noteq> f i) \<longrightarrow>
      n \<le> 12316 + 3 * card {i. i < n \<and> stale_step (s_engine (f i)) (s_engine (f (Suc i)))})"
  using stop_exits [OF assms] stop_bounded [OF stop_stopping(2) [OF assms(3-5)]] by blast

theorem engine_stops_witness:
  "\<exists>v s s' msgs calls. system_init s \<and> joined s' \<and> engine_main [] v 0 (msgs @ [Shutdown_counts (orders (s_engine s')) (fills (s_engine s'))])
     (calls @ mx_calls (s_mx s') @ [CClose 3])"
proof -
  obtain v place on_huge msgs calls where v: "engine_boot [] v =
     Inr (Boot_run cfg_default (Some \<lparr>ns_per_tick = Dbl 4503599627370496 (- 52)\<rparr>) place on_huge 3, msgs, calls)"
    using sample_boot by blast
  obtain s where s: "system_init s" "ticks_popped (s_engine s) = []" using sample_init by blast
  have "length (ticks_popped (s_engine s)) < 10 ^ 7 - 1" by (simp add: s(2))
  then show ?thesis using engine_stops [OF v sample_period s(1) rtranclp.rtrancl_refl] s(1) by blast
qed

text \<open>
  The rate on the command line: the last \<^verbatim>\<open>--rate=\<close> option decides, and its digits are the rate, as
  long as they are a number below \<open>2 ^ 31\<close>. A rate of zero is accepted and makes the period of the
  market data the cast of an infinite double to an integer, which is undefined.
\<close>

lemma rate_option:
  assumes "parse (as @ (''--rate='' @ ds) # bs) c = Inr c'" and "ds \<noteq> []" "list_all is_digit ds"
    and "list_all (\<lambda>b. \<not> starts_with ''--rate='' b) bs"
  shows "rate c' = of_nat (digits_val ds) \<and> (digits_val ds = 0 \<longrightarrow> period_ticks c' clk = Inl Bad_cast)"
proof -
  obtain c1 c2 where c: "parse_arg (''--rate='' @ ds) c1 = Inr c2" "parse bs c2 = Inr c'"
    using assms(1) by (auto simp: parse_append cpp_bind_eq_Inr_iff simp del: append_Cons)
  have "rate c' = of_nat (digits_val ds)" using parse_keeps_rate [OF c(2) assms(4)] parse_rate_digits [OF c(1) assms(2,3)] by simp
  then show ?thesis by (simp add: period_ticks_def)
qed

end
