(* ===== verification/Hist_Threads.thy ===== *)
theory Hist_Threads
  imports Hist "HOL-Library.Sublist"
begin

text \<open>
  \<^verbatim>\<open>include/hist.hpp\<close> under concurrency: any number of threads inside \<^verbatim>\<open>record\<close>, one atomic
  operation at a time, and one thread that takes snapshots (the metrics thread). All
  operations are relaxed. A read-modify-write acts on the newest value of its
  variable; a load may return an older one, but the loads of one bucket by one thread never go back.
\<close>

section \<open>The threads\<close>

text \<open>
  Where a call of \<^verbatim>\<open>record(ns)\<close> stands after its \<^verbatim>\<open>fetch_add\<close> on the bucket: before the one on the
  count, before the one on the sum, before the load of the maximum, and in the exchange loop with \<^verbatim>\<open>cur\<close>.
\<close>

datatype rec_pc = Rec_Idle | Rec_Count u64 | Rec_Sum u64 | Rec_Max u64 | Rec_Cas u64 u64

definition rec_bucket :: "u64 \<Rightarrow> histogram \<Rightarrow> histogram cpp" where
  "rec_bucket ns h = cpp_bind (bucket_of ns) (\<lambda>b.
     if b < length (buckets h) then Inr (h\<lparr>buckets := (buckets h)[b := buckets h ! b + 1]\<rparr>) else Inl Out_of_bounds)"

text \<open>The next operation; \<open>v\<close> is the value a load of the maximum returns, \<open>spur\<close> makes an exchange fail spuriously.\<close>

fun rec_step :: "bool \<Rightarrow> u64 \<Rightarrow> rec_pc \<Rightarrow> histogram \<Rightarrow> rec_pc \<times> histogram" where
  "rec_step spur v Rec_Idle h = (Rec_Idle, h)"
| "rec_step spur v (Rec_Count ns) h = (Rec_Sum ns, h\<lparr>count := count h + 1\<rparr>)"
| "rec_step spur v (Rec_Sum ns) h = (Rec_Max ns, h\<lparr>sum_ns := sum_ns h + ns\<rparr>)"
| "rec_step spur v (Rec_Max ns) h = (Rec_Cas ns v, h)"
| "rec_step spur v (Rec_Cas ns cur) h =
     (if \<not> cur < ns then (Rec_Idle, h)
      else if max_ns h = cur \<and> \<not> spur then (Rec_Idle, h\<lparr>max_ns := ns\<rparr>)
      else (Rec_Cas ns v, h))"

text \<open>Where a call of \<^verbatim>\<open>snapshot()\<close> stands: the buckets copied so far, then the copy and the maximum loaded, then its result.\<close>

datatype snap_pc = Snap_Idle | Snap_Read "u64 list" | Snap_Mean "u64 list" u64 | Snap_Done "snapshot cpp"

text \<open>
  The shared histogram and the threads. \<open>hs_samples\<close> are the values recorded, in the order of their bucket
  increments; \<open>hs_maxes\<close> and \<open>hs_sums\<close> are the values that maximum and sum have had; bucket \<open>i\<close> was last
  read as it was after the first \<open>hs_seen ! i\<close> samples.
\<close>

record hist_sys =
  hs_hist :: histogram
  hs_writers :: "rec_pc list"
  hs_reader :: snap_pc
  hs_samples :: "u64 list"
  hs_maxes :: "u64 list"
  hs_sums :: "u64 list"
  hs_seen :: "nat list"

definition bucket_at :: "nat \<Rightarrow> u64 list \<Rightarrow> u64" where
  "bucket_at i xs = of_nat (length (filter (\<lambda>x. bucket_of x = Inr i) xs))"

definition hs_init :: "hist_sys \<Rightarrow> bool" where
  "hs_init s \<longleftrightarrow> (\<exists>n. s = \<lparr>hs_hist = hist_new, hs_writers = replicate n Rec_Idle, hs_reader = Snap_Idle, hs_samples = [],
     hs_maxes = [0], hs_sums = [0], hs_seen = replicate kBuckets 0\<rparr>)"

inductive hs_step :: "hist_sys \<Rightarrow> hist_sys \<Rightarrow> bool" where
  hs_begin: "i < length (hs_writers s) \<Longrightarrow> hs_writers s ! i = Rec_Idle \<Longrightarrow> rec_bucket ns (hs_hist s) = Inr h \<Longrightarrow>
    hs_step s (s\<lparr>hs_hist := h, hs_writers := (hs_writers s)[i := Rec_Count ns], hs_samples := hs_samples s @ [ns]\<rparr>)"
| hs_rec: "i < length (hs_writers s) \<Longrightarrow> v \<in> set (hs_maxes s) \<Longrightarrow> rec_step spur v (hs_writers s ! i) (hs_hist s) = (p, h) \<Longrightarrow>
    hs_step s (s\<lparr>hs_hist := h, hs_writers := (hs_writers s)[i := p], hs_maxes := hs_maxes s @ [max_ns h],
      hs_sums := hs_sums s @ [sum_ns h]\<rparr>)"
| hs_start: "hs_reader s = Snap_Idle \<or> hs_reader s = Snap_Done r \<Longrightarrow> hs_step s (s\<lparr>hs_reader := Snap_Read []\<rparr>)"
| hs_load: "hs_reader s = Snap_Read bs \<Longrightarrow> length bs < kBuckets \<Longrightarrow> hs_seen s ! length bs \<le> t \<Longrightarrow> t \<le> length (hs_samples s) \<Longrightarrow>
    hs_step s (s\<lparr>hs_reader := Snap_Read (bs @ [bucket_at (length bs) (take t (hs_samples s))]),
      hs_seen := (hs_seen s)[length bs := t]\<rparr>)"
| hs_max: "hs_reader s = Snap_Read bs \<Longrightarrow> length bs = kBuckets \<Longrightarrow> mx \<in> set (hs_maxes s) \<Longrightarrow>
    hs_step s (s\<lparr>hs_reader := (if sum_list bs = 0
      then Snap_Done (hist_snapshot \<lparr>buckets = bs, count = 0, sum_ns = 0, max_ns = mx\<rparr>) else Snap_Mean bs mx)\<rparr>)"
| hs_mean: "hs_reader s = Snap_Mean bs mx \<Longrightarrow> sm \<in> set (hs_sums s) \<Longrightarrow>
    hs_step s (s\<lparr>hs_reader := Snap_Done (hist_snapshot \<lparr>buckets = bs, count = 0, sum_ns = sm, max_ns = mx\<rparr>)\<rparr>)"

inductive_cases hs_stepE: "hs_step s s'"

section \<open>The writers\<close>

text \<open>What the calls in flight still owe to count and sum, and their values.\<close>

fun owes_count :: "rec_pc \<Rightarrow> u64" where
  "owes_count (Rec_Count ns) = 1"
| "owes_count _ = 0"

fun owes_sum :: "rec_pc \<Rightarrow> u64" where
  "owes_sum (Rec_Count ns) = ns"
| "owes_sum (Rec_Sum ns) = ns"
| "owes_sum _ = 0"

fun in_flight :: "rec_pc \<Rightarrow> u64 set" where
  "in_flight Rec_Idle = {}"
| "in_flight (Rec_Count ns) = {ns}"
| "in_flight (Rec_Sum ns) = {ns}"
| "in_flight (Rec_Max ns) = {ns}"
| "in_flight (Rec_Cas ns cur) = {ns}"

fun cur_ok :: "u64 \<Rightarrow> rec_pc \<Rightarrow> bool" where
  "cur_ok mx (Rec_Cas ns cur) \<longleftrightarrow> cur \<le> mx"
| "cur_ok mx _ \<longleftrightarrow> True"

definition rec_inv :: "histogram \<Rightarrow> rec_pc list \<Rightarrow> u64 list \<Rightarrow> u64 list \<Rightarrow> bool" where
  "rec_inv h ws xs mxs \<longleftrightarrow> length (buckets h) = kBuckets \<and> (\<forall>i < kBuckets. buckets h ! i = bucket_at i xs) \<and>
     list_all in_range xs \<and>
     count h + (\<Sum>p\<leftarrow>ws. owes_count p) = of_nat (length xs) \<and>
     sum_ns h + (\<Sum>p\<leftarrow>ws. owes_sum p) = sum_list xs \<and>
     (\<forall>x \<in> set xs. x \<le> max_ns h \<or> (\<exists>i < length ws. x \<in> in_flight (ws ! i))) \<and>
     max_ns h \<in> insert 0 (set xs) \<and> (\<forall>i < length ws. in_flight (ws ! i) \<subseteq> set xs \<and> cur_ok (max_ns h) (ws ! i)) \<and>
     (\<forall>v \<in> set mxs. v \<le> max_ns h \<and> v \<in> insert 0 (set xs))"

lemma sum_list_upd:
  fixes f :: "'a \<Rightarrow> 'b :: len word"
  shows "i < length ws \<Longrightarrow> (\<Sum>p\<leftarrow>ws[i := q]. f p) = (\<Sum>p\<leftarrow>ws. f p) - f (ws ! i) + f q"
proof (induction ws arbitrary: i)
  case (Cons w ws)
  then show ?case by (cases i) (simp_all add: algebra_simps)
qed simp

lemma owes_moves:
  fixes c :: "'b :: len word"
  assumes "c + S = N" "c' + p = c + q"
  shows "c' + (S - q + p) = N"
proof -
  have "c' + (S - q + p) = c' + p + S - q" by (simp add: algebra_simps)
  also have "\<dots> = N" using assms by simp
  finally show ?thesis .
qed

lemma bucket_at_snoc: "bucket_at i (xs @ [x]) = bucket_at i xs + (if bucket_of x = Inr i then 1 else 0)"
  by (simp add: bucket_at_def add.commute)

lemma rec_bucket_Inr:
  assumes "length (buckets h) = kBuckets" "rec_bucket ns h = Inr h'"
  shows "in_range ns \<and> (\<exists>b < kBuckets. bucket_of ns = Inr b \<and> h' = h\<lparr>buckets := (buckets h)[b := buckets h ! b + 1]\<rparr>)"
proof -
  obtain b where b: "bucket_of ns = Inr b" "b < kBuckets" "h' = h\<lparr>buckets := (buckets h)[b := buckets h ! b + 1]\<rparr>"
    using assms by (auto simp: rec_bucket_def cpp_bind_eq_Inr_iff split: if_splits)
  then have "in_range ns" using bucket_of_overrun [of ns] by fastforce
  then show ?thesis using b by blast
qed

lemma in_flight_upd:
  assumes "i < length ws" "in_flight p = in_flight (ws ! i)"
  shows "(\<exists>j < length ws. x \<in> in_flight (ws[i := p] ! j)) \<longleftrightarrow> (\<exists>j < length ws. x \<in> in_flight (ws ! j))"
  using assms by (auto simp: nth_list_update)

lemma begin_inv:
  assumes inv: "rec_inv h ws xs mxs" and i: "i < length ws" "ws ! i = Rec_Idle" and b: "rec_bucket ns h = Inr h'"
  shows "rec_inv h' (ws[i := Rec_Count ns]) (xs @ [ns]) mxs"
proof -
  obtain b where b: "in_range ns" "b < kBuckets" "bucket_of ns = Inr b" "h' = h\<lparr>buckets := (buckets h)[b := buckets h ! b + 1]\<rparr>"
    using rec_bucket_Inr [OF _ b] inv by (auto simp: rec_inv_def)
  have s: "(\<Sum>p\<leftarrow>ws[i := Rec_Count ns]. owes_count p) = (\<Sum>p\<leftarrow>ws. owes_count p) + 1"
    "(\<Sum>p\<leftarrow>ws[i := Rec_Count ns]. owes_sum p) = (\<Sum>p\<leftarrow>ws. owes_sum p) + ns"
    using i by (simp_all add: sum_list_upd)
  have f: "\<exists>j < length ws. x \<in> in_flight (ws[i := Rec_Count ns] ! j)" if "x = ns \<or> (\<exists>j < length ws. x \<in> in_flight (ws ! j))" for x
    using that
  proof
    assume "\<exists>j < length ws. x \<in> in_flight (ws ! j)"
    then obtain j where "j < length ws" "x \<in> in_flight (ws ! j)" by blast
    then show ?thesis using i by (intro exI [of _ j]) (auto simp: nth_list_update)
  qed (use i in \<open>auto intro: exI [of _ i]\<close>)
  show ?thesis
    unfolding rec_inv_def
  proof (intro conjI)
    show "\<forall>j < kBuckets. buckets h' ! j = bucket_at j (xs @ [ns])"
      using inv b by (auto simp: rec_inv_def bucket_at_snoc nth_list_update)
    show "\<forall>x \<in> set (xs @ [ns]). x \<le> max_ns h' \<or> (\<exists>j < length (ws[i := Rec_Count ns]). x \<in> in_flight (ws[i := Rec_Count ns] ! j))"
    proof
      fix x
      assume "x \<in> set (xs @ [ns])"
      then have "x = ns \<or> x \<le> max_ns h \<or> (\<exists>j < length ws. x \<in> in_flight (ws ! j))" using inv by (auto simp: rec_inv_def)
      then show "x \<le> max_ns h' \<or> (\<exists>j < length (ws[i := Rec_Count ns]). x \<in> in_flight (ws[i := Rec_Count ns] ! j))"
        using f [of x] b(4) by auto
    qed
    show "count h' + (\<Sum>p\<leftarrow>ws[i := Rec_Count ns]. owes_count p) = of_nat (length (xs @ [ns]))"
      "sum_ns h' + (\<Sum>p\<leftarrow>ws[i := Rec_Count ns]. owes_sum p) = sum_list (xs @ [ns])"
      using inv b(4) unfolding s by (simp_all add: rec_inv_def algebra_simps)
    show "\<forall>j < length (ws[i := Rec_Count ns]). in_flight (ws[i := Rec_Count ns] ! j) \<subseteq> set (xs @ [ns]) \<and>
        cur_ok (max_ns h') (ws[i := Rec_Count ns] ! j)"
      using inv b(4) i(1) by (auto simp: rec_inv_def nth_list_update)
  qed (use inv b in \<open>auto simp: rec_inv_def\<close>)
qed

text \<open>A step of a call that does not end it leaves buckets and maximum alone and moves what the call owes into the histogram.\<close>

lemma rec_step_effect:
  assumes "rec_step spur v p h = (p', h')" "cur_ok (max_ns h) p" "v \<le> max_ns h"
  shows "buckets h' = buckets h" "count h' + owes_count p' = count h + owes_count p" "sum_ns h' + owes_sum p' = sum_ns h + owes_sum p"
    "max_ns h \<le> max_ns h'" "max_ns h' \<in> insert (max_ns h) (in_flight p)" "cur_ok (max_ns h') p'"
    "in_flight p' = in_flight p \<or> in_flight p' = {} \<and> (\<forall>x \<in> in_flight p. x \<le> max_ns h')"
  using assms by (cases p; auto split: if_splits)+

lemma cur_ok_mono: "cur_ok mx p \<Longrightarrow> mx \<le> mx' \<Longrightarrow> cur_ok mx' p"
  by (cases p) auto

lemma rec_step_inv:
  assumes inv: "rec_inv h ws xs mxs" and i: "i < length ws" and v: "v \<in> set mxs" and st: "rec_step spur v (ws ! i) h = (p, h')"
  shows "rec_inv h' (ws[i := p]) xs (mxs @ [max_ns h'])"
proof -
  have c: "cur_ok (max_ns h) (ws ! i)" "v \<le> max_ns h" "in_flight (ws ! i) \<subseteq> set xs" using inv i v by (auto simp: rec_inv_def)
  note E = rec_step_effect [OF st c(1,2)]
  have mx: "max_ns h' \<in> insert 0 (set xs)" using E(5) c(3) inv by (auto simp: rec_inv_def)
  have fl: "x \<le> max_ns h' \<or> (\<exists>j < length ws. x \<in> in_flight (ws[i := p] ! j))" if x: "x \<in> set xs" for x
  proof -
    have "x \<le> max_ns h \<or> (\<exists>j < length ws. x \<in> in_flight (ws ! j))" using inv x by (simp add: rec_inv_def)
    then show ?thesis
    proof
      assume "\<exists>j < length ws. x \<in> in_flight (ws ! j)"
      then obtain j where j: "j < length ws" "x \<in> in_flight (ws ! j)" by blast
      show ?thesis
      proof (cases "j = i")
        case True
        then show ?thesis using E(7) j i by auto
      next
        case False
        then show ?thesis using j by (intro disjI2 exI [of _ j]) simp
      qed
    qed (use E(4) in \<open>simp add: order_trans\<close>)
  qed
  have fr: "in_flight (ws[i := p] ! j) \<subseteq> set xs \<and> cur_ok (max_ns h') (ws[i := p] ! j)" if "j < length ws" for j
  proof (cases "j = i")
    case True
    then show ?thesis using E(6,7) c(3) i by auto
  next
    case False
    then have "in_flight (ws ! j) \<subseteq> set xs" "cur_ok (max_ns h) (ws ! j)" using inv that by (auto simp: rec_inv_def)
    then show ?thesis using False cur_ok_mono [OF _ E(4)] by simp
  qed
  show ?thesis
    unfolding rec_inv_def
  proof (intro conjI)
    show "count h' + (\<Sum>p\<leftarrow>ws[i := p]. owes_count p) = of_nat (length xs)"
      unfolding sum_list_upd [OF i] by (rule owes_moves [OF _ E(2)]) (use inv in \<open>simp add: rec_inv_def\<close>)
    show "sum_ns h' + (\<Sum>p\<leftarrow>ws[i := p]. owes_sum p) = sum_list xs"
      unfolding sum_list_upd [OF i] by (rule owes_moves [OF _ E(3)]) (use inv in \<open>simp add: rec_inv_def\<close>)
    show "\<forall>w \<in> set (mxs @ [max_ns h']). w \<le> max_ns h' \<and> w \<in> insert 0 (set xs)"
      using inv mx E(4) by (auto simp: rec_inv_def dest: order_trans)
  qed (use inv E(1) mx fl fr in \<open>auto simp: rec_inv_def\<close>)
qed

text \<open>When no call is in flight the histogram is that of the samples.\<close>

lemma fold_max_eq: "m \<in> insert 0 (set xs) \<Longrightarrow> (\<And>x. x \<in> set xs \<Longrightarrow> x \<le> m) \<Longrightarrow> fold max xs 0 = (m :: u64)"
proof -
  assume m: "m \<in> insert 0 (set xs)" "\<And>x. x \<in> set xs \<Longrightarrow> x \<le> m"
  have "Max (set (0 # xs)) = m" by (rule Max_eqI) (use m in auto)
  then show ?thesis by (metis Max.set_eq_fold)
qed

lemma rec_inv_idle:
  assumes "rec_inv h ws xs mxs" "list_all (\<lambda>p. p = Rec_Idle) ws"
  shows "hist_of xs h"
proof -
  have ws: "ws = replicate (length ws) Rec_Idle" using assms(2) by (simp add: list_all_length list_eq_iff_nth_eq)
  have "(\<Sum>p\<leftarrow>replicate n Rec_Idle. owes_count p) = 0" "(\<Sum>p\<leftarrow>replicate n Rec_Idle. owes_sum p) = 0" for n by (induction n) simp_all
  then have "(\<Sum>p\<leftarrow>ws. owes_count p) = 0" "(\<Sum>p\<leftarrow>ws. owes_sum p) = 0" by (metis ws)+
  moreover have "fold max xs 0 = max_ns h"
    by (rule fold_max_eq) (use assms in \<open>auto simp: rec_inv_def list_all_length\<close>)
  ultimately show ?thesis using assms(1) by (simp add: rec_inv_def hist_of_def bucket_at_def)
qed

text \<open>The order of the samples does not matter, and they determine the histogram.\<close>

lemma hist_of_perm: "mset xs = mset ys \<Longrightarrow> hist_of xs h \<Longrightarrow> hist_of ys h"
proof -
  assume m: "mset xs = mset ys" and h: "hist_of xs h"
  have "length (filter P xs) = length (filter P ys)" for P
    by (metis m mset_filter size_mset)
  moreover have "length xs = length ys" "set xs = set ys" using m by (metis size_mset, metis set_mset_mset)
  moreover have "sum_list xs = sum_list ys" using m by (metis sum_mset_sum_list)
  moreover have "fold max xs 0 = fold max ys 0" using \<open>set xs = set ys\<close> by (metis Max.set_eq_fold list.simps(15))
  ultimately show ?thesis using h by (simp add: hist_of_def)
qed

lemma hist_of_unique: "hist_of xs h \<Longrightarrow> hist_of xs h' \<Longrightarrow> h = h'"
  by (auto simp: hist_of_def list_eq_iff_nth_eq intro!: histogram.equality)

section \<open>The snapshot\<close>

text \<open>The samples a reader has counted that last read bucket \<open>i\<close> after the first \<open>ts ! i\<close> of them.\<close>

fun counted :: "nat list \<Rightarrow> nat \<Rightarrow> u64 list \<Rightarrow> u64 list" where
  "counted ts k [] = []"
| "counted ts k (x # xs) = (if k < ts ! bucket_nat (unat x) then [x] else []) @ counted ts (Suc k) xs"

lemma counted_bucket:
  assumes "list_all in_range xs"
  shows "filter (\<lambda>x. bucket_of x = Inr i) (counted ts k xs) = filter (\<lambda>x. bucket_of x = Inr i) (take (ts ! i - k) xs)"
  using assms
proof (induction xs arbitrary: k)
  case (Cons x xs)
  have b: "bucket_of x = Inr (bucket_nat (unat x))" using Cons.prems by (simp add: bucket_of_nat)
  show ?case
  proof (cases "k < ts ! i")
    case True
    then have "ts ! i - k = Suc (ts ! i - Suc k)" by simp
    then show ?thesis using Cons b True by auto
  next
    case False
    then show ?thesis using Cons b by auto
  qed
qed simp

lemma counted_subseq: "subseq (counted ts k xs) xs"
  by (induction xs arbitrary: k) auto

lemma counted_range:
  assumes "list_all in_range xs" "length xs < 2 ^ 53"
  shows "list_all in_range (counted ts k xs)" "length (counted ts k xs) < 2 ^ 53"
proof -
  have "set (counted ts k xs) \<subseteq> set xs" for k by (induction xs arbitrary: k) auto
  then show "list_all in_range (counted ts k xs)" using assms(1) by (auto simp: list_all_iff)
  show "length (counted ts k xs) < 2 ^ 53" using list_emb_length [OF counted_subseq [of ts k xs]] assms(2) by simp
qed

lemma counted_mono:
  assumes "list_all in_range xs" "\<And>i. i < kBuckets \<Longrightarrow> ts ! i \<le> ts' ! i"
  shows "length (counted ts k xs) \<le> length (counted ts' k (xs @ zs))"
  using assms(1)
proof (induction xs arbitrary: k)
  case (Cons x xs)
  have "ts ! bucket_nat (unat x) \<le> ts' ! bucket_nat (unat x)" using Cons.prems assms(2) by (simp add: in_range_def bucket_nat_lt)
  then show ?case using Cons.IH [of "Suc k"] Cons.prems by auto
qed simp

text \<open>The copy of the buckets that a reader gets is the histogram of what it has counted.\<close>

definition bucket_copy :: "nat list \<Rightarrow> u64 list \<Rightarrow> u64 list" where
  "bucket_copy ts xs = map (\<lambda>i. bucket_at i (take (ts ! i) xs)) [0..<kBuckets]"

lemma length_bucket_copy [simp]: "length (bucket_copy ts xs) = kBuckets"
  by (simp add: bucket_copy_def)

lemma bucket_copy_of:
  assumes "list_all in_range xs"
  shows "hist_of (counted ts 0 xs) \<lparr>buckets = bucket_copy ts xs, count = of_nat (length (counted ts 0 xs)),
    sum_ns = sum_list (counted ts 0 xs), max_ns = fold max (counted ts 0 xs) 0\<rparr>"
  using counted_bucket [OF assms, of _ ts 0] by (simp add: hist_of_def bucket_copy_def bucket_at_def)

definition snap_of :: "nat list \<Rightarrow> u64 list \<Rightarrow> u64 \<Rightarrow> u64 \<Rightarrow> snapshot cpp" where
  "snap_of ts xs sm mx = hist_snapshot \<lparr>buckets = bucket_copy ts xs, count = 0, sum_ns = sm, max_ns = mx\<rparr>"

definition snap_inv :: "snap_pc \<Rightarrow> nat list \<Rightarrow> u64 list \<Rightarrow> bool" where
  "snap_inv p ts xs \<longleftrightarrow> length ts = kBuckets \<and> (\<forall>i < kBuckets. ts ! i \<le> length xs) \<and>
     (case p of Snap_Idle \<Rightarrow> True
      | Snap_Read bs \<Rightarrow> length bs \<le> kBuckets \<and> bs = take (length bs) (bucket_copy ts xs)
      | Snap_Mean bs mx \<Rightarrow> bs = bucket_copy ts xs \<and> mx \<in> insert 0 (set xs)
      | Snap_Done r \<Rightarrow> \<exists>sm mx. mx \<in> insert 0 (set xs) \<and> r = snap_of ts xs sm mx)"

lemma bucket_copy_more: "(\<And>i. i < kBuckets \<Longrightarrow> ts ! i \<le> length xs) \<Longrightarrow> bucket_copy ts (xs @ ys) = bucket_copy ts xs"
  by (simp add: bucket_copy_def)

lemma snap_more: "snap_inv p ts xs \<Longrightarrow> snap_inv p ts (xs @ ys)"
  using bucket_copy_more [of ts xs ys] by (auto simp: snap_inv_def snap_of_def split: snap_pc.splits intro: trans_le_add1)

lemma snap_load:
  assumes "snap_inv (Snap_Read bs) ts xs" "length bs < kBuckets" "t \<le> length xs"
  shows "snap_inv (Snap_Read (bs @ [bucket_at (length bs) (take t xs)])) (ts[length bs := t]) xs"
proof -
  let ?ts = "ts[length bs := t]"
  have len: "length ts = kBuckets" using assms(1) by (simp add: snap_inv_def)
  have "bs @ [bucket_at (length bs) (take t xs)] = take (Suc (length bs)) (bucket_copy ?ts xs)"
  proof (rule nth_equalityI)
    fix j
    assume "j < length (bs @ [bucket_at (length bs) (take t xs)])"
    then consider "j < length bs" | "j = length bs" by fastforce
    then show "(bs @ [bucket_at (length bs) (take t xs)]) ! j = take (Suc (length bs)) (bucket_copy ?ts xs) ! j"
    proof cases
      case 1
      have "bs ! j = take (length bs) (bucket_copy ts xs) ! j" using assms(1) by (simp add: snap_inv_def)
      then show ?thesis using 1 assms(2) len by (simp add: bucket_copy_def nth_append)
    next
      case 2
      then show ?thesis using assms(2) len by (simp add: bucket_copy_def)
    qed
  qed (use assms(2) in \<open>simp add: bucket_copy_def\<close>)
  then show ?thesis using assms len by (auto simp: snap_inv_def nth_list_update)
qed

definition hs_inv :: "hist_sys \<Rightarrow> bool" where
  "hs_inv s \<longleftrightarrow> rec_inv (hs_hist s) (hs_writers s) (hs_samples s) (hs_maxes s) \<and> snap_inv (hs_reader s) (hs_seen s) (hs_samples s)"

lemma rec_inv_new: "rec_inv hist_new (replicate n Rec_Idle) [] [0]"
proof -
  have "(\<Sum>p\<leftarrow>replicate n Rec_Idle. owes_count p) = 0" "(\<Sum>p\<leftarrow>replicate n Rec_Idle. owes_sum p) = 0" by (induction n) simp_all
  then show ?thesis by (simp add: rec_inv_def hist_new_def bucket_at_def)
qed

interpretation hist_run: inductive_invariant hs_init hs_step hs_inv
proof unfold_locales
  show "hs_inv s" if "hs_init s" for s
    using that rec_inv_new by (auto simp: hs_init_def hs_inv_def snap_inv_def)
  show "hs_inv s'" if inv: "hs_inv s" and step: "hs_step s s'" for s s'
    using step
  proof (cases rule: hs_step.cases)
    case (hs_begin i ns h)
    then show ?thesis using inv by (auto simp: hs_inv_def intro: begin_inv snap_more)
  next
    case (hs_rec i v spur p h)
    then show ?thesis using inv by (auto simp: hs_inv_def intro: rec_step_inv)
  next
    case hs_start
    then show ?thesis using inv by (simp add: hs_inv_def snap_inv_def)
  next
    case (hs_load bs t)
    then show ?thesis using inv snap_load by (simp add: hs_inv_def)
  next
    case (hs_max bs mx)
    then have "bs = bucket_copy (hs_seen s) (hs_samples s)" "mx \<in> insert 0 (set (hs_samples s))"
      using inv by (auto simp: hs_inv_def snap_inv_def rec_inv_def bucket_copy_def)
    then show ?thesis using inv hs_max by (auto simp: hs_inv_def snap_inv_def snap_of_def)
  next
    case (hs_mean bs mx sm)
    then show ?thesis using inv by (auto simp: hs_inv_def snap_inv_def snap_of_def)
  qed
qed

text \<open>What a snapshot reports of the samples it has counted.\<close>

lemma percentile_total:
  assumes "n < 2 ^ 53" "p \<in> {d50, d99, d999}"
  shows "\<exists>v. percentile b (of_nat n) p = Inr v"
proof -
  have "scaled n p \<le> n" using assms(2) scaled_fraction [OF assms(1)] by (auto simp: d50_def d99_def d999_def)
  moreover have "unat (of_nat n :: u64) = n" using assms(1) by (intro unat_of_nat_u64) simp
  ultimately show ?thesis using assms(1) by (simp add: percentile_def dbl_to_u64_def scaled_def)
qed

lemma snap_of_counted:
  assumes xs: "list_all in_range xs" and n: "length xs < 2 ^ 53"
  shows "\<exists>r. snap_of ts xs sm mx = Inr r \<and> s_count r = of_nat (length (counted ts 0 xs)) \<and> s_max r = mx \<and>
    (2 \<le> length (counted ts 0 xs) \<longrightarrow>
       s_p50 r = value_of (bucket_nat (unat (sort (counted ts 0 xs) ! (length (counted ts 0 xs) div 2 - 1)))) \<and>
       s_p99 r = value_of (bucket_nat (unat (sort (counted ts 0 xs) ! (scaled (length (counted ts 0 xs)) d99 - 1)))) \<and>
       s_p999 r = value_of (bucket_nat (unat (sort (counted ts 0 xs) ! (scaled (length (counted ts 0 xs)) d999 - 1)))))"
proof -
  let ?ys = "counted ts 0 xs" and ?b = "bucket_copy ts xs"
  have ys: "list_all in_range ?ys" "length ?ys < 2 ^ 53"
    using counted_range [OF xs n] by simp_all
  note h = bucket_copy_of [OF xs, of ts]
  have tot: "sum_list ?b = of_nat (length ?ys)" using hist_of_total [OF h ys(1)] by simp
  obtain a b c where p: "percentile ?b (of_nat (length ?ys)) d50 = Inr a" "percentile ?b (of_nat (length ?ys)) d99 = Inr b"
    "percentile ?b (of_nat (length ?ys)) d999 = Inr c" using percentile_total [OF ys(2), of _ ?b] by (meson insertI1 insertI2)
  show ?thesis
  proof (cases "2 \<le> length ?ys")
    case True
    have "unat (of_nat (length ?ys) :: u64) = length ?ys" using ys(2) by (intro unat_of_nat_u64) simp
    then have "(of_nat (length ?ys) :: u64) \<noteq> 0" using True by auto
    then show ?thesis
      using percentile_eq [OF h ys(1) True ys(2), of d50] percentile_eq [OF h ys(1) True ys(2), of d99]
        percentile_eq [OF h ys(1) True ys(2), of d999] scaled_half [OF ys(2)]
      by (simp add: snap_of_def hist_snapshot_def Let_def tot)
  next
    case False
    then show ?thesis using p by (simp add: snap_of_def hist_snapshot_def Let_def tot)
  qed
qed

lemma snapshot_done_ok:
  assumes "reach hs_init hs_step s" "hs_reader s = Snap_Done res" "length (hs_samples s) < 2 ^ 53"
  shows "\<exists>r. res = Inr r"
proof -
  have "list_all in_range (hs_samples s)" "snap_inv (hs_reader s) (hs_seen s) (hs_samples s)"
    using hist_run.reach_inv [OF assms(1)] by (simp_all add: hs_inv_def rec_inv_def)
  then show ?thesis using snap_of_counted [OF _ assms(3)] assms(2) by (fastforce simp: snap_inv_def)
qed

text \<open>Between two states the reader's view only advances.\<close>

lemma seen_step: "hs_step s s' \<Longrightarrow> hs_inv s \<Longrightarrow>
  (\<exists>ys. hs_samples s' = hs_samples s @ ys) \<and> (\<forall>i < kBuckets. hs_seen s ! i \<le> hs_seen s' ! i)"
  by (elim hs_stepE) (auto simp: hs_inv_def snap_inv_def nth_list_update)

lemma seen_steps:
  assumes "hs_step\<^sup>*\<^sup>* s s'" "hs_inv s"
  shows "hs_inv s' \<and> (\<exists>ys. hs_samples s' = hs_samples s @ ys) \<and> (\<forall>i < kBuckets. hs_seen s ! i \<le> hs_seen s' ! i)"
  using assms
proof (induction rule: rtranclp_induct)
  case (step s1 s2)
  then show ?case using seen_step [of s1 s2] hist_run.inv_step [of s1 s2] by (fastforce intro: order_trans)
qed simp

section \<open>Runs for the witnesses\<close>

lemma run_record:
  "\<exists>s. reach hs_init hs_step s \<and> hs_writers s = [Rec_Idle] \<and> hs_samples s = [770] \<and> hs_reader s = Snap_Idle \<and>
     0 \<in> set (hs_maxes s) \<and> 770 \<in> set (hs_sums s)"
proof -
  let ?b = "bucket_nat 770"
  let ?h = "hist_new\<lparr>buckets := (buckets hist_new)[?b := buckets hist_new ! ?b + 1]\<rparr>"
  define s0 where "s0 = \<lparr>hs_hist = hist_new, hs_writers = [Rec_Idle], hs_reader = Snap_Idle, hs_samples = [],
     hs_maxes = [0], hs_sums = [0], hs_seen = replicate kBuckets 0\<rparr>"
  define s1 where "s1 = s0\<lparr>hs_hist := ?h, hs_writers := [Rec_Count 770], hs_samples := [770]\<rparr>"
  have bo: "rec_bucket 770 hist_new = Inr ?h"
    using bucket_of_nat [of 770] bucket_nat_lt [of 770] by (simp add: rec_bucket_def in_range_def hist_new_def)
  have "reach hs_init hs_step s0" by (rule reach_init) (auto simp: hs_init_def s0_def intro: exI [of _ 1])
  moreover have "hs_step s0 s1" using hs_begin [of 0 s0 770 ?h] bo by (simp add: s0_def s1_def)
  ultimately have r1: "reach hs_init hs_step s1" by (rule reach.reach_step)
  have next_op: "\<exists>s'. reach hs_init hs_step s' \<and> hs_writers s' = [p] \<and> hs_samples s' = [770] \<and> hs_reader s' = Snap_Idle \<and>
      max_ns (hs_hist s') = max_ns h \<and> sum_ns (hs_hist s') = sum_ns h \<and> 0 \<in> set (hs_maxes s') \<and> sum_ns h \<in> set (hs_sums s')"
    if "reach hs_init hs_step s" "hs_writers s = [p0]" "hs_samples s = [770]" "hs_reader s = Snap_Idle" "0 \<in> set (hs_maxes s)"
      "rec_step False 0 p0 (hs_hist s) = (p, h)" for s p0 p h
    using reach.reach_step [OF that(1) hs_rec [of 0 s 0 False p h]] that by (intro exI) (auto intro: conjI)
  obtain s2 where "reach hs_init hs_step s2" "hs_writers s2 = [Rec_Sum 770]" "hs_samples s2 = [770]" "hs_reader s2 = Snap_Idle"
    "max_ns (hs_hist s2) = 0" "sum_ns (hs_hist s2) = 0" "0 \<in> set (hs_maxes s2)"
    using next_op [OF r1, of "Rec_Count 770"] by (auto simp: s1_def s0_def hist_new_def)
  then obtain s3 where "reach hs_init hs_step s3" "hs_writers s3 = [Rec_Max 770]" "hs_samples s3 = [770]" "hs_reader s3 = Snap_Idle"
    "max_ns (hs_hist s3) = 0" "sum_ns (hs_hist s3) = 770" "0 \<in> set (hs_maxes s3)" using next_op [of s2 "Rec_Sum 770"] by auto
  then obtain s4 where "reach hs_init hs_step s4" "hs_writers s4 = [Rec_Cas 770 0]" "hs_samples s4 = [770]" "hs_reader s4 = Snap_Idle"
    "max_ns (hs_hist s4) = 0" "sum_ns (hs_hist s4) = 770" "0 \<in> set (hs_maxes s4)" using next_op [of s3 "Rec_Max 770"] by auto
  then show ?thesis using next_op [of s4 "Rec_Cas 770 0"] by fastforce
qed

text \<open>A snapshot can always be taken, and taken with loads that are up to date it counts every sample.\<close>

lemma run_loads:
  assumes "hs_inv s" "hs_reader s = Snap_Read bs" "length bs + k = kBuckets"
    "\<forall>i < length bs. hs_seen s ! i = length (hs_samples s)"
  shows "\<exists>s' bs'. hs_step\<^sup>*\<^sup>* s s' \<and> hs_reader s' = Snap_Read bs' \<and> length bs' = kBuckets \<and> hs_samples s' = hs_samples s \<and>
    hs_maxes s' = hs_maxes s \<and> hs_sums s' = hs_sums s \<and> hs_writers s' = hs_writers s \<and>
    (\<forall>i < kBuckets. hs_seen s' ! i = length (hs_samples s))"
  using assms
proof (induction k arbitrary: s bs)
  case (Suc k)
  let ?s = "s\<lparr>hs_reader := Snap_Read (bs @ [bucket_at (length bs) (take (length (hs_samples s)) (hs_samples s))]),
      hs_seen := (hs_seen s)[length bs := length (hs_samples s)]\<rparr>"
  have len: "length (hs_seen s) = kBuckets" "\<forall>i < kBuckets. hs_seen s ! i \<le> length (hs_samples s)"
    using Suc.prems(1) by (simp_all add: hs_inv_def snap_inv_def)
  have st: "hs_step s ?s" by (rule hs_load [OF Suc.prems(2)]) (use Suc.prems(3) len in simp_all)
  have "\<exists>s' bs'. hs_step\<^sup>*\<^sup>* ?s s' \<and> hs_reader s' = Snap_Read bs' \<and> length bs' = kBuckets \<and> hs_samples s' = hs_samples ?s \<and>
      hs_maxes s' = hs_maxes ?s \<and> hs_sums s' = hs_sums ?s \<and> hs_writers s' = hs_writers ?s \<and>
      (\<forall>i < kBuckets. hs_seen s' ! i = length (hs_samples ?s))"
    by (rule Suc.IH [OF hist_run.inv_step [OF Suc.prems(1) st]]) (use Suc.prems len in \<open>auto simp: nth_list_update less_Suc_eq\<close>)
  then show ?case using converse_rtranclp_into_rtranclp [of hs_step, OF st] by auto
qed auto

lemma run_snapshot:
  assumes inv: "hs_inv s" and rd: "hs_reader s = Snap_Idle \<or> hs_reader s = Snap_Done r"
    and m: "mx \<in> set (hs_maxes s)" "sm \<in> set (hs_sums s)"
  shows "\<exists>s' sm'. hs_step\<^sup>*\<^sup>* s s' \<and> hs_reader s' = Snap_Done (snap_of (hs_seen s') (hs_samples s) sm' mx) \<and> hs_samples s' = hs_samples s \<and>
    hs_maxes s' = hs_maxes s \<and> hs_sums s' = hs_sums s \<and> hs_writers s' = hs_writers s \<and>
    (\<forall>i < kBuckets. hs_seen s' ! i = length (hs_samples s)) \<and>
    (sum_list (bucket_copy (hs_seen s') (hs_samples s)) \<noteq> 0 \<longrightarrow> sm' = sm)"
proof -
  let ?s1 = "s\<lparr>hs_reader := Snap_Read []\<rparr>"
  have st: "hs_step s ?s1" by (rule hs_start [OF rd])
  have inv1: "hs_inv ?s1" by (rule hist_run.inv_step [OF inv st])
  obtain s2 bs where s2: "hs_step\<^sup>*\<^sup>* ?s1 s2" "hs_reader s2 = Snap_Read bs" "length bs = kBuckets" "hs_samples s2 = hs_samples s"
    "hs_maxes s2 = hs_maxes s" "hs_sums s2 = hs_sums s" "hs_writers s2 = hs_writers s"
    "\<forall>i < kBuckets. hs_seen s2 ! i = length (hs_samples s)"
    using run_loads [OF inv1, of "[]" kBuckets] by auto
  have bs: "bs = bucket_copy (hs_seen s2) (hs_samples s)"
    using hist_run.steps_inv [OF s2(1) inv1] s2(2-4) by (simp add: hs_inv_def snap_inv_def)
  have st3: "hs_step s2 (s2\<lparr>hs_reader := (if sum_list bs = 0
      then Snap_Done (hist_snapshot \<lparr>buckets = bs, count = 0, sum_ns = 0, max_ns = mx\<rparr>) else Snap_Mean bs mx)\<rparr>)"
    by (rule hs_max [OF s2(2,3)]) (use m s2(5) in simp)
  have run: "hs_step\<^sup>*\<^sup>* s s2" using st s2(1) by (rule converse_rtranclp_into_rtranclp)
  have fin: ?thesis if "hs_step\<^sup>*\<^sup>* s (s2\<lparr>hs_reader := Snap_Done (snap_of (hs_seen s2) (hs_samples s) sm' mx)\<rparr>)"
    "sum_list bs \<noteq> 0 \<longrightarrow> sm' = sm" for sm'
    using that s2 bs by (intro exI [of _ "s2\<lparr>hs_reader := Snap_Done (snap_of (hs_seen s2) (hs_samples s) sm' mx)\<rparr>"] exI [of _ sm']) simp
  show ?thesis
  proof (cases "sum_list bs = 0")
    case True
    then show ?thesis using rtranclp.rtrancl_into_rtrancl [OF run st3] by (intro fin [of 0]) (simp_all add: bs snap_of_def)
  next
    case False
    have run3: "hs_step\<^sup>*\<^sup>* s (s2\<lparr>hs_reader := Snap_Mean bs mx\<rparr>)" using rtranclp.rtrancl_into_rtrancl [OF run st3] False by simp
    have "hs_step (s2\<lparr>hs_reader := Snap_Mean bs mx\<rparr>)
        (s2\<lparr>hs_reader := Snap_Done (hist_snapshot \<lparr>buckets = bs, count = 0, sum_ns = sm, max_ns = mx\<rparr>)\<rparr>)"
      using hs_mean [of "s2\<lparr>hs_reader := Snap_Mean bs mx\<rparr>" bs mx sm] m(2) s2(6) by simp
    from rtranclp.rtrancl_into_rtrancl [OF run3 this] show ?thesis by (intro fin [of sm]) (simp_all add: bs snap_of_def)
  qed
qed

lemma run_again:
  assumes "hs_inv s" "hs_reader s = Snap_Idle \<or> hs_reader s = Snap_Done r" "mx \<in> set (hs_maxes s)" "sm \<in> set (hs_sums s)"
  shows "\<exists>s' res. hs_step\<^sup>*\<^sup>* s s' \<and> hs_reader s' = Snap_Done res \<and> hs_samples s' = hs_samples s \<and>
    mx \<in> set (hs_maxes s') \<and> sm \<in> set (hs_sums s')"
  using run_snapshot [OF assms] assms(3,4) by metis

lemma counted_all: "list_all in_range xs \<Longrightarrow> (\<And>i. i < kBuckets \<Longrightarrow> k + length xs \<le> ts ! i) \<Longrightarrow> counted ts k xs = xs"
proof (induction xs arbitrary: k)
  case (Cons x xs)
  have "k + length (x # xs) \<le> ts ! bucket_nat (unat x)" using Cons.prems by (intro Cons.prems(2)) (simp add: in_range_def bucket_nat_lt)
  moreover have "Suc k + length xs \<le> ts ! i" if "i < kBuckets" for i using Cons.prems(2) [OF that] by simp
  ultimately show ?case using Cons by simp
qed simp

text \<open>
  Mean and maximum are loaded separately from the buckets: a snapshot may show a mean above its maximum, here the first sample's
  value next to a maximum that was loaded out of date.
\<close>

lemma snapshot_mean_above_max: "\<exists>s r. reach hs_init hs_step s \<and> hs_reader s = Snap_Done (Inr r) \<and> s_max r < s_mean r"
proof -
  obtain s where s: "reach hs_init hs_step s" "hs_samples s = [770]" "hs_reader s = Snap_Idle" "0 \<in> set (hs_maxes s)" "770 \<in> set (hs_sums s)"
    using run_record by blast
  obtain s1 sm where s1: "hs_step\<^sup>*\<^sup>* s s1" "hs_reader s1 = Snap_Done (snap_of (hs_seen s1) [770] sm 0)"
    "\<forall>i < kBuckets. hs_seen s1 ! i = 1" "sum_list (bucket_copy (hs_seen s1) [770]) \<noteq> 0 \<longrightarrow> sm = 770"
    using run_snapshot [OF hist_run.reach_inv [OF s(1)] _ s(4,5)] s(2,3) by auto
  have ir: "list_all in_range [770]" by (simp add: in_range_def)
  have c: "counted (hs_seen s1) 0 [770] = [770]" by (rule counted_all [OF ir]) (use s1(3) in simp)
  have tot: "sum_list (bucket_copy (hs_seen s1) [770]) = 1"
    using hist_of_total [OF bucket_copy_of [OF ir, of "hs_seen s1"]] ir unfolding c by simp
  obtain r where r: "snap_of (hs_seen s1) [770] sm 0 = Inr r" using snap_of_counted [OF ir, of "hs_seen s1" sm 0] by auto
  then have "s_max r = 0 \<and> s_mean r = 770"
    using tot s1(4) by (auto simp: snap_of_def hist_snapshot_def Let_def cpp_bind_eq_Inr_iff)
  then show ?thesis using reach_rtranclp [OF s1(1) s(1)] s1(2) r by (intro exI [of _ s1] exI [of _ r]) simp
qed

section \<open>Properties\<close>

text \<open>
  C16. Concurrent recording loses nothing. Let any number of threads call \<^verbatim>\<open>record\<close> on one histogram, interleaved in
  any way, with loads of the maximum that are out of date and exchanges that fail spuriously: whenever
  no call is in flight, the histogram is exactly the one that recording the same values one after
  the other gives, in any order.
\<close>

theorem concurrent_records:
  assumes "reach hs_init hs_step s" "list_all (\<lambda>p. p = Rec_Idle) (hs_writers s)" "mset ys = mset (hs_samples s)"
  shows "hist_records ys hist_new = Inr (hs_hist s)"
proof -
  have inv: "rec_inv (hs_hist s) (hs_writers s) (hs_samples s) (hs_maxes s)"
    using hist_run.reach_inv [OF assms(1)] by (simp add: hs_inv_def)
  have "hist_of ys (hs_hist s)" using hist_of_perm [OF assms(3) [symmetric] rec_inv_idle [OF inv assms(2)]] .
  moreover have "list_all in_range ys"
    using inv assms(3) by (metis list_all_iff rec_inv_def set_mset_mset)
  then obtain h where "hist_records ys hist_new = Inr h" "hist_of ys h" using hist_records_of [OF hist_of_new] by auto
  ultimately show ?thesis using hist_of_unique by blast
qed

theorem concurrent_records_witness:
  "\<exists>s. reach hs_init hs_step s \<and> hs_samples s = [770] \<and> hist_records [770] hist_new = Inr (hs_hist s)"
proof -
  obtain s where s: "reach hs_init hs_step s" "hs_writers s = [Rec_Idle]" "hs_samples s = [770]" using run_record by blast
  then show ?thesis using concurrent_records [OF s(1), of "[770]"] by auto
qed

text \<open>
  C17. Concurrent snapshots. A snapshot taken while threads record (fewer than \<open>2 ^ 53\<close> samples) never faults and reports
  on some of the samples recorded so far: it counts them, its p50, p99 and p99.9 are within one part in 128 of
  the elements of those samples at the ranks the code computes, and its maximum is 0 or a recorded sample.
\<close>

theorem concurrent_snapshot:
  assumes "reach hs_init hs_step s" "hs_reader s = Snap_Done res" "length (hs_samples s) < 2 ^ 53"
  shows "\<exists>ys r. subseq ys (hs_samples s) \<and> res = Inr r \<and> s_count r = of_nat (length ys) \<and>
    s_max r \<in> insert 0 (set (hs_samples s)) \<and>
    (2 \<le> length ys \<longrightarrow> within_128th (s_p50 r) (sort ys ! (length ys div 2 - 1)) \<and>
       within_128th (s_p99 r) (sort ys ! (scaled (length ys) d99 - 1)) \<and>
       within_128th (s_p999 r) (sort ys ! (scaled (length ys) d999 - 1)))"
proof -
  let ?xs = "hs_samples s" and ?ys = "counted (hs_seen s) 0 (hs_samples s)"
  have inv: "list_all in_range ?xs" "snap_inv (hs_reader s) (hs_seen s) ?xs"
    using hist_run.reach_inv [OF assms(1)] by (simp_all add: hs_inv_def rec_inv_def)
  obtain sm mx where r: "mx \<in> insert 0 (set ?xs)" "res = snap_of (hs_seen s) ?xs sm mx"
    using inv(2) assms(2) by (auto simp: snap_inv_def)
  have ys: "list_all in_range ?ys" "length ?ys < 2 ^ 53"
    using counted_range [OF inv(1) assms(3)] by simp_all
  have w: "within_128th (value_of (bucket_nat (unat (sort ?ys ! i)))) (sort ?ys ! i)" if "i < length ?ys" for i
    using within_bucket [OF sort_nth_in_range [OF ys(1) that]] .
  have "scaled (length ?ys) d99 \<le> length ?ys" "scaled (length ?ys) d999 \<le> length ?ys"
    using scaled_fraction [OF ys(2)] by (simp_all add: d99_def d999_def)
  then have "length ?ys div 2 - 1 < length ?ys" "scaled (length ?ys) d99 - 1 < length ?ys" "scaled (length ?ys) d999 - 1 < length ?ys"
    if "2 \<le> length ?ys" using that by simp_all
  then show ?thesis
    using snap_of_counted [OF inv(1) assms(3), of "hs_seen s" sm mx] r counted_subseq [of "hs_seen s" 0 ?xs]
    by (intro exI [of _ ?ys]) (auto simp: w)
qed

theorem concurrent_snapshot_witness:
  "\<exists>s ys r. reach hs_init hs_step s \<and> hs_samples s = [770] \<and> hs_reader s = Snap_Done (Inr r) \<and>
     subseq ys (hs_samples s) \<and> s_count r = of_nat (length ys)"
proof -
  obtain s where s: "reach hs_init hs_step s" "hs_samples s = [770]" "hs_reader s = Snap_Idle" "0 \<in> set (hs_maxes s)" "770 \<in> set (hs_sums s)"
    using run_record by blast
  obtain s1 res where s1: "hs_step\<^sup>*\<^sup>* s s1" "hs_reader s1 = Snap_Done res" "hs_samples s1 = [770]"
    using run_again [OF hist_run.reach_inv [OF s(1)] _ s(4,5)] s(2,3) by auto
  have r1: "reach hs_init hs_step s1" by (rule reach_rtranclp [OF s1(1) s(1)])
  show ?thesis using concurrent_snapshot [OF r1 s1(2)] r1 s1(2,3) by fastforce
qed

text \<open>
  Scrapes never go back. Of two snapshots by the same thread, the later one counts at least as many samples,
  however out of date the values are that it loads.
\<close>

lemma snapshot_counts_grow:
  assumes "reach hs_init hs_step s" "hs_reader s = Snap_Done (Inr r)"
    and "hs_step\<^sup>*\<^sup>* s s'" "hs_reader s' = Snap_Done (Inr r')" "length (hs_samples s') < 2 ^ 53"
  shows "s_count r \<le> s_count r'"
proof -
  let ?xs = "hs_samples s" and ?xs' = "hs_samples s'"
  have inv: "hs_inv s" by (rule hist_run.reach_inv [OF assms(1)])
  note S = seen_steps [OF assms(3) inv]
  obtain ys where ys: "?xs' = ?xs @ ys" using S by blast
  have ir: "list_all in_range ?xs" "list_all in_range ?xs'" using inv S by (simp_all add: hs_inv_def rec_inv_def)
  obtain sm mx sm' mx' where "Inr r = snap_of (hs_seen s) ?xs sm mx" "Inr r' = snap_of (hs_seen s') ?xs' sm' mx'"
    using inv S assms(2,4) by (auto simp: hs_inv_def snap_inv_def)
  moreover have "length ?xs < 2 ^ 53" using assms(5) ys by simp
  ultimately have c: "s_count r = of_nat (length (counted (hs_seen s) 0 ?xs))" "s_count r' = of_nat (length (counted (hs_seen s') 0 ?xs'))"
    using snap_of_counted [OF ir(1), of "hs_seen s" sm mx] snap_of_counted [OF ir(2) assms(5), of "hs_seen s'" sm' mx'] by auto
  have "length (counted (hs_seen s) 0 ?xs) \<le> length (counted (hs_seen s') 0 ?xs')"
    unfolding ys by (rule counted_mono [OF ir(1)]) (use S in blast)
  moreover have "length (counted (hs_seen s') 0 ?xs') < 2 ^ 64"
    using counted_range(2) [OF ir(2) assms(5), of "hs_seen s'" 0] by simp
  ultimately show ?thesis unfolding c by (simp add: word_le_nat_alt unat_of_nat_u64)
qed

end
