(* ===== verification/Scrape.thy ===== *)
theory Scrape
  imports Startup Hist_Threads
begin

text \<open>
  \<^verbatim>\<open>run_metrics\<close> and \<^verbatim>\<open>build_metrics\<close> of \<^verbatim>\<open>src/engine_main.cpp\<close> one load at a time. \<open>Metrics\<close> and \<open>Startup\<close> serve a client in
  one step; here the request is waited for, the buckets of the two histograms, their maxima and sums and the two counters are
  loaded one after the other, and the other threads go on between any two of these loads. A load returns the value of
  the moment (\<open>Hist_Threads\<close> has the snapshot under loads that are out of date), and what the gateway writes in one of its steps appears
  together.
\<close>

section \<open>Loads\<close>

text \<open>The next load of \<^verbatim>\<open>snapshot()\<close>, from the histogram as it is now.\<close>

fun snap_load :: "histogram \<Rightarrow> snap_pc \<Rightarrow> snap_pc" where
  "snap_load h Snap_Idle = Snap_Read []"
| "snap_load h (Snap_Read bs) =
     (if length bs < kBuckets then Snap_Read (bs @ [buckets h ! length bs])
      else if sum_list bs = 0 then Snap_Done (hist_snapshot \<lparr>buckets = bs, count = 0, sum_ns = 0, max_ns = max_ns h\<rparr>)
      else Snap_Mean bs (max_ns h))"
| "snap_load h (Snap_Mean bs mx) = Snap_Done (hist_snapshot \<lparr>buckets = bs, count = 0, sum_ns = sum_ns h, max_ns = mx\<rparr>)"
| "snap_load h (Snap_Done r) = Snap_Done r"

text \<open>
  Where \<^verbatim>\<open>build_metrics\<close> stands: in the snapshot of the first or the second histogram, between the loads of the two counters (arguments of one
  call, loaded in either order), or done.
\<close>

datatype page_pc = Pg_T2t snap_pc | Pg_Rtt snapshot snap_pc | Pg_Counts snapshot snapshot "u64 option" "u64 option" | Pg_Text string

fun page_step :: "tsc_clock \<Rightarrow> bool \<Rightarrow> bool \<Rightarrow> engine \<Rightarrow> page_pc \<Rightarrow> page_pc cpp" where
  "page_step clk on_huge fills_first e (Pg_T2t sp) =
     (case sp of Snap_Done r \<Rightarrow> cpp_bind r (\<lambda>p. Inr (Pg_Rtt p (Snap_Read [])))
      | _ \<Rightarrow> Inr (Pg_T2t (snap_load (t2t e) sp)))"
| "page_step clk on_huge fills_first e (Pg_Rtt p sp) =
     (case sp of Snap_Done r \<Rightarrow> cpp_bind r (\<lambda>q. Inr (Pg_Counts p q None None))
      | _ \<Rightarrow> Inr (Pg_Rtt p (snap_load (rtt e) sp)))"
| "page_step clk on_huge fills_first e (Pg_Counts p q None None) =
     Inr (if fills_first then Pg_Counts p q None (Some (fills e)) else Pg_Counts p q (Some (orders e)) None)"
| "page_step clk on_huge fills_first e (Pg_Counts p q (Some a) None) = Inr (Pg_Counts p q (Some a) (Some (fills e)))"
| "page_step clk on_huge fills_first e (Pg_Counts p q None (Some b)) = Inr (Pg_Counts p q (Some (orders e)) (Some b))"
| "page_step clk on_huge fills_first e (Pg_Counts p q (Some a) (Some b)) =
     cpp_bind (page_text p q a b clk on_huge) (\<lambda>body. Inr (Pg_Text body))"
| "page_step clk on_huge fills_first e (Pg_Text body) = Inr (Pg_Text body)"

section \<open>The thread\<close>

text \<open>
  \<^verbatim>\<open>run_metrics\<close> at its start, at the test of the flag, in \<^verbatim>\<open>accept\<close>, in \<^verbatim>\<open>recv\<close> on the connection of a client, building the page for
  it, or returned; the calls it has made on sockets, and for each client the bytes sent and whether \<^verbatim>\<open>send_all\<close> returned true.
\<close>

datatype sc_pc = Sc_Start | Sc_Loop int | Sc_Accept int | Sc_Request int int | Sc_Page int int page_pc | Sc_Done

record scraper =
  sc_at :: sc_pc
  sc_calls :: "ncall list"
  sc_sent :: "(string \<times> bool) list"

definition scraper_new :: scraper where
  "scraper_new = \<lparr>sc_at = Sc_Start, sc_calls = [], sc_sent = []\<rparr>"

definition scrape_run :: "bool \<Rightarrow> tsc_clock \<Rightarrow> bool \<Rightarrow> bool \<Rightarrow> engine \<Rightarrow> int \<times> bool \<times> bool \<Rightarrow> int \<Rightarrow> send_res list \<Rightarrow> scraper \<Rightarrow> scraper cpp" where
  "scrape_run running clk on_huge fills_first e lis afd rs m =
     (case sc_at m of
        Sc_Start \<Rightarrow>
          (let (fd, bound, listening) = lis;
               (lfd, calls) = listen_tcp fd bound listening ''127.0.0.1'' kMetricsPort
           in if lfd < 0 then Inr (m\<lparr>sc_at := Sc_Done, sc_calls := sc_calls m @ calls\<rparr>)
              else Inr (m\<lparr>sc_at := Sc_Loop lfd, sc_calls := sc_calls m @ calls @ [CSetopt lfd SO_RCVTIMEO 200000]\<rparr>))
      | Sc_Loop lfd \<Rightarrow>
          (if running then Inr (m\<lparr>sc_at := Sc_Accept lfd\<rparr>)
           else Inr (m\<lparr>sc_at := Sc_Done, sc_calls := sc_calls m @ [CClose lfd]\<rparr>))
      | Sc_Accept lfd \<Rightarrow>
          Inr (m\<lparr>sc_at := (if afd < 0 then Sc_Loop lfd else Sc_Request lfd afd), sc_calls := sc_calls m @ [CAccept lfd afd]\<rparr>)
      | Sc_Request lfd fd \<Rightarrow> Inr (m\<lparr>sc_at := Sc_Page lfd fd (Pg_T2t (Snap_Read []))\<rparr>)
      | Sc_Page lfd fd pg \<Rightarrow>
          (case pg of
             Pg_Text body \<Rightarrow>
               (let (ok, bytes) = send_all rs (http_response body)
                in Inr (m\<lparr>sc_at := Sc_Loop lfd, sc_calls := sc_calls m @ [CClose fd], sc_sent := sc_sent m @ [(bytes, ok = Some True)]\<rparr>))
           | _ \<Rightarrow> cpp_bind (page_step clk on_huge fills_first e pg) (\<lambda>pg'. Inr (m\<lparr>sc_at := Sc_Page lfd fd pg'\<rparr>)))
      | Sc_Done \<Rightarrow> Inr m)"

section \<open>The process\<close>

record process =
  p_engine :: engine
  p_sc :: scraper

text \<open>The kernel hands out descriptors that are not in use; \<^verbatim>\<open>send_all\<close> returns.\<close>

definition sc_kernel :: "int \<Rightarrow> int \<times> bool \<times> bool \<Rightarrow> int \<Rightarrow> send_res list \<Rightarrow> scraper \<Rightarrow> bool" where
  "sc_kernel sock lis afd rs m \<longleftrightarrow>
     (case sc_at m of
        Sc_Start \<Rightarrow> fst lis \<noteq> sock
      | Sc_Accept lfd \<Rightarrow> afd \<noteq> sock \<and> afd \<notin> open_fds (sc_calls m) {}
      | Sc_Page lfd fd (Pg_Text body) \<Rightarrow> fst (send_all rs (http_response body)) \<noteq> None
      | _ \<Rightarrow> True)"

inductive process_step :: "cfg \<Rightarrow> tsc_clock \<Rightarrow> u64 \<Rightarrow> bool \<Rightarrow> int \<Rightarrow> process \<Rightarrow> process \<Rightarrow> bool"
  for c clk period on_huge sock where
  pr_engine: "engine_step c clk period (p_engine p) e' \<Longrightarrow> process_step c clk period on_huge sock p (p\<lparr>p_engine := e'\<rparr>)"
| pr_scrape: "scrape_run (g_running (p_engine p)) clk on_huge fills_first (p_engine p) lis afd rs (p_sc p) = Inr m' \<Longrightarrow>
    sc_kernel sock lis afd rs (p_sc p) \<Longrightarrow> process_step c clk period on_huge sock p (p\<lparr>p_sc := m'\<rparr>)"

text \<open>The first \<open>n\<close> steps of a run.\<close>

definition process_run :: "cfg \<Rightarrow> tsc_clock \<Rightarrow> u64 \<Rightarrow> bool \<Rightarrow> int \<Rightarrow> nat \<Rightarrow> (nat \<Rightarrow> process) \<Rightarrow> bool" where
  "process_run c clk period on_huge sock n f \<longleftrightarrow> engine_init (p_engine (f 0)) \<and> p_sc (f 0) = scraper_new \<and>
     (\<forall>i < n. process_step c clk period on_huge sock (f i) (f (Suc i)))"

section \<open>Descriptors\<close>

definition sc_open :: "sc_pc \<Rightarrow> int set" where
  "sc_open at = (case at of Sc_Loop lfd \<Rightarrow> {lfd} | Sc_Accept lfd \<Rightarrow> {lfd} | Sc_Request lfd fd \<Rightarrow> {lfd, fd}
     | Sc_Page lfd fd pg \<Rightarrow> {lfd, fd} | _ \<Rightarrow> {})"

definition sc_fds_ok :: "scraper \<Rightarrow> bool" where
  "sc_fds_ok m \<longleftrightarrow> open_fds (sc_calls m) {} = sc_open (sc_at m) \<and>
     (case sc_at m of Sc_Request lfd fd \<Rightarrow> lfd \<noteq> fd | Sc_Page lfd fd pg \<Rightarrow> lfd \<noteq> fd | _ \<Rightarrow> True)"

lemma scrape_page_cases:
  assumes "scrape_run running clk on_huge ff e lis afd rs m = Inr m'" "sc_at m = Sc_Page lfd fd pg"
  obtains (reply) body where "pg = Pg_Text body"
      "m' = m\<lparr>sc_at := Sc_Loop lfd, sc_calls := sc_calls m @ [CClose fd],
         sc_sent := sc_sent m @ [(snd (send_all rs (http_response body)), fst (send_all rs (http_response body)) = Some True)]\<rparr>"
    | (going) pg' where "page_step clk on_huge ff e pg = Inr pg'" "m' = m\<lparr>sc_at := Sc_Page lfd fd pg'\<rparr>"
proof (cases pg)
  case (Pg_Text body)
  then show ?thesis using assms that(1) by (simp add: scrape_run_def case_prod_unfold Let_def)
qed (use assms that(2) in \<open>auto simp: scrape_run_def cpp_bind_eq_Inr_iff\<close>)

lemma scrape_fds:
  assumes run: "scrape_run running clk on_huge ff e lis afd rs m = Inr m'" and k: "sc_kernel sock lis afd rs m" and inv: "sc_fds_ok m"
  shows "sc_fds_ok m'"
proof (cases "sc_at m")
  case Sc_Start
  obtain fd b l where lis: "lis = (fd, b, l)" by (cases lis)
  let ?l = "listen_tcp fd b l ''127.0.0.1'' kMetricsPort"
  have "fd \<notin> {}" by simp
  note L = sockets_no_leak(2,4,6) [OF this, where b = b and l = l and ip = "''127.0.0.1''" and port = kMetricsPort]
  have "fst ?l = fd" if "fst ?l \<noteq> -1" using that by (simp add: listen_tcp_def split: if_splits)
  then show ?thesis using run inv Sc_Start lis L
    by (cases "fst ?l = -1") (auto simp: scrape_run_def Let_def case_prod_unfold sc_fds_ok_def sc_open_def fd_call_def)
next
  case (Sc_Page lfd fd pg)
  from run Sc_Page show ?thesis
    by (cases rule: scrape_page_cases) (use inv Sc_Page in \<open>auto simp: sc_fds_ok_def sc_open_def fd_call_def\<close>)
next
  case (Sc_Loop lfd)
  then show ?thesis using run inv by (cases running) (auto simp: scrape_run_def sc_fds_ok_def sc_open_def fd_call_def)
next
  case (Sc_Accept lfd)
  have m': "m' = m\<lparr>sc_at := (if afd < 0 then Sc_Loop lfd else Sc_Request lfd afd), sc_calls := sc_calls m @ [CAccept lfd afd]\<rparr>"
    using run Sc_Accept by (simp add: scrape_run_def)
  have o: "open_fds (sc_calls m) {} = {lfd}" using inv Sc_Accept by (simp add: sc_fds_ok_def sc_open_def)
  then have "afd \<noteq> lfd" using k Sc_Accept by (simp add: sc_kernel_def)
  then show ?thesis unfolding m' by (cases "afd < 0") (simp_all add: o sc_fds_ok_def sc_open_def fd_call_def insert_commute)
next
  case (Sc_Request lfd fd)
  then show ?thesis using run inv by (auto simp: scrape_run_def sc_fds_ok_def sc_open_def)
next
  case Sc_Done
  then show ?thesis using run inv by (auto simp: scrape_run_def)
qed

section \<open>What a page shows\<close>

text \<open>
  In the run \<open>f\<close> a value was had at some moment from \<open>lo\<close> on and before \<open>hi\<close>; the buckets, the maximum and (unless it is not
  loaded, with no sample in the buckets) the sum of \<open>h\<close> are values the histogram had in that time, each at a moment of its own.
\<close>

definition seen :: "nat \<Rightarrow> nat \<Rightarrow> (nat \<Rightarrow> 'a) \<Rightarrow> 'a \<Rightarrow> bool" where
  "seen lo hi V v \<longleftrightarrow> (\<exists>t. lo \<le> t \<and> t < hi \<and> V t = v)"

definition read_in :: "(nat \<Rightarrow> histogram) \<Rightarrow> nat \<Rightarrow> nat \<Rightarrow> histogram \<Rightarrow> bool" where
  "read_in H lo hi h \<longleftrightarrow> length (buckets h) = kBuckets \<and> (\<forall>i < kBuckets. seen lo hi (\<lambda>t. buckets (H t) ! i) (buckets h ! i)) \<and>
     seen lo hi (\<lambda>t. max_ns (H t)) (max_ns h) \<and> (sum_list (buckets h) \<noteq> 0 \<longrightarrow> seen lo hi (\<lambda>t. sum_ns (H t)) (sum_ns h))"

text \<open>
  The page was built from what the run had from \<open>lo\<close> on and before \<open>hi\<close>: first the tick-to-trade histogram, after it the
  round-trip histogram, after that the two counters.
\<close>

definition page_seen :: "tsc_clock \<Rightarrow> bool \<Rightarrow> (nat \<Rightarrow> engine) \<Rightarrow> nat \<Rightarrow> nat \<Rightarrow> string \<Rightarrow> bool" where
  "page_seen clk on_huge E lo hi body \<longleftrightarrow> (\<exists>t1 t2 h1 h2 a b. lo \<le> t1 \<and> t1 \<le> t2 \<and> t2 \<le> hi \<and>
     read_in (\<lambda>t. t2t (E t)) lo t1 h1 \<and> read_in (\<lambda>t. rtt (E t)) t1 t2 h2 \<and>
     seen t2 hi (\<lambda>t. orders (E t)) a \<and> seen t2 hi (\<lambda>t. fills (E t)) b \<and> build_metrics h1 h2 a b clk on_huge = Inr body)"

text \<open>The thread is building the page of its client number \<open>k\<close>, from 0.\<close>

definition serving :: "nat \<Rightarrow> process \<Rightarrow> bool" where
  "serving k p \<longleftrightarrow> length (sc_sent (p_sc p)) = k \<and> (\<exists>lfd fd pg. sc_at (p_sc p) = Sc_Page lfd fd pg)"

text \<open>The same for a snapshot and a page in progress at the moment \<open>n\<close>.\<close>

fun snapping :: "(nat \<Rightarrow> histogram) \<Rightarrow> nat \<Rightarrow> nat \<Rightarrow> snap_pc \<Rightarrow> bool" where
  "snapping H lo n Snap_Idle \<longleftrightarrow> True"
| "snapping H lo n (Snap_Read bs) \<longleftrightarrow> length bs \<le> kBuckets \<and> (\<forall>i < length bs. seen lo n (\<lambda>t. buckets (H t) ! i) (bs ! i))"
| "snapping H lo n (Snap_Mean bs mx) \<longleftrightarrow> length bs = kBuckets \<and> (\<forall>i < kBuckets. seen lo n (\<lambda>t. buckets (H t) ! i) (bs ! i)) \<and>
     seen lo n (\<lambda>t. max_ns (H t)) mx"
| "snapping H lo n (Snap_Done r) \<longleftrightarrow> (\<exists>h. r = hist_snapshot h \<and> read_in H lo n h)"

fun building :: "tsc_clock \<Rightarrow> bool \<Rightarrow> (nat \<Rightarrow> engine) \<Rightarrow> nat \<Rightarrow> nat \<Rightarrow> page_pc \<Rightarrow> bool" where
  "building clk on_huge E lo n (Pg_T2t sp) \<longleftrightarrow> snapping (\<lambda>t. t2t (E t)) lo n sp"
| "building clk on_huge E lo n (Pg_Rtt p sp) \<longleftrightarrow> (\<exists>t1 h1. lo \<le> t1 \<and> t1 \<le> n \<and> read_in (\<lambda>t. t2t (E t)) lo t1 h1 \<and>
     hist_snapshot h1 = Inr p \<and> snapping (\<lambda>t. rtt (E t)) t1 n sp)"
| "building clk on_huge E lo n (Pg_Counts p q oa ob) \<longleftrightarrow> (\<exists>t1 t2 h1 h2. lo \<le> t1 \<and> t1 \<le> t2 \<and> t2 \<le> n \<and>
     read_in (\<lambda>t. t2t (E t)) lo t1 h1 \<and> read_in (\<lambda>t. rtt (E t)) t1 t2 h2 \<and> hist_snapshot h1 = Inr p \<and> hist_snapshot h2 = Inr q \<and>
     (\<forall>a. oa = Some a \<longrightarrow> seen t2 n (\<lambda>t. orders (E t)) a) \<and> (\<forall>b. ob = Some b \<longrightarrow> seen t2 n (\<lambda>t. fills (E t)) b))"
| "building clk on_huge E lo n (Pg_Text body) \<longleftrightarrow> page_seen clk on_huge E lo n body"

lemma seen_Suc: "seen lo hi V v \<Longrightarrow> seen lo (Suc hi) V v"
  by (auto simp: seen_def)

lemma seen_now: "lo \<le> n \<Longrightarrow> seen lo (Suc n) V (V n)"
  by (auto simp: seen_def)

lemma read_in_Suc: "read_in H lo hi h \<Longrightarrow> read_in H lo (Suc hi) h"
  by (simp add: read_in_def seen_Suc)

lemma snapping_Suc: "snapping H lo n sp \<Longrightarrow> snapping H lo (Suc n) sp"
  by (cases sp) (auto simp: seen_Suc intro: read_in_Suc)

lemma building_Suc: "building clk on_huge E lo n pg \<Longrightarrow> building clk on_huge E lo (Suc n) pg"
proof (cases pg)
  case (Pg_Rtt p sp)
  assume "building clk on_huge E lo n pg"
  then obtain t1 h1 where "lo \<le> t1" "t1 \<le> n" "read_in (\<lambda>t. t2t (E t)) lo t1 h1" "hist_snapshot h1 = Inr p"
    "snapping (\<lambda>t. rtt (E t)) t1 n sp" using Pg_Rtt by auto
  then show ?thesis using Pg_Rtt snapping_Suc le_SucI by fastforce
next
  case (Pg_Counts p q oa ob)
  assume "building clk on_huge E lo n pg"
  then obtain t1 t2 h1 h2 where "lo \<le> t1" "t1 \<le> t2" "t2 \<le> n" "read_in (\<lambda>t. t2t (E t)) lo t1 h1" "read_in (\<lambda>t. rtt (E t)) t1 t2 h2"
    "hist_snapshot h1 = Inr p" "hist_snapshot h2 = Inr q" "\<forall>a. oa = Some a \<longrightarrow> seen t2 n (\<lambda>t. orders (E t)) a"
    "\<forall>b. ob = Some b \<longrightarrow> seen t2 n (\<lambda>t. fills (E t)) b" using Pg_Counts by auto
  then show ?thesis unfolding Pg_Counts building.simps
    by (intro exI [of _ t1] exI [of _ t2] exI [of _ h1] exI [of _ h2]) (simp add: seen_Suc)
next
  case (Pg_Text body)
  assume "building clk on_huge E lo n pg"
  then obtain t1 t2 h1 h2 a b where "lo \<le> t1" "t1 \<le> t2" "t2 \<le> n" "read_in (\<lambda>t. t2t (E t)) lo t1 h1" "read_in (\<lambda>t. rtt (E t)) t1 t2 h2"
    "seen t2 n (\<lambda>t. orders (E t)) a" "seen t2 n (\<lambda>t. fills (E t)) b" "build_metrics h1 h2 a b clk on_huge = Inr body"
    using Pg_Text by (auto simp: page_seen_def)
  then show ?thesis unfolding Pg_Text building.simps page_seen_def
    by (intro exI [of _ t1] exI [of _ t2] exI [of _ h1] exI [of _ h2] exI [of _ a] exI [of _ b]) (simp add: seen_Suc)
qed (simp add: snapping_Suc)

lemma snapping_load: "snapping H lo n sp \<Longrightarrow> lo \<le> n \<Longrightarrow> snapping H lo (Suc n) (snap_load (H n) sp)"
proof (cases sp)
  case (Snap_Read bs)
  assume a: "snapping H lo n sp" "lo \<le> n"
  show ?thesis
  proof (cases "length bs < kBuckets")
    case True
    then show ?thesis using a Snap_Read seen_now [of lo n "\<lambda>t. buckets (H t) ! length bs"]
      by (auto simp: nth_append less_Suc_eq seen_Suc)
  next
    case False
    let ?h = "\<lparr>buckets = bs, count = 0, sum_ns = 0, max_ns = max_ns (H n)\<rparr>"
    have "read_in H lo (Suc n) ?h" if "sum_list bs = 0"
      using that a Snap_Read False seen_now [of lo n "\<lambda>t. max_ns (H t)"] by (auto simp: read_in_def seen_Suc)
    then show ?thesis using a Snap_Read False seen_now [of lo n "\<lambda>t. max_ns (H t)"] by (auto simp: seen_Suc)
  qed
next
  case (Snap_Mean bs mx)
  assume a: "snapping H lo n sp" "lo \<le> n"
  have "read_in H lo (Suc n) \<lparr>buckets = bs, count = 0, sum_ns = sum_ns (H n), max_ns = mx\<rparr>"
    using a Snap_Mean seen_now [of lo n "\<lambda>t. sum_ns (H t)"] by (auto simp: read_in_def seen_Suc)
  then show ?thesis using Snap_Mean by auto
next
  case (Snap_Done r)
  then show "snapping H lo n sp \<Longrightarrow> ?thesis" using read_in_Suc by auto
qed simp

lemma building_step:
  assumes st: "page_step clk on_huge ff (E n) pg = Inr pg'" and b: "building clk on_huge E lo n pg" and lo: "lo \<le> n"
  shows "building clk on_huge E lo (Suc n) pg'"
proof (cases pg)
  case (Pg_T2t sp)
  then show ?thesis
  proof (cases "\<exists>r. sp = Snap_Done r")
    case True
    then obtain p h where "sp = Snap_Done (Inr p)" "pg' = Pg_Rtt p (Snap_Read [])" "hist_snapshot h = Inr p" "read_in (\<lambda>t. t2t (E t)) lo n h"
      using Pg_T2t st b by (fastforce simp: cpp_bind_eq_Inr_iff)
    then show ?thesis using lo by (auto intro!: exI [of _ n])
  next
    case False
    then have "pg' = Pg_T2t (snap_load (t2t (E n)) sp)" using Pg_T2t st by (cases sp) auto
    then show ?thesis using snapping_load [of "\<lambda>t. t2t (E t)" lo n sp] Pg_T2t b lo by simp
  qed
next
  case (Pg_Rtt p sp)
  then obtain t1 h1 where t1: "lo \<le> t1" "t1 \<le> n" "read_in (\<lambda>t. t2t (E t)) lo t1 h1" "hist_snapshot h1 = Inr p"
    "snapping (\<lambda>t. rtt (E t)) t1 n sp" using b by auto
  show ?thesis
  proof (cases "\<exists>r. sp = Snap_Done r")
    case True
    then obtain q h where h: "pg' = Pg_Counts p q None None" "hist_snapshot h = Inr q" "read_in (\<lambda>t. rtt (E t)) t1 n h"
      using Pg_Rtt st t1(5) by (fastforce simp: cpp_bind_eq_Inr_iff)
    show ?thesis unfolding h(1) building.simps
      by (intro exI [of _ t1] exI [of _ n] exI [of _ h1] exI [of _ h]) (use t1 h in simp)
  next
    case False
    then have "pg' = Pg_Rtt p (snap_load (rtt (E n)) sp)" using Pg_Rtt st by (cases sp) auto
    then show ?thesis using snapping_load [OF t1(5,2)] t1 by (auto intro!: exI [of _ t1] exI [of _ h1])
  qed
next
  case (Pg_Counts p q oa ob)
  then obtain t1 t2 h1 h2 where t: "lo \<le> t1" "t1 \<le> t2" "t2 \<le> n" "read_in (\<lambda>t. t2t (E t)) lo t1 h1" "read_in (\<lambda>t. rtt (E t)) t1 t2 h2"
    "hist_snapshot h1 = Inr p" "hist_snapshot h2 = Inr q" "\<forall>a. oa = Some a \<longrightarrow> seen t2 n (\<lambda>t. orders (E t)) a"
    "\<forall>b. ob = Some b \<longrightarrow> seen t2 n (\<lambda>t. fills (E t)) b" using b by auto
  note now = seen_now [OF t(3), of "\<lambda>t. orders (E t)"] seen_now [OF t(3), of "\<lambda>t. fills (E t)"]
  have counts: "building clk on_huge E lo (Suc n) (Pg_Counts p q oa' ob')"
    if "\<forall>a. oa' = Some a \<longrightarrow> seen t2 (Suc n) (\<lambda>t. orders (E t)) a" "\<forall>b. ob' = Some b \<longrightarrow> seen t2 (Suc n) (\<lambda>t. fills (E t)) b" for oa' ob'
    unfolding building.simps by (intro exI [of _ t1] exI [of _ t2] exI [of _ h1] exI [of _ h2]) (use t that in simp)
  show ?thesis
  proof (cases "oa \<noteq> None \<and> ob \<noteq> None")
    case True
    then obtain a b where ab: "oa = Some a" "ob = Some b" by auto
    then obtain body where body: "page_text p q a b clk on_huge = Inr body" "pg' = Pg_Text body"
      using st Pg_Counts by (auto simp: cpp_bind_eq_Inr_iff)
    then have "build_metrics h1 h2 a b clk on_huge = Inr body" using t by (simp add: build_metrics_def)
    then show ?thesis unfolding body(2) building.simps page_seen_def
      by (intro exI [of _ t1] exI [of _ t2] exI [of _ h1] exI [of _ h2] exI [of _ a] exI [of _ b]) (use t ab in \<open>simp add: seen_Suc\<close>)
  next
    case False
    then obtain oa' ob' where pg': "pg' = Pg_Counts p q oa' ob'"
      "oa' = oa \<or> oa' = Some (orders (E n))" "ob' = ob \<or> ob' = Some (fills (E n))"
      using st Pg_Counts that by (cases oa; cases ob; cases ff) auto
    show ?thesis unfolding pg'(1) by (rule counts) (use pg'(2,3) t(8,9) now seen_Suc in auto)
  qed
next
  case (Pg_Text body)
  then show ?thesis using st building_Suc [OF b] by simp
qed

text \<open>A reply that was sent, and the invariant of a run.\<close>

definition reply_ok :: "tsc_clock \<Rightarrow> bool \<Rightarrow> (nat \<Rightarrow> process) \<Rightarrow> nat \<Rightarrow> nat \<Rightarrow> string \<times> bool \<Rightarrow> bool" where
  "reply_ok clk on_huge f n k r \<longleftrightarrow> (\<exists>lo hi body. hi \<le> n \<and> (\<forall>t. lo \<le> t \<and> t < hi \<longrightarrow> serving k (f t)) \<and>
     page_seen clk on_huge (\<lambda>t. p_engine (f t)) lo hi body \<and> prefix (fst r) (http_response body) \<and>
     (snd r \<longrightarrow> fst r = http_response body))"

definition serving_ok :: "tsc_clock \<Rightarrow> bool \<Rightarrow> (nat \<Rightarrow> process) \<Rightarrow> nat \<Rightarrow> bool" where
  "serving_ok clk on_huge f n \<longleftrightarrow> (\<forall>lfd fd pg. sc_at (p_sc (f n)) = Sc_Page lfd fd pg \<longrightarrow>
     (\<exists>lo \<le> n. (\<forall>t. lo \<le> t \<and> t \<le> n \<longrightarrow> serving (length (sc_sent (p_sc (f n)))) (f t)) \<and>
        building clk on_huge (\<lambda>t. p_engine (f t)) lo n pg))"

definition scrape_inv :: "tsc_clock \<Rightarrow> bool \<Rightarrow> (nat \<Rightarrow> process) \<Rightarrow> nat \<Rightarrow> bool" where
  "scrape_inv clk on_huge f n \<longleftrightarrow> sc_fds_ok (p_sc (f n)) \<and> serving_ok clk on_huge f n \<and>
     (\<forall>k < length (sc_sent (p_sc (f n))). reply_ok clk on_huge f n k (sc_sent (p_sc (f n)) ! k))"

lemma reply_ok_Suc: "reply_ok clk on_huge f n k r \<Longrightarrow> reply_ok clk on_huge f (Suc n) k r"
  unfolding reply_ok_def by (meson le_SucI)

lemma send_all_result: "prefix (snd (send_all rs msg)) msg" "fst (send_all rs msg) = Some True \<Longrightarrow> snd (send_all rs msg) = msg"
  using send_loop_prefix [of 0 msg rs] by (auto simp: send_all_def)

lemma serving_ok_keeps:
  assumes ok: "serving_ok clk on_huge f n" and s: "sc_sent (p_sc (f (Suc n))) = sc_sent (p_sc (f n))"
    and at: "\<And>lfd fd pg'. sc_at (p_sc (f (Suc n))) = Sc_Page lfd fd pg' \<Longrightarrow> (\<exists>lfd fd pg. sc_at (p_sc (f n)) = Sc_Page lfd fd pg \<and>
      (pg' = pg \<or> (\<exists>ff. page_step clk on_huge ff (p_engine (f n)) pg = Inr pg')))"
  shows "serving_ok clk on_huge f (Suc n)"
  unfolding serving_ok_def
proof (intro allI impI)
  fix lfd fd pg'
  assume p': "sc_at (p_sc (f (Suc n))) = Sc_Page lfd fd pg'"
  from at [OF this] obtain lfd0 fd0 pg where p: "sc_at (p_sc (f n)) = Sc_Page lfd0 fd0 pg"
    "pg' = pg \<or> (\<exists>ff. page_step clk on_huge ff (p_engine (f n)) pg = Inr pg')" by blast
  then obtain lo where lo: "lo \<le> n" "\<forall>t. lo \<le> t \<and> t \<le> n \<longrightarrow> serving (length (sc_sent (p_sc (f n)))) (f t)"
    "building clk on_huge (\<lambda>t. p_engine (f t)) lo n pg" using ok by (auto simp: serving_ok_def)
  have "building clk on_huge (\<lambda>t. p_engine (f t)) lo (Suc n) pg'"
    using p(2) building_Suc [OF lo(3)] building_step [OF _ lo(3,1)] by blast
  moreover have "serving (length (sc_sent (p_sc (f n)))) (f (Suc n))" using p' s by (auto simp: serving_def)
  ultimately show "\<exists>lo \<le> Suc n. (\<forall>t. lo \<le> t \<and> t \<le> Suc n \<longrightarrow> serving (length (sc_sent (p_sc (f (Suc n))))) (f t)) \<and>
        building clk on_huge (\<lambda>t. p_engine (f t)) lo (Suc n) pg'"
    using lo s by (intro exI [of _ lo]) (auto simp: le_Suc_eq)
qed

lemma scrape_start:
  assumes "process_run c clk period on_huge sock n f"
  shows "scrape_inv clk on_huge f 0"
  using assms by (simp add: process_run_def scrape_inv_def scraper_new_def sc_fds_ok_def sc_open_def serving_ok_def)

text \<open>Where a step of the thread leads, from the point of view of its client.\<close>

lemma scrape_moves:
  assumes run: "scrape_run running clk on_huge ff e lis afd rs m = Inr m'"
  obtains (go) "sc_sent m' = sc_sent m" "\<And>lfd fd pg'. sc_at m' = Sc_Page lfd fd pg' \<Longrightarrow> (\<exists>lfd fd pg. sc_at m = Sc_Page lfd fd pg \<and>
      (pg' = pg \<or> (\<exists>ff. page_step clk on_huge ff e pg = Inr pg')))"
  | (request) lfd fd where "sc_at m = Sc_Request lfd fd" "sc_sent m' = sc_sent m" "sc_at m' = Sc_Page lfd fd (Pg_T2t (Snap_Read []))"
  | (answer) lfd fd body where "sc_at m = Sc_Page lfd fd (Pg_Text body)" "sc_at m' = Sc_Loop lfd"
      "sc_sent m' = sc_sent m @ [(snd (send_all rs (http_response body)), fst (send_all rs (http_response body)) = Some True)]"
proof (cases "sc_at m")
  case (Sc_Page lfd fd pg)
  from run Sc_Page show thesis
  proof (cases rule: scrape_page_cases)
    case (reply body)
    then show thesis using answer Sc_Page by simp
  next
    case (going pg')
    then show thesis using go Sc_Page by auto
  qed
next
  case (Sc_Request lfd fd)
  then show thesis using request run by (auto simp: scrape_run_def)
next
  case Sc_Start
  have "sc_sent m' = sc_sent m \<and> (\<forall>lfd fd pg. sc_at m' \<noteq> Sc_Page lfd fd pg)"
    using run Sc_Start by (auto simp: scrape_run_def case_prod_unfold Let_def split: if_splits)
  then show thesis using go by blast
next
  case (Sc_Loop lfd)
  then show thesis using go run by (auto simp: scrape_run_def split: if_splits)
next
  case (Sc_Accept lfd)
  then show thesis using go run by (auto simp: scrape_run_def split: if_splits)
next
  case Sc_Done
  then show thesis using go run by (auto simp: scrape_run_def)
qed

lemma scrape_inv_step:
  assumes inv: "scrape_inv clk on_huge f n" and st: "process_step c clk period on_huge sock (f n) (f (Suc n))"
  shows "scrape_inv clk on_huge f (Suc n)"
proof -
  have F: "sc_fds_ok (p_sc (f n))" "serving_ok clk on_huge f n"
    "\<And>k. k < length (sc_sent (p_sc (f n))) \<Longrightarrow> reply_ok clk on_huge f (Suc n) k (sc_sent (p_sc (f n)) ! k)"
    using inv reply_ok_Suc by (auto simp: scrape_inv_def)
  from st show ?thesis
  proof (cases rule: process_step.cases)
    case (pr_engine e')
    then have "p_sc (f (Suc n)) = p_sc (f n)" by simp
    then show ?thesis using F serving_ok_keeps [OF F(2)] by (simp add: scrape_inv_def)
  next
    case (pr_scrape ff lis afd rs m')
    have m': "p_sc (f (Suc n)) = m'" by (simp add: pr_scrape(1))
    have fds: "sc_fds_ok (p_sc (f (Suc n)))" unfolding m' by (rule scrape_fds [OF pr_scrape(2,3) F(1)])
    show ?thesis
    proof (cases rule: scrape_moves [OF pr_scrape(2)])
      case 1
      then have "serving_ok clk on_huge f (Suc n)" by (intro serving_ok_keeps [OF F(2)]) (simp_all add: m')
      then show ?thesis using F fds 1(1) by (simp add: scrape_inv_def m')
    next
      case (2 lfd fd)
      have "serving (length (sc_sent (p_sc (f n)))) (f (Suc n))" using 2 by (simp add: serving_def m')
      then have "serving_ok clk on_huge f (Suc n)"
        unfolding serving_ok_def by (auto simp: m' 2 le_antisym intro!: exI [of _ "Suc n"])
      then show ?thesis using F fds 2 by (simp add: scrape_inv_def m')
    next
      case (3 lfd fd body)
      let ?k = "length (sc_sent (p_sc (f n)))"
      obtain lo where lo: "lo \<le> n" "\<forall>t. lo \<le> t \<and> t \<le> n \<longrightarrow> serving ?k (f t)"
        "page_seen clk on_huge (\<lambda>t. p_engine (f t)) lo n body"
        using F(2) 3(1) by (fastforce simp: serving_ok_def)
      have "reply_ok clk on_huge f (Suc n) ?k (snd (send_all rs (http_response body)), fst (send_all rs (http_response body)) = Some True)"
        unfolding reply_ok_def by (rule exI [of _ lo], rule exI [of _ n], rule exI [of _ body]) (use lo send_all_result in auto)
      then show ?thesis using F fds 3 by (auto simp: scrape_inv_def m' nth_append less_Suc_eq serving_ok_def)
    qed
  qed
qed

lemma scrape_run_inv: "process_run c clk period on_huge sock n f \<Longrightarrow> scrape_inv clk on_huge f n"
proof (induction n)
  case 0
  then show ?case by (rule scrape_start)
next
  case (Suc n)
  then show ?case using scrape_inv_step [of clk on_huge f n c period sock] by (simp add: process_run_def)
qed

section \<open>The steps of Startup as runs of this thread\<close>

text \<open>When the other threads pause, the loads one after the other come to the page of that moment.\<close>

definition at_page :: "process \<Rightarrow> int \<Rightarrow> int \<Rightarrow> page_pc \<Rightarrow> process" where
  "at_page p lfd fd pg = p\<lparr>p_sc := (p_sc p)\<lparr>sc_at := Sc_Page lfd fd pg\<rparr>\<rparr>"

lemma at_page_step:
  assumes "page_step clk on_huge False (p_engine p) pg = Inr pg'" "\<And>body. pg \<noteq> Pg_Text body"
  shows "process_step c clk period on_huge sock (at_page p lfd fd pg) (at_page p lfd fd pg')"
proof -
  let ?p = "at_page p lfd fd pg"
  have "scrape_run (g_running (p_engine ?p)) clk on_huge False (p_engine ?p) (0, False, False) 0 [] (p_sc ?p) =
      Inr ((p_sc p)\<lparr>sc_at := Sc_Page lfd fd pg'\<rparr>)"
    using assms by (cases pg) (auto simp: at_page_def scrape_run_def)
  moreover have "sc_kernel sock (0, False, False) 0 [] (p_sc ?p)"
    using assms(2) by (cases pg) (auto simp: at_page_def sc_kernel_def)
  ultimately have "process_step c clk period on_huge sock ?p (?p\<lparr>p_sc := (p_sc p)\<lparr>sc_at := Sc_Page lfd fd pg'\<rparr>\<rparr>)"
    by (rule pr_scrape)
  then show ?thesis by (simp add: at_page_def)
qed

lemma snapshot_copy:
  "hist_snapshot \<lparr>buckets = buckets h, count = n, sum_ns = sum_ns h, max_ns = max_ns h\<rparr> = hist_snapshot h"
  "sum_list (buckets h) = 0 \<Longrightarrow> hist_snapshot \<lparr>buckets = buckets h, count = n, sum_ns = sm, max_ns = max_ns h\<rparr> = hist_snapshot h"
  by (simp_all add: hist_snapshot_def Let_def)

lemma loads:
  assumes len: "length (buckets h) = kBuckets"
    and W: "\<And>sp. (\<forall>r. sp \<noteq> Snap_Done r) \<Longrightarrow> R (W sp) (W (snap_load h sp))"
  shows "R\<^sup>*\<^sup>* (W (Snap_Read [])) (W (Snap_Done (hist_snapshot h)))"
proof -
  have "k \<le> kBuckets \<Longrightarrow> R\<^sup>*\<^sup>* (W (Snap_Read [])) (W (Snap_Read (take k (buckets h))))" for k
  proof (induction k)
    case (Suc k)
    then have "R (W (Snap_Read (take k (buckets h)))) (W (Snap_Read (take (Suc k) (buckets h))))"
      using W [of "Snap_Read (take k (buckets h))"] len by (simp add: take_Suc_conv_app_nth)
    then show ?case using Suc by simp
  qed simp
  then have r: "R\<^sup>*\<^sup>* (W (Snap_Read [])) (W (Snap_Read (buckets h)))" using len by (metis le_refl take_all)
  have a: "R (W (Snap_Read (buckets h))) (W (snap_load h (Snap_Read (buckets h))))" by (rule W) simp
  show ?thesis
  proof (cases "sum_list (buckets h) = 0")
    case True
    then have "snap_load h (Snap_Read (buckets h)) = Snap_Done (hist_snapshot h)" using len by (simp add: snapshot_copy)
    then show ?thesis using r a by simp
  next
    case False
    then have "snap_load h (Snap_Read (buckets h)) = Snap_Mean (buckets h) (max_ns h)" using len by simp
    moreover have "R (W (Snap_Mean (buckets h) (max_ns h))) (W (Snap_Done (hist_snapshot h)))"
      using W [of "Snap_Mean (buckets h) (max_ns h)"] by (simp add: snapshot_copy)
    ultimately show ?thesis using r a by simp
  qed
qed

lemma whole_page:
  assumes "length (buckets (t2t (p_engine p))) = kBuckets" "length (buckets (rtt (p_engine p))) = kBuckets"
    and "mx_page clk on_huge (p_engine p) = Inr body"
  shows "(process_step c clk period on_huge sock)\<^sup>*\<^sup>* (at_page p lfd fd (Pg_T2t (Snap_Read []))) (at_page p lfd fd (Pg_Text body))"
proof -
  let ?R = "process_step c clk period on_huge sock" and ?e = "p_engine p"
  obtain s1 s2 where s: "hist_snapshot (t2t ?e) = Inr s1" "hist_snapshot (rtt ?e) = Inr s2"
    "page_text s1 s2 (orders ?e) (fills ?e) clk on_huge = Inr body"
    using assms(3) by (auto simp: mx_page_def build_metrics_def cpp_bind_eq_Inr_iff)
  have 1: "?R\<^sup>*\<^sup>* (at_page p lfd fd (Pg_T2t (Snap_Read []))) (at_page p lfd fd (Pg_T2t (Snap_Done (hist_snapshot (t2t ?e)))))"
    by (rule loads [OF assms(1), where W = "\<lambda>sp. at_page p lfd fd (Pg_T2t sp)"], rule at_page_step) (auto split: snap_pc.splits)
  have 2: "?R (at_page p lfd fd (Pg_T2t (Snap_Done (hist_snapshot (t2t ?e))))) (at_page p lfd fd (Pg_Rtt s1 (Snap_Read [])))"
    by (rule at_page_step) (simp_all add: s)
  have 3: "?R\<^sup>*\<^sup>* (at_page p lfd fd (Pg_Rtt s1 (Snap_Read []))) (at_page p lfd fd (Pg_Rtt s1 (Snap_Done (hist_snapshot (rtt ?e)))))"
    by (rule loads [OF assms(2), where W = "\<lambda>sp. at_page p lfd fd (Pg_Rtt s1 sp)"], rule at_page_step) (auto split: snap_pc.splits)
  have 4: "?R (at_page p lfd fd (Pg_Rtt s1 (Snap_Done (hist_snapshot (rtt ?e))))) (at_page p lfd fd (Pg_Counts s1 s2 None None))"
    by (rule at_page_step) (simp_all add: s)
  have 5: "?R (at_page p lfd fd (Pg_Counts s1 s2 None None)) (at_page p lfd fd (Pg_Counts s1 s2 (Some (orders ?e)) None))"
    by (rule at_page_step) simp_all
  have 6: "?R (at_page p lfd fd (Pg_Counts s1 s2 (Some (orders ?e)) None)) (at_page p lfd fd (Pg_Counts s1 s2 (Some (orders ?e)) (Some (fills ?e))))"
    by (rule at_page_step) simp_all
  have 7: "?R (at_page p lfd fd (Pg_Counts s1 s2 (Some (orders ?e)) (Some (fills ?e)))) (at_page p lfd fd (Pg_Text body))"
    by (rule at_page_step) (simp_all add: s)
  from 1 2 3 4 5 6 7 show ?thesis by (meson rtranclp.rtrancl_into_rtrancl rtranclp_trans)
qed

fun sc_of :: "mx_pc \<Rightarrow> sc_pc" where
  "sc_of Mx_Start = Sc_Start"
| "sc_of (Mx_Loop lfd) = Sc_Loop lfd"
| "sc_of (Mx_Accept lfd) = Sc_Accept lfd"
| "sc_of Mx_Done = Sc_Done"

text \<open>The state of \<open>Startup\<close> that a state of the process is between two clients.\<close>

definition shows_system :: "system \<Rightarrow> process \<Rightarrow> bool" where
  "shows_system s p \<longleftrightarrow> p_engine p = s_engine s \<and> sc_at (p_sc p) = sc_of (mx_at (s_mx s)) \<and>
     sc_calls (p_sc p) = mx_calls (s_mx s) \<and> map fst (sc_sent (p_sc p)) = mx_sent (s_mx s)"

lemma serve_client:
  assumes sh: "shows_system s p" and at: "mx_at (s_mx s) = Mx_Accept lfd" and fd: "0 \<le> afd" "fresh_fd sock afd (s_mx s)"
    and len: "length (buckets (t2t (s_engine s))) = kBuckets" "length (buckets (rtt (s_engine s))) = kBuckets"
    and body: "mx_page clk on_huge (s_engine s) = Inr body" "fst (send_all rs (http_response body)) \<noteq> None"
  defines "m' \<equiv> (p_sc p)\<lparr>sc_at := Sc_Loop lfd, sc_calls := sc_calls (p_sc p) @ [CAccept lfd afd, CClose afd],
     sc_sent := sc_sent (p_sc p) @ [(snd (send_all rs (http_response body)), fst (send_all rs (http_response body)) = Some True)]\<rparr>"
  shows "(process_step c clk period on_huge sock)\<^sup>*\<^sup>* p (p\<lparr>p_sc := m'\<rparr>)"
proof -
  let ?R = "process_step c clk period on_huge sock"
  let ?m1 = "(p_sc p)\<lparr>sc_at := Sc_Request lfd afd, sc_calls := sc_calls (p_sc p) @ [CAccept lfd afd]\<rparr>"
  let ?p1 = "p\<lparr>p_sc := ?m1\<rparr>"
  have e: "p_engine p = s_engine s" "sc_at (p_sc p) = Sc_Accept lfd" "sc_calls (p_sc p) = mx_calls (s_mx s)"
    using sh at by (simp_all add: shows_system_def)
  have 1: "?R p ?p1"
    by (rule pr_scrape [where lis = "(0, False, False)" and afd = afd and rs = rs and fills_first = False])
      (use fd e in \<open>simp_all add: scrape_run_def sc_kernel_def fresh_fd_def\<close>)
  have "?R ?p1 (?p1\<lparr>p_sc := ?m1\<lparr>sc_at := Sc_Page lfd afd (Pg_T2t (Snap_Read []))\<rparr>\<rparr>)"
    by (rule pr_scrape [where lis = "(0, False, False)" and afd = 0 and rs = rs and fills_first = False])
      (simp_all add: scrape_run_def sc_kernel_def)
  then have 2: "?R ?p1 (at_page ?p1 lfd afd (Pg_T2t (Snap_Read [])))" by (simp add: at_page_def)
  have 3: "?R\<^sup>*\<^sup>* (at_page ?p1 lfd afd (Pg_T2t (Snap_Read []))) (at_page ?p1 lfd afd (Pg_Text body))"
    by (rule whole_page) (use len body(1) e in simp_all)
  have "?R (at_page ?p1 lfd afd (Pg_Text body)) ((at_page ?p1 lfd afd (Pg_Text body))\<lparr>p_sc := m'\<rparr>)"
    by (rule pr_scrape [where lis = "(0, False, False)" and afd = 0 and rs = rs and fills_first = False])
      (use body(2) in \<open>simp_all add: scrape_run_def sc_kernel_def at_page_def case_prod_unfold Let_def m'_def\<close>)
  then have 4: "?R (at_page ?p1 lfd afd (Pg_Text body)) (p\<lparr>p_sc := m'\<rparr>)" by (simp add: at_page_def)
  from 1 2 3 4 show ?thesis by (meson converse_rtranclp_into_rtranclp rtranclp.rtrancl_into_rtrancl)
qed

text \<open>
  Every step of \<open>Startup\<close> is a run of the process: what the threads can do there, with a client served at once, they can do here.
\<close>

lemma system_step_runs:
  assumes inv: "system_inv c clk period on_huge sock s" and sh: "shows_system s p" and st: "system_step c clk period on_huge sock s s'"
  shows "\<exists>p'. (process_step c clk period on_huge sock)\<^sup>*\<^sup>* p p' \<and> shows_system s' p'"
  using st
proof (cases rule: system_step.cases)
  case (sys_engine e')
  then have "process_step c clk period on_huge sock p (p\<lparr>p_engine := e'\<rparr>)" using pr_engine [of c clk period p e'] sh by (simp add: shows_system_def)
  moreover have "shows_system s' (p\<lparr>p_engine := e'\<rparr>)" using sh sys_engine(1) by (simp add: shows_system_def)
  ultimately show ?thesis by blast
next
  case (sys_mx lis afd rs m')
  have eng: "engine_inv (s_engine s)" using inv engine_run.reach_inv by (auto simp: system_inv_def)
  then have len: "length (buckets (t2t (s_engine s))) = kBuckets" "length (buckets (rtt (s_engine s))) = kBuckets"
    by (auto simp: engine_inv_def samples_ok_def hist_of_def)
  note P = sh [unfolded shows_system_def]
  show ?thesis
  proof (cases "\<exists>lfd. mx_at (s_mx s) = Mx_Accept lfd \<and> 0 \<le> afd")
    case True
    then obtain lfd where at: "mx_at (s_mx s) = Mx_Accept lfd" "0 \<le> afd" by blast
    obtain body where body: "mx_page clk on_huge (s_engine s) = Inr body" "fst (send_all rs (http_response body)) \<noteq> None"
      "m' = (s_mx s)\<lparr>mx_at := Mx_Loop lfd, mx_calls := mx_calls (s_mx s) @ [CAccept lfd afd, CClose afd],
         mx_sent := mx_sent (s_mx s) @ [snd (send_all rs (http_response body))]\<rparr>"
      using sys_mx(2,5) at by (auto simp: mx_run_def mx_send_returns_def cpp_bind_eq_Inr_iff)
    show ?thesis
      by (rule exI, rule conjI, rule serve_client [OF sh at sys_mx(4) len body(1,2)])
        (use P in \<open>simp add: shows_system_def sys_mx(1) body(3)\<close>)
  next
    case False
    define m where "m = (p_sc p)\<lparr>sc_at := sc_of (mx_at m'), sc_calls := mx_calls m'\<rparr>"
    have "scrape_run (g_running (p_engine p)) clk on_huge False (p_engine p) lis afd rs (p_sc p) = Inr m \<and> mx_sent m' = mx_sent (s_mx s)"
      using sys_mx(2) P False by (cases "mx_at (s_mx s)") (auto simp: m_def mx_run_def scrape_run_def case_prod_unfold Let_def)
    moreover have "sc_kernel sock lis afd rs (p_sc p)"
      using sys_mx(3,4) P by (cases "mx_at (s_mx s)") (auto simp: sc_kernel_def fresh_fd_def)
    ultimately have "process_step c clk period on_huge sock p (p\<lparr>p_sc := m\<rparr>)" "mx_sent m' = mx_sent (s_mx s)"
      by (auto intro: pr_scrape)
    moreover have "shows_system s' (p\<lparr>p_sc := m\<rparr>)" using P calculation(2) by (simp add: shows_system_def sys_mx(1) m_def)
    ultimately show ?thesis by blast
  qed
qed

lemma system_runs:
  assumes "(system_step c clk period on_huge sock)\<^sup>*\<^sup>* s s'" "system_inv c clk period on_huge sock s" "shows_system s p"
  shows "\<exists>p'. (process_step c clk period on_huge sock)\<^sup>*\<^sup>* p p' \<and> shows_system s' p'"
  using assms
proof (induction rule: rtranclp_induct)
  case (step s1 s2)
  then obtain p1 where p1: "(process_step c clk period on_huge sock)\<^sup>*\<^sup>* p p1" "shows_system s1 p1" by blast
  have "system_inv c clk period on_huge sock s1" by (rule system_run.steps_inv [OF step.hyps(1) step.prems(1)])
  then show ?case using system_step_runs [OF _ p1(2) step.hyps(2)] p1(1) by (meson rtranclp_trans)
qed auto

text \<open>A run that serves one client with nothing recorded yet.\<close>

lemma sample_page: "\<exists>body. mx_page \<lparr>ns_per_tick = Dbl 0 0\<rparr> True (engine_new 0 p True) = Inr body"
proof -
  obtain s where "hist_snapshot hist_new = Inr s" using snapshot_hist_new by blast
  then show ?thesis
    using page_text_lines [of "\<lparr>ns_per_tick = Dbl 0 0\<rparr>" 0 0 s s True]
    by (simp add: mx_page_def build_metrics_def engine_new_def ghz_text_def nat_str.simps)
qed

lemma three_steps: "R a b \<Longrightarrow> R b c \<Longrightarrow> R c d \<Longrightarrow> R\<^sup>*\<^sup>* a d"
  by (meson converse_rtranclp_into_rtranclp rtranclp.rtrancl_refl)

lemma run_one_client:
  "\<exists>n f. process_run c \<lparr>ns_per_tick = Dbl 0 0\<rparr> period True 3 n f \<and> sc_at (p_sc (f n)) = Sc_Loop 7 \<and> length (sc_sent (p_sc (f n))) = 1"
proof -
  let ?clk = "\<lparr>ns_per_tick = Dbl 0 0\<rparr>"
  let ?S = "system_step c ?clk period True 3"
  obtain p :: "order_ctx pool" where p: "pool_new pool_size = Inr p"
    using pool_new_ok [of pool_size, where 'a = order_ctx] by (auto simp: pool_size_def)
  let ?e = "engine_new 0 p True"
  obtain body where body: "mx_page ?clk True ?e = Inr body" using sample_page by blast
  have "0 < length (http_response body)" by (simp add: http_response_def)
  then have sd: "fst (send_all [Sent (length (http_response body))] (http_response body)) = Some True"
    using send_loop_returns [of "[Sent (length (http_response body))]" "http_response body" 0] by (simp add: send_all_def accepted_def)
  let ?L = "snd (listen_tcp 7 True True ''127.0.0.1'' kMetricsPort) @ [CSetopt 7 SO_RCVTIMEO 200000]"
  let ?s0 = "\<lparr>s_engine = ?e, s_mx = mx_new\<rparr>"
  let ?m1 = "\<lparr>mx_at = Mx_Loop 7, mx_calls = ?L, mx_sent = []\<rparr>"
  let ?m2 = "\<lparr>mx_at = Mx_Accept 7, mx_calls = ?L, mx_sent = []\<rparr>"
  let ?m3 = "\<lparr>mx_at = Mx_Loop 7, mx_calls = ?L @ [CAccept 7 8, CClose 8], mx_sent = [snd (send_all [Sent (length (http_response body))] (http_response body))]\<rparr>"
  have f: "fresh_fd 3 7 mx_new" "fresh_fd 3 (-1) mx_new" "fresh_fd 3 8 ?m1" "fresh_fd 3 8 ?m2"
    by (simp_all add: fresh_fd_def mx_new_def listen_tcp_def fd_call_def)
  have 1: "?S ?s0 (?s0\<lparr>s_mx := ?m1\<rparr>)"
    by (rule sys_mx [where lis = "(7, True, True)" and afd = "-1" and rs = "[]"])
      (use f in \<open>simp_all add: mx_run_def mx_new_def listen_tcp_def mx_send_returns_def\<close>)
  have "?S (?s0\<lparr>s_mx := ?m1\<rparr>) ((?s0\<lparr>s_mx := ?m1\<rparr>)\<lparr>s_mx := ?m2\<rparr>)"
    by (rule sys_mx [where lis = "(8, True, True)" and afd = 8 and rs = "[]"])
      (use f in \<open>simp_all add: mx_run_def engine_new_def mx_send_returns_def\<close>)
  then have 2: "?S (?s0\<lparr>s_mx := ?m1\<rparr>) (?s0\<lparr>s_mx := ?m2\<rparr>)" by simp
  have "?S (?s0\<lparr>s_mx := ?m2\<rparr>) ((?s0\<lparr>s_mx := ?m2\<rparr>)\<lparr>s_mx := ?m3\<rparr>)"
    by (rule sys_mx [where lis = "(8, True, True)" and afd = 8 and rs = "[Sent (length (http_response body))]"])
      (use f body sd in \<open>simp_all add: mx_run_def mx_send_returns_def\<close>)
  then have 3: "?S (?s0\<lparr>s_mx := ?m2\<rparr>) (?s0\<lparr>s_mx := ?m3\<rparr>)" by simp
  have init: "system_init ?s0" using p by (auto simp: system_init_def engine_init_def)
  have "?S\<^sup>*\<^sup>* ?s0 (?s0\<lparr>s_mx := ?m3\<rparr>)" by (rule three_steps [where R = ?S, OF 1 2 3])
  moreover have "shows_system ?s0 \<lparr>p_engine = ?e, p_sc = scraper_new\<rparr>" by (simp add: shows_system_def mx_new_def scraper_new_def)
  ultimately obtain p' where p': "(process_step c ?clk period True 3)\<^sup>*\<^sup>* \<lparr>p_engine = ?e, p_sc = scraper_new\<rparr> p'"
    "shows_system (?s0\<lparr>s_mx := ?m3\<rparr>) p'" using system_runs [OF _ system_run.inv_init [OF init]] by blast
  obtain n f where f: "f 0 = \<lparr>p_engine = ?e, p_sc = scraper_new\<rparr>" "f n = p'" "\<forall>i < n. process_step c ?clk period True 3 (f i) (f (Suc i))"
    using p'(1) unfolding rtranclp_power relpowp_fun_conv by blast
  have "length (map fst (sc_sent (p_sc p'))) = 1" "sc_at (p_sc p') = Sc_Loop 7" using p'(2) by (simp_all add: shows_system_def)
  then show ?thesis using f init by (intro exI [of _ n] exI [of _ f]) (simp add: process_run_def system_init_def)
qed

section \<open>Properties\<close>

text \<open>
  C20. The metrics thread, one load at a time among the other threads. At every point of every run the descriptors it has open are exactly the
  listening one between clients, this and the client's while it serves one, and none before it listens and after it has
  returned. Each reply it has sent (number \<open>k\<close>) is the response, whole when the send succeeded and a prefix of it otherwise, with a
  page made of values this run had while the thread was building the page for that very client: first each bucket, the
  maximum and the sum of the tick-to-trade histogram, after that those of the round-trip histogram, after that the order and the fill
  counter.
\<close>

theorem metrics_thread_safe:
  assumes "process_run c clk period on_huge sock n f"
  shows "open_fds (sc_calls (p_sc (f n))) {} =
      (case sc_at (p_sc (f n)) of Sc_Start \<Rightarrow> {} | Sc_Loop lfd \<Rightarrow> {lfd} | Sc_Accept lfd \<Rightarrow> {lfd} | Sc_Request lfd fd \<Rightarrow> {lfd, fd}
         | Sc_Page lfd fd pg \<Rightarrow> {lfd, fd} | Sc_Done \<Rightarrow> {}) \<and>
    (\<forall>k < length (sc_sent (p_sc (f n))). \<exists>lo hi body. hi \<le> n \<and> (\<forall>t. lo \<le> t \<and> t < hi \<longrightarrow> serving k (f t)) \<and>
       page_seen clk on_huge (\<lambda>t. p_engine (f t)) lo hi body \<and>
       prefix (fst (sc_sent (p_sc (f n)) ! k)) (http_response body) \<and>
       (snd (sc_sent (p_sc (f n)) ! k) \<longrightarrow> fst (sc_sent (p_sc (f n)) ! k) = http_response body))"
  using scrape_run_inv [OF assms] unfolding scrape_inv_def sc_fds_ok_def sc_open_def reply_ok_def by (auto split: sc_pc.splits)

theorem metrics_thread_safe_witness:
  "\<exists>n f lo hi body. process_run cfg_default \<lparr>ns_per_tick = Dbl 0 0\<rparr> 1000 True 3 n f \<and> open_fds (sc_calls (p_sc (f n))) {} = {7} \<and>
     length (sc_sent (p_sc (f n))) = 1 \<and> hi \<le> n \<and> (\<forall>t. lo \<le> t \<and> t < hi \<longrightarrow> serving 0 (f t)) \<and>
     page_seen \<lparr>ns_per_tick = Dbl 0 0\<rparr> True (\<lambda>t. p_engine (f t)) lo hi body"
proof -
  obtain n f where f: "process_run cfg_default \<lparr>ns_per_tick = Dbl 0 0\<rparr> 1000 True 3 n f" "sc_at (p_sc (f n)) = Sc_Loop 7"
    "length (sc_sent (p_sc (f n))) = 1" using run_one_client by blast
  obtain lo hi body where r: "hi \<le> n" "\<forall>t. lo \<le> t \<and> t < hi \<longrightarrow> serving 0 (f t)"
    "page_seen \<lparr>ns_per_tick = Dbl 0 0\<rparr> True (\<lambda>t. p_engine (f t)) lo hi body"
    using metrics_thread_safe [OF f(1)] f(3) by auto
  have "open_fds (sc_calls (p_sc (f n))) {} = {7}" using metrics_thread_safe [OF f(1)] f(2) by simp
  then show ?thesis using f r by blast
qed

end
