(* ===== verification/Pipe_Spec.thy ===== *)
theory Pipe_Spec
  imports Pipeline
begin

text \<open>
  The abstract specification of the engine: a pipeline of three bounded queues with one tick, order
  or log event moving at a time, and no threads, indices, pool or flag. The running engine of
  \<open>Pipeline\<close> refines it: every step of a thread is one step of the specification or none.
\<close>

section \<open>The specification\<close>

record pipe =
  p_made :: nat
  p_ticks :: "tick list"
  p_hand :: "order option"
  p_dropped :: nat
  p_orders :: "order list"
  p_sent :: "order list"
  p_log :: "log_event list"
  p_written :: "log_event list"

definition p_bound :: nat where
  "p_bound = 4096"

definition pipe_init :: "pipe \<Rightarrow> bool" where
  "pipe_init a \<longleftrightarrow> a = \<lparr>p_made = 0, p_ticks = [], p_hand = None, p_dropped = 0, p_orders = [], p_sent = [], p_log = [], p_written = []\<rparr>"

text \<open>The number of ticks taken from the first queue.\<close>

definition p_taken :: "pipe \<Rightarrow> nat" where
  "p_taken a = p_made a - length (p_ticks a)"

inductive pipe_step :: "pipe \<Rightarrow> pipe \<Rightarrow> bool" where
  pipe_tick: "tick_at (p_made a) t \<Longrightarrow> length (p_ticks a) < p_bound \<Longrightarrow>
    pipe_step a (a\<lparr>p_made := Suc (p_made a), p_ticks := p_ticks a @ [t]\<rparr>)"
| pipe_take: "p_ticks a = t # ts \<Longrightarrow> p_hand a = None \<Longrightarrow> order_for (p_taken a) t od \<Longrightarrow>
    pipe_step a (a\<lparr>p_ticks := ts, p_hand := Some od\<rparr>)"
| pipe_put: "p_hand a = Some od \<Longrightarrow> length (p_orders a) < p_bound \<Longrightarrow>
    pipe_step a (a\<lparr>p_hand := None, p_orders := p_orders a @ [od]\<rparr>)"
| pipe_drop: "p_hand a = Some od \<Longrightarrow> pipe_step a (a\<lparr>p_hand := None, p_dropped := Suc (p_dropped a)\<rparr>)"
| pipe_send: "p_orders a = od # ods \<Longrightarrow> pipe_step a (a\<lparr>p_orders := ods, p_sent := p_sent a @ [od]\<rparr>)"
| pipe_log: "p_sent a \<noteq> [] \<Longrightarrow> event_for (last (p_sent a)) le \<Longrightarrow> length (p_log a) < p_bound \<Longrightarrow>
    pipe_step a (a\<lparr>p_log := p_log a @ [le]\<rparr>)"
| pipe_write: "p_log a = le # les \<Longrightarrow> pipe_step a (a\<lparr>p_log := les, p_written := p_written a @ [le]\<rparr>)"

inductive_cases pipe_stepE: "pipe_step a b"

text \<open>
  What the specification promises: queues within their bounds, and every tick made accounted for
  exactly once.
\<close>

definition pipe_inv :: "pipe \<Rightarrow> bool" where
  "pipe_inv a \<longleftrightarrow> length (p_ticks a) \<le> p_bound \<and> length (p_orders a) \<le> p_bound \<and> length (p_log a) \<le> p_bound \<and>
     p_made a = length (p_ticks a) + (if p_hand a = None then 0 else 1) + p_dropped a + length (p_orders a) + length (p_sent a)"

interpretation pipe_run: inductive_invariant pipe_init pipe_step pipe_inv
proof unfold_locales
  show "pipe_inv a" if "pipe_init a" for a using that by (simp add: pipe_init_def pipe_inv_def)
  show "pipe_inv b" if "pipe_inv a" "pipe_step a b" for a b using that(2,1) by (elim pipe_stepE) (auto simp: pipe_inv_def)
qed

section \<open>The abstraction\<close>

definition hand_of :: "st_pc \<Rightarrow> order option" where
  "hand_of at = (case at of St_Push od ptr \<Rightarrow> Some od | St_Retry od ptr \<Rightarrow> Some od | _ \<Rightarrow> None)"

definition dropped_of :: "nat \<Rightarrow> nat \<Rightarrow> st_pc \<Rightarrow> nat" where
  "dropped_of taken put at = taken - put - (if hand_of at = None then 0 else 1)"

definition pipe_of :: "engine \<Rightarrow> pipe" where
  "pipe_of e = \<lparr>p_made = length (ticks_seen (ticks_popped e) (ring1 e)), p_ticks = ring_list ring_capacity (ring1 e),
     p_hand = hand_of (st_at e),
     p_dropped = dropped_of (length (ticks_popped e)) (length (orders_pushed e)) (st_at e),
     p_orders = ring_list ring_capacity (ring2 e), p_sent = orders_popped e,
     p_log = ring_list ring_capacity (ring3 e), p_written = log_popped e\<rparr>"

lemma pipe_of_taken: "p_taken (pipe_of e) = length (ticks_popped e)"
  by (simp add: p_taken_def pipe_of_def ticks_seen_def)

lemma rings_ok:
  assumes "engine_inv e"
  shows "ring_ok ring_capacity (ring1 e)" "ring_ok ring_capacity (ring2 e)" "ring_ok ring_capacity (ring3 e)"
  using assms by (simp_all add: engine_inv_def md_ok_def gw_ok_def log_ok_def)

lemma push_cases:
  assumes "ring_ok ring_capacity q"
  obtains (pushed) r where "try_push ring_capacity x q = (True, r)" "length (ring_list ring_capacity q) < p_bound"
      "ring_list ring_capacity r = ring_list ring_capacity q @ [x]"
  | (full) r where "try_push ring_capacity x q = (False, r)" "ring_list ring_capacity r = ring_list ring_capacity q"
proof (cases "try_push ring_capacity x q")
  case (Pair ok r)
  then show thesis
    using ringq.push_true_iff [OF assms, of x] ringq.contents_push [OF assms, of x] caps(1) pushed full
    by (cases ok) (simp_all add: p_bound_def)
qed

lemma pop_cases:
  assumes "ring_ok ring_capacity q"
  obtains (empty) r where "try_pop ring_capacity q = (None, r)" "ring_list ring_capacity r = ring_list ring_capacity q"
  | (taken) x r where "try_pop ring_capacity q = (Some x, r)" "ring_list ring_capacity q = x # ring_list ring_capacity r"
proof (cases "try_pop ring_capacity q")
  case (Pair v r)
  then show thesis using ring_pop_none(2) [OF assms] ring_pop_some(2) [OF assms] empty taken by (cases v) auto
qed

section \<open>The steps of the threads\<close>

lemma sim_md:
  assumes inv: "engine_inv e"
  shows "pipe_of (md_run period now t0 e) = pipe_of e \<or> pipe_step (pipe_of e) (pipe_of (md_run period now t0 e))"
proof (cases "md_at e")
  case (Md_Push t)
  show ?thesis
  proof (cases rule: push_cases [OF rings_ok(1) [OF inv], where x = t, consumes 0, case_names pushed full])
    case (pushed r)
    have "tick_at (p_made (pipe_of e)) t" using inv Md_Push by (simp add: pipe_of_def engine_inv_def md_ok_def)
    then have "pipe_step (pipe_of e) ((pipe_of e)\<lparr>p_made := Suc (p_made (pipe_of e)), p_ticks := p_ticks (pipe_of e) @ [t]\<rparr>)"
      by (rule pipe_tick) (use pushed in \<open>simp add: pipe_of_def\<close>)
    moreover have "(pipe_of e)\<lparr>p_made := Suc (p_made (pipe_of e)), p_ticks := p_ticks (pipe_of e) @ [t]\<rparr> =
        pipe_of (md_run period now t0 e)"
      using pushed Md_Push by (simp add: pipe_of_def md_run_def md_advance_def ticks_seen_def del: ring_list_length)
    ultimately show ?thesis by simp
  next
    case (full r)
    then show ?thesis using Md_Push by (simp add: pipe_of_def md_run_def ticks_seen_def del: ring_list_length)
  qed
qed (auto simp: md_run_def md_advance_def pipe_of_def)

lemma sim_st_pop:
  assumes inv: "engine_inv e" and run: "st_run c m e = Inr e'" and at: "st_at e = St_Pop"
  shows "pipe_of e' = pipe_of e \<or> pipe_step (pipe_of e) (pipe_of e')"
proof -
  have len: "length (ticks_popped e) = length (orders_pushed e)" using inv at by (simp add: engine_inv_def st_ok_def)
  show ?thesis
  proof (cases rule: pop_cases [OF rings_ok(1) [OF inv], consumes 0, case_names empty taken])
    case (empty r)
    then show ?thesis using run at
      by (auto simp: st_run_def pipe_of_def hand_of_def dropped_of_def ticks_seen_def simp del: ring_list_length)
  next
    case (taken t r)
    then obtain od ptr p where e': "e' = e\<lparr>ring1 := r, opool := p, st_at := St_Push od ptr, ticks_popped := ticks_popped e @ [t]\<rparr>"
      using run at by (auto simp: st_run_def Let_def cpp_bind_eq_Inr_iff)
    have "order_for (length (ticks_popped e)) t od"
      using st_run_inv [OF inv run] len by (simp add: e' engine_inv_def st_ok_def)
    then have "pipe_step (pipe_of e) ((pipe_of e)\<lparr>p_ticks := ring_list ring_capacity r, p_hand := Some od\<rparr>)"
      using taken(2) at by (intro pipe_take [of _ t]) (simp_all add: pipe_of_taken, simp_all add: pipe_of_def hand_of_def dropped_of_def)
    moreover have "(pipe_of e)\<lparr>p_ticks := ring_list ring_capacity r, p_hand := Some od\<rparr> = pipe_of e'"
      using taken(2) at len by (simp add: e' pipe_of_def hand_of_def dropped_of_def ticks_seen_def del: ring_list_length)
    ultimately show ?thesis by simp
  qed
qed

lemma sim_st_push:
  assumes inv: "engine_inv e" and run: "st_run c m e = Inr e'" and at: "st_at e = St_Push od ptr"
  shows "pipe_of e' = pipe_of e \<or> pipe_step (pipe_of e) (pipe_of e')"
proof -
  have len: "length (ticks_popped e) = Suc (length (orders_pushed e))" using inv at by (simp add: engine_inv_def st_ok_def)
  show ?thesis
  proof (cases rule: push_cases [OF rings_ok(2) [OF inv], where x = od, consumes 0, case_names pushed full])
    case (pushed r)
    then obtain p where e': "e' = e\<lparr>ring2 := r, orders_pushed := orders_pushed e @ [od], opool := p,
        st_clordid := st_clordid e + 1, st_at := St_Loop\<rparr>"
      using run at by (auto simp: st_run_def st_finish_def cpp_bind_eq_Inr_iff)
    have "pipe_step (pipe_of e) ((pipe_of e)\<lparr>p_hand := None, p_orders := p_orders (pipe_of e) @ [od]\<rparr>)"
      by (rule pipe_put) (use pushed at in \<open>simp_all add: pipe_of_def hand_of_def dropped_of_def\<close>)
    moreover have "(pipe_of e)\<lparr>p_hand := None, p_orders := p_orders (pipe_of e) @ [od]\<rparr> = pipe_of e'"
      using pushed at len by (simp add: e' pipe_of_def hand_of_def dropped_of_def)
    ultimately show ?thesis by simp
  next
    case (full r)
    then show ?thesis using run at by (auto simp: st_run_def pipe_of_def hand_of_def dropped_of_def)
  qed
qed

lemma sim_st_retry:
  assumes inv: "engine_inv e" and run: "st_run c m e = Inr e'" and at: "st_at e = St_Retry od ptr"
  shows "pipe_of e' = pipe_of e \<or> pipe_step (pipe_of e) (pipe_of e')"
proof -
  have len: "length (ticks_popped e) = Suc (length (orders_pushed e))" using inv at by (simp add: engine_inv_def st_ok_def)
  show ?thesis
  proof (cases "g_running e")
    case True
    then show ?thesis using run at by (auto simp: st_run_def pipe_of_def hand_of_def dropped_of_def)
  next
    case False
    then obtain p where e': "e' = e\<lparr>opool := p, st_clordid := st_clordid e + 1, st_at := St_Loop\<rparr>"
      using run at by (auto simp: st_run_def st_finish_def cpp_bind_eq_Inr_iff)
    have "pipe_step (pipe_of e) ((pipe_of e)\<lparr>p_hand := None, p_dropped := Suc (p_dropped (pipe_of e))\<rparr>)"
      by (rule pipe_drop [of _ od]) (use at in \<open>simp add: pipe_of_def hand_of_def\<close>)
    moreover have "(pipe_of e)\<lparr>p_hand := None, p_dropped := Suc (p_dropped (pipe_of e))\<rparr> = pipe_of e'"
      using at len by (simp add: e' pipe_of_def hand_of_def dropped_of_def)
    ultimately show ?thesis by simp
  qed
qed

lemma sim_st:
  assumes inv: "engine_inv e" and run: "st_run c m e = Inr e'"
  shows "pipe_of e' = pipe_of e \<or> pipe_step (pipe_of e) (pipe_of e')"
proof (cases "st_at e")
  case St_Loop
  then show ?thesis using run by (cases "g_running e") (auto simp: st_run_def pipe_of_def hand_of_def dropped_of_def)
qed (use sim_st_pop [OF inv run] sim_st_push [OF inv run] sim_st_retry [OF inv run] run in \<open>simp_all add: st_run_def\<close>)

lemma sim_gw_send:
  assumes inv: "engine_inv e" and run: "gw_send clk now rs e = Inr e'"
  shows "pipe_of e' = pipe_of e \<or> pipe_step (pipe_of e) (pipe_of e')"
proof (cases "gw_at e")
  case Gw_Pop
  show ?thesis
  proof (cases rule: pop_cases [OF rings_ok(2) [OF inv], consumes 0, case_names empty taken])
    case (empty r)
    then show ?thesis using run Gw_Pop by (auto simp: gw_send_def pipe_of_def)
  next
    case (taken od r)
    have "pipe_of e' = (pipe_of e)\<lparr>p_orders := ring_list ring_capacity r, p_sent := p_sent (pipe_of e) @ [od]\<rparr>"
      using run Gw_Pop taken by (auto simp: gw_send_def cpp_bind_eq_Inr_iff pipe_of_def)
    moreover have "p_orders (pipe_of e) = od # ring_list ring_capacity r" using taken by (simp add: pipe_of_def)
    ultimately show ?thesis using pipe_send by metis
  qed
qed (use run in \<open>auto simp: gw_send_def pipe_of_def\<close>)

lemma sim_gw_log:
  assumes inv: "engine_inv e"
  shows "pipe_of (gw_log now e) = pipe_of e \<or> pipe_step (pipe_of e) (pipe_of (gw_log now e))"
proof (cases "gw_at e")
  case (Gw_Log cid)
  let ?le = "nos_log now cid"
  have D: "orders_popped e \<noteq> []" "cid = o_clordid (last (orders_popped e))" using inv Gw_Log by (simp_all add: engine_inv_def due_ok_def)
  show ?thesis
  proof (cases rule: push_cases [OF rings_ok(3) [OF inv], where x = ?le, consumes 0, case_names pushed full])
    case (pushed r)
    then have "pipe_of (gw_log now e) = (pipe_of e)\<lparr>p_log := p_log (pipe_of e) @ [?le]\<rparr>"
      using Gw_Log by (simp add: gw_log_def pipe_of_def)
    moreover have "pipe_step (pipe_of e) ((pipe_of e)\<lparr>p_log := p_log (pipe_of e) @ [?le]\<rparr>)"
      by (rule pipe_log) (use D pushed event_nos_log in \<open>simp_all add: pipe_of_def\<close>)
    ultimately show ?thesis by simp
  next
    case (full r)
    then show ?thesis using Gw_Log by (simp add: gw_log_def pipe_of_def)
  qed
qed (simp_all add: gw_log_def)

lemma sim_lg:
  assumes inv: "engine_inv e"
  shows "pipe_of (lg_run e) = pipe_of e \<or> pipe_step (pipe_of e) (pipe_of (lg_run e))"
proof (cases "lg_at e")
  case Lg_Pop
  show ?thesis
  proof (cases rule: pop_cases [OF rings_ok(3) [OF inv], consumes 0, case_names empty taken])
    case (empty r)
    then show ?thesis using Lg_Pop by (simp add: lg_run_def pipe_of_def)
  next
    case (taken le r)
    have "pipe_of (lg_run e) = (pipe_of e)\<lparr>p_log := ring_list ring_capacity r, p_written := p_written (pipe_of e) @ [le]\<rparr>"
      using Lg_Pop taken by (simp add: lg_run_def pipe_of_def)
    moreover have "p_log (pipe_of e) = le # ring_list ring_capacity r" using taken by (simp add: pipe_of_def)
    ultimately show ?thesis using pipe_write by metis
  qed
qed (simp_all add: lg_run_def pipe_of_def)

lemma gw_fills_pipe: "gw_fills clk rx ms e = Inr e' \<Longrightarrow> pipe_of e' = pipe_of e"
proof (induction ms arbitrary: e)
  case (Cons m ms)
  then obtain e1 where e1: "gw_fill clk rx m e = Inr e1" "gw_fills clk rx ms e1 = Inr e'" by (auto simp: cpp_bind_eq_Inr_iff)
  have "pipe_of e1 = pipe_of e" using e1(1) by (auto simp: gw_fill_def Let_def cpp_bind_eq_Inr_iff pipe_of_def split: if_splits)
  then show ?case using Cons.IH [OF e1(2)] by simp
qed simp

lemma sim_gw_recv: "gw_recv clk rx r e = Some (Inr e') \<Longrightarrow> pipe_of e' = pipe_of e"
  by (auto simp: gw_recv_def pipe_of_def split: if_splits recv_res.splits option.splits dest!: gw_fills_pipe)

lemma pipe_of_init: "engine_init e \<Longrightarrow> pipe_init (pipe_of e)"
  by (auto simp: engine_init_def pipe_init_def pipe_of_def engine_new_def hand_of_def dropped_of_def ticks_seen_def ring_new_facts
      simp del: ring_list_length)

lemma sim_thread:
  assumes "engine_inv e" "thread_step c clk period e e'"
  shows "pipe_of e' = pipe_of e \<or> pipe_step (pipe_of e) (pipe_of e')"
  using assms(2)
proof (cases rule: thread_step.cases)
  case step_stop
  then show ?thesis by (simp add: pipe_of_def on_signal_def)
next
  case step_stale
  then show ?thesis by (elim stale_stepE) (auto simp: pipe_of_def hand_of_def dropped_of_def)
qed (use sim_md [OF assms(1)] sim_st [OF assms(1)] sim_gw_send [OF assms(1)] sim_gw_log [OF assms(1)] sim_lg [OF assms(1)] in blast)+

interpretation engine_sim: simulation engine_init "engine_step c clk period" engine_inv pipe_of pipe_init pipe_step
  for c clk period
proof unfold_locales
  show "engine_inv e" if "reach engine_init (engine_step c clk period) e" for e using that by (rule engine_run.reach_inv)
  show "pipe_init (pipe_of e)" if "engine_init e" for e using that by (rule pipe_of_init)
  show "pipe_of e' = pipe_of e \<or> pipe_step (pipe_of e) (pipe_of e')"
    if inv: "engine_inv e" and step: "engine_step c clk period e e'" for e e'
    using step
  proof (cases rule: engine_step.cases)
    case step_thread
    then show ?thesis using sim_thread [OF inv] by blast
  qed (use sim_gw_recv in blast)
qed

section \<open>Properties\<close>

text \<open>
  C3. The engine refines the specification: the initial engine is the empty pipeline, every step of
  a reachable engine is one step of the specification or none, and so every reachable engine is a
  reachable pipeline, in which the queues are within their bounds and every tick made is in the
  first queue, in the strategy's hand, in the second queue, sent, or was dropped at shutdown.
\<close>

theorem engine_refines_pipe:
  assumes "reach engine_init (engine_step c clk period) e"
  shows "reach pipe_init pipe_step (pipe_of e) \<and> pipe_inv (pipe_of e) \<and>
    (\<forall>e'. engine_step c clk period e e' \<longrightarrow> pipe_of e' = pipe_of e \<or> pipe_step (pipe_of e) (pipe_of e'))"
  using engine_sim.reach_abs [OF assms] pipe_run.reach_inv engine_sim.sim_step [OF engine_run.reach_inv [OF assms]] by blast

theorem engine_refines_pipe_witness:
  "\<exists>e. reach engine_init (engine_step cfg_default \<lparr>ns_per_tick = Dbl 1 0\<rparr> 1000) e \<and>
     reach pipe_init pipe_step (pipe_of e) \<and> length (p_sent (pipe_of e)) = 1"
proof -
  obtain e where e: "reach engine_init (engine_step cfg_default \<lparr>ns_per_tick = Dbl 1 0\<rparr> 1000) e"
    "length (orders_popped e) = 1" using run_one_order by blast
  then show ?thesis using engine_refines_pipe [OF e(1)] by (auto simp: pipe_of_def)
qed

end
