(* ===== verification/Stall.thy ===== *)
theory Stall
  imports Shutdown
begin

text \<open>
  Back-pressure in the running engine: the rings bound how far one thread can get ahead of the next, so the whole
  pipeline stops when its last stage does; and what follows when the exchange closes the connection.
\<close>

section \<open>What a step leaves alone\<close>

text \<open>No thread but the gateway returns before the flag is cleared.\<close>

definition alive :: "engine \<Rightarrow> bool" where
  "alive e \<longleftrightarrow> (g_running e \<longrightarrow> md_at e \<noteq> Md_Done \<and> st_at e \<noteq> St_Done \<and> lg_at e \<noteq> Lg_Done \<and> lg_at e \<noteq> Lg_Size)"

text \<open>A gateway that has returned does nothing more, and nobody else touches its part of the state.\<close>

definition gw_part :: "engine \<Rightarrow> gw_pc \<times> order list \<times> u64 \<times> u64 \<times> string" where
  "gw_part e = (gw_at e, orders_popped e, orders e, fills e, wire e)"

text \<open>
  The threads: the connection is only written to, one whole order at a time; the flag is only cleared; the gateway, while the
  flag is set, moves towards its receive call, and stays where it is once it has returned.
\<close>

fun gw_rank :: "gw_pc \<Rightarrow> nat" where
  "gw_rank Gw_Loop = 3"
| "gw_rank Gw_Pop = 2"
| "gw_rank (Gw_Log cid) = 1"
| "gw_rank Gw_Recv = 0"
| "gw_rank Gw_Done = 0"

lemma thread_frame:
  assumes "thread_step c clk period e e'"
  shows "gw_buf e' = gw_buf e \<and> fills e' = fills e \<and> (send_failed e \<longrightarrow> send_failed e') \<and>
    (\<exists>ods. orders_popped e' = orders_popped e @ ods) \<and> (\<exists>x. wire e' = wire e @ x) \<and>
    (g_running e' \<longrightarrow> g_running e) \<and> (gw_at e = Gw_Done \<longrightarrow> gw_at e' = Gw_Done) \<and>
    (g_running e \<longrightarrow> gw_at e' = gw_at e \<or> gw_rank (gw_at e') < gw_rank (gw_at e)) \<and>
    (alive e \<longrightarrow> alive e') \<and> (gw_at e = Gw_Done \<longrightarrow> orders e' = orders e \<and> orders_popped e' = orders_popped e \<and> wire e' = wire e)"
  using assms
proof (cases rule: thread_step.cases)
  case (step_md now t0)
  then show ?thesis by (auto simp: alive_def md_run_def md_advance_def Let_def split: md_pc.splits prod.splits)
next
  case (step_st m)
  then show ?thesis
    by (auto simp: alive_def st_run_def st_finish_def Let_def cpp_bind_eq_Inr_iff split: st_pc.splits prod.splits option.splits if_splits)
next
  case (step_gw_send rs now)
  then show ?thesis
    by (auto simp: alive_def gw_send_def cpp_bind_eq_Inr_iff split: gw_pc.splits prod.splits option.splits)
next
  case (step_gw_log now)
  then show ?thesis by (auto simp: alive_def gw_log_def Let_def split: gw_pc.splits prod.splits)
next
  case step_lg
  then show ?thesis by (auto simp: alive_def lg_run_def split: lg_pc.splits prod.splits option.splits)
next
  case step_stop
  then show ?thesis by (simp add: alive_def on_signal_def)
next
  case step_stale
  then show ?thesis by (elim stale_stepE) (simp_all add: alive_def)
qed

lemma engine_alive:
  assumes "engine_step c clk period e e'"
  shows "(alive e \<longrightarrow> alive e') \<and> (g_running e' \<longrightarrow> g_running e) \<and> (gw_at e = Gw_Done \<longrightarrow> gw_part e' = gw_part e)"
  using assms
proof (cases rule: engine_step.cases)
  case (step_gw_recv rx r)
  then show ?thesis using gw_fills_frame
    by (auto simp: gw_recv_def alive_def gw_part_def split: recv_res.splits option.splits if_splits) fastforce+
qed (use thread_frame in \<open>auto simp: gw_part_def\<close>)

interpretation alive_run: inductive_invariant engine_init "engine_step c clk period" alive for c clk period
proof unfold_locales
  show "alive e" if "engine_init e" for e using that by (auto simp: engine_init_def engine_new_def alive_def)
qed (use engine_alive in blast)

section \<open>Back-pressure\<close>

text \<open>The ticks made so far: those that have entered the first ring and the one the market-data thread is trying to push.\<close>

definition ticks_made :: "engine \<Rightarrow> nat" where
  "ticks_made e = length (ticks_seen (ticks_popped e) (ring1 e)) + (case md_at e of Md_Push t \<Rightarrow> 1 | Md_Retry t \<Rightarrow> 1 | _ \<Rightarrow> 0)"

lemma in_flight_bounded:
  assumes inv: "engine_inv e" and al: "alive e" and run: "g_running e"
  shows "ticks_made e \<le> length (orders_popped e) + (4096 + 4096 + 2)"
proof -
  have ok: "ring_ok ring_capacity (ring1 e)" "ring_ok ring_capacity (ring2 e)" using inv by (simp_all add: engine_inv_def md_ok_def gw_ok_def)
  have "length (ring_list ring_capacity (ring1 e)) \<le> 4096" "length (ring_list ring_capacity (ring2 e)) \<le> 4096"
    using ringq.contents_bound [OF ok(1)] ringq.contents_bound [OF ok(2)] caps(1) by simp_all
  moreover have "length (ticks_popped e) \<le> Suc (length (orders_pushed e))"
    using inv al run by (cases "st_at e") (simp_all add: engine_inv_def st_ok_def alive_def)
  moreover have "length (orders_pushed e) = length (orders_popped e) + length (ring_list ring_capacity (ring2 e))"
    using inv unfolding engine_inv_def gw_ok_def by (metis length_append)
  moreover have "(case md_at e of Md_Push t \<Rightarrow> 1 | Md_Retry t \<Rightarrow> 1 | _ \<Rightarrow> 0) \<le> (1 :: nat)" by (cases "md_at e") simp_all
  moreover have "length (ticks_seen (ticks_popped e) (ring1 e)) = length (ticks_popped e) + length (ring_list ring_capacity (ring1 e))"
    unfolding ticks_seen_def by (rule length_append)
  ultimately show ?thesis unfolding ticks_made_def by linarith
qed

lemma stalled_runs:
  assumes "(engine_step c clk period)\<^sup>*\<^sup>* e e'" "gw_at e = Gw_Done"
  shows "gw_part e' = gw_part e"
  using assms(1)
proof (induction rule: rtranclp_induct)
  case (step e1 e2)
  then show ?case using engine_alive [OF step.hyps(2)] assms(2) by (auto simp: gw_part_def)
qed simp

section \<open>Properties\<close>

text \<open>
  C39. A lost connection stalls the engine without ending it. When the gateway has returned because the exchange closed the
  connection (or \<^verbatim>\<open>recv\<close> failed), then in every state the engine can reach before a signal no further order has been
  sent and no fill counted, fewer than 8195 more ticks than orders have been made, and neither the market-data, the
  strategy nor the logger thread has returned: the process stays up, without reconnecting or exiting.
\<close>

theorem lost_connection_stalls:
  assumes "reach engine_init (engine_step c clk period) e" "gw_at e = Gw_Done"
    and "(engine_step c clk period)\<^sup>*\<^sup>* e e'" "g_running e'"
  shows "gw_at e' = Gw_Done \<and> orders_popped e' = orders_popped e \<and> orders e' = orders e \<and> fills e' = fills e \<and> wire e' = wire e \<and>
    ticks_made e' \<le> length (orders_popped e) + 8194 \<and> md_at e' \<noteq> Md_Done \<and> st_at e' \<noteq> St_Done \<and> lg_at e' \<noteq> Lg_Done"
proof -
  have r: "reach engine_init (engine_step c clk period) e'" by (rule reach_rtranclp [OF assms(3,1)])
  have p: "gw_part e' = gw_part e" by (rule stalled_runs [OF assms(3,2)])
  have "alive e'" by (rule alive_run.reach_inv [OF r])
  then show ?thesis using in_flight_bounded [OF engine_run.reach_inv [OF r] _ assms(4)] p assms(2,4)
    by (simp add: gw_part_def alive_def)
qed

theorem lost_connection_stalls_witness:
  "\<exists>e e'. reach engine_init (engine_step cfg_default \<lparr>ns_per_tick = Dbl 1 0\<rparr> 1000) e \<and> gw_at e = Gw_Done \<and>
     (engine_step cfg_default \<lparr>ns_per_tick = Dbl 1 0\<rparr> 1000)\<^sup>*\<^sup>* e e' \<and> g_running e' \<and> st_at e' = St_Pop \<and>
     length (orders_popped e') = 1 \<and> ticks_made e' \<le> 8195"
proof -
  let ?step = "engine_step cfg_default \<lparr>ns_per_tick = Dbl 1 0\<rparr> 1000"
  obtain e where e: "reach engine_init ?step e" "length (orders_popped e) = 1" "g_running e" "gw_at e = Gw_Log 1" "st_at e = St_Loop"
    using run_one_order [of cfg_default "\<lparr>ns_per_tick = Dbl 1 0\<rparr>" 1000] by blast
  let ?e1 = "gw_log 0 e" and ?r = "\<lambda>_ :: u64. 0 :: u64"
  have f1: "gw_at ?e1 = Gw_Recv" "g_running ?e1" "st_at ?e1 = St_Loop" "orders_popped ?e1 = orders_popped e"
    using e by (simp_all add: gw_log_def case_prod_unfold Let_def)
  let ?e2 = "?e1\<lparr>gw_at := Gw_Done\<rparr>" and ?e3 = "?e1\<lparr>gw_at := Gw_Done, st_at := St_Pop\<rparr>"
  have r1: "reach engine_init ?step ?e1" by (rule reach.reach_step [OF e(1) engine_steps(4)])
  have "?step ?e1 ?e2" by (rule engine_steps(8) [of _ ?r Recv_closed]) (use f1 in \<open>simp add: gw_recv_def\<close>)
  with r1 have r2: "reach engine_init ?step ?e2" by (rule reach.reach_step)
  have st: "?step ?e2 ?e3" by (rule engine_steps(2)) (use f1 in \<open>simp add: st_run_def\<close>)
  have "ticks_made ?e3 \<le> length (orders_popped ?e2) + 8194"
    using lost_connection_stalls [OF r2 _ r_into_rtranclp [of ?step, OF st]] f1 by simp
  then show ?thesis using r2 st f1 e(2) by (intro exI [of _ ?e2] exI [of _ ?e3]) auto
qed

end
