(* ===== verification/Market.thy ===== *)
theory Market
  imports Session Stall
begin

text \<open>
  The two processes connected: the engine's threads and the handler thread of the exchange, after
  the logon, with the two directions of the TCP connection between them. A connection delivers
  what was sent in order and in arbitrary pieces: each receive call gets some of the bytes sent
  and not yet received, at most as many as its buffer holds.
\<close>

section \<open>The exchange's side\<close>

text \<open>One pass of the outer loop of \<^verbatim>\<open>handle\<close>, for the bytes of one \<^verbatim>\<open>recv\<close>.\<close>

definition exch_chunk :: "wall_clock \<Rightarrow> string \<Rightarrow> string \<Rightarrow> u64 \<Rightarrow> (string list \<times> string \<times> u64) cpp option" where
  "exch_chunk clock bytes buf sq =
     Option.bind (framer_drain (framer_append bytes buf)) (\<lambda>(ms, buf1).
     Some (cpp_bind (exch_replies clock ms sq) (\<lambda>(out, sq1). Inr (out, buf1, sq1))))"

lemma exch_loop_chunks:
  "exch_loop clock (c # cs) buf sq =
     Option.bind (exch_chunk clock c buf sq) (\<lambda>r. case r of Inl e \<Rightarrow> Some (Inl e) | Inr (out1, buf1, sq1) \<Rightarrow>
     Option.bind (exch_loop clock cs buf1 sq1) (\<lambda>r2. Some (cpp_bind r2 (\<lambda>(out2, buf2, sq2). Inr (out1 @ out2, buf2, sq2)))))"
proof (cases "framer_drain (framer_append c buf)")
  case (Some p)
  obtain ms b where "p = (ms, b)" by (cases p)
  then show ?thesis using Some by (cases "exch_replies clock ms sq") (simp_all add: exch_chunk_def case_prod_unfold)
qed (simp add: exch_chunk_def)

section \<open>The system\<close>

text \<open>
  \<open>mk_read\<close> and \<open>mk_got\<close> count the bytes received so far by exchange and gateway, \<open>mk_replies\<close> are the messages
  the exchange has sent since the logon.
\<close>

record market =
  mk_engine :: engine
  mk_read :: nat
  mk_xbuf :: string
  mk_seq :: u64
  mk_replies :: "string list"
  mk_got :: nat

definition market_start :: "engine \<Rightarrow> market" where
  "market_start e = \<lparr>mk_engine = e, mk_read = 0, mk_xbuf = [], mk_seq = 2, mk_replies = [], mk_got = 0\<rparr>"

definition market_init :: "market \<Rightarrow> bool" where
  "market_init s \<longleftrightarrow> (\<exists>e. engine_init e \<and> s = market_start e)"

text \<open>The sizes of the receive buffers of \<^verbatim>\<open>handle\<close> and \<^verbatim>\<open>run_gateway\<close>.\<close>

definition exch_rbuf :: nat where "exch_rbuf = 4096"
definition gw_rbuf :: nat where "gw_rbuf = 8192"

definition arrives :: "nat \<Rightarrow> string \<Rightarrow> nat \<Rightarrow> string \<Rightarrow> bool" where
  "arrives cap bytes n stream \<longleftrightarrow> bytes \<noteq> [] \<and> length bytes \<le> cap \<and> prefix bytes (drop n stream)"

inductive market_step :: "cfg \<Rightarrow> tsc_clock \<Rightarrow> u64 \<Rightarrow> wall_clock \<Rightarrow> market \<Rightarrow> market \<Rightarrow> bool"
  for c clk period clock where
  mk_thread: "thread_step c clk period (mk_engine s) e' \<Longrightarrow> market_step c clk period clock s (s\<lparr>mk_engine := e'\<rparr>)"
| mk_nothing: "r \<in> {Recv_again, Recv_closed, Recv_error} \<Longrightarrow> gw_recv clk rx r (mk_engine s) = Some (Inr e') \<Longrightarrow>
    market_step c clk period clock s (s\<lparr>mk_engine := e'\<rparr>)"
| mk_recv: "gw_at (mk_engine s) = Gw_Recv \<Longrightarrow> arrives gw_rbuf bytes (mk_got s) (concat (mk_replies s)) \<Longrightarrow>
    gw_recv clk rx (Recv bytes) (mk_engine s) = Some (Inr e') \<Longrightarrow>
    market_step c clk period clock s (s\<lparr>mk_engine := e', mk_got := mk_got s + length bytes\<rparr>)"
| mk_exch: "arrives exch_rbuf bytes (mk_read s) (wire (mk_engine s)) \<Longrightarrow>
    exch_chunk clock bytes (mk_xbuf s) (mk_seq s) = Some (Inr (out, buf, sq)) \<Longrightarrow>
    market_step c clk period clock s (s\<lparr>mk_read := mk_read s + length bytes, mk_xbuf := buf, mk_seq := sq,
      mk_replies := mk_replies s @ out\<rparr>)"

inductive_cases market_stepE: "market_step c clk period clock s s'"

section \<open>Streams\<close>

text \<open>
  A receiver of the stream of frames \<open>fs\<close> that has taken \<open>n\<close> bytes and handled the first \<open>k\<close> frames: its
  buffer is the beginning of the next one.
\<close>

definition receiving :: "string list \<Rightarrow> nat \<Rightarrow> string \<Rightarrow> nat \<Rightarrow> bool" where
  "receiving fs n buf k \<longleftrightarrow> k \<le> length fs \<and> n \<le> length (concat fs) \<and>
     buf @ drop n (concat fs) = concat (drop k fs) \<and> undelivered buf (drop k fs)"

lemma receiving_start: "list_all is_frame fs \<Longrightarrow> receiving fs 0 [] 0"
  by (auto simp: receiving_def undelivered_def is_frame_def split: list.splits)

lemma receiving_append:
  assumes "receiving fs n buf k" "list_all is_frame gs"
  shows "receiving (fs @ gs) n buf k"
proof -
  have "undelivered buf (drop k fs @ gs)"
    using assms by (cases "drop k fs") (auto simp: receiving_def undelivered_def is_frame_def split: list.splits)
  then show ?thesis using assms(1) by (auto simp: receiving_def)
qed

lemma receiving_chunk:
  assumes r: "receiving fs n buf k" and fs: "list_all is_frame fs" and p: "prefix bytes (drop n (concat fs))"
  obtains j buf' where "k + j \<le> length fs" "framer_drain (framer_append bytes buf) = Some (take j (drop k fs), buf')"
    "receiving fs (n + length bytes) buf' (k + j)"
proof -
  from p obtain x where x: "drop n (concat fs) = bytes @ x" by (auto simp: prefix_def)
  have b: "(buf @ bytes) @ x = concat (drop k fs)" using r x by (simp add: receiving_def)
  have fr: "list_all is_frame (drop k fs)" using fs by (auto simp: list_all_iff dest: in_set_dropD)
  from framer_drain_stream [OF fr b] obtain ms1 ms2 q where
    m: "drop k fs = ms1 @ ms2" "framer_drain (buf @ bytes) = Some (ms1, q)" "q @ x = concat ms2" "undelivered q ms2" by blast
  have len: "n + length bytes \<le> length (concat fs)" "drop (n + length bytes) (concat fs) = x" "k + length ms1 \<le> length fs"
  proof -
    have "drop (length bytes) (drop n (concat fs)) = x" using x by simp
    then show "drop (n + length bytes) (concat fs) = x" by (simp add: add.commute)
    have "length (concat fs) - n = length bytes + length x" using arg_cong [OF x, of length] by simp
    moreover have "n \<le> length (concat fs)" using r by (simp add: receiving_def)
    ultimately show "n + length bytes \<le> length (concat fs)" by linarith
    have "length fs - k = length ms1 + length ms2" using arg_cong [OF m(1), of length] by simp
    moreover have "k \<le> length fs" using r by (simp add: receiving_def)
    ultimately show "k + length ms1 \<le> length fs" by linarith
  qed
  have "drop (k + length ms1) fs = drop (length ms1) (drop k fs)" by (simp add: add.commute)
  then have ms2: "drop (k + length ms1) fs = ms2" by (simp add: m(1))
  show thesis
  proof (rule that [of "length ms1" q])
    show "framer_drain (framer_append bytes buf) = Some (take (length ms1) (drop k fs), q)"
      using m(1,2) by (simp add: framer_append_def)
    show "receiving fs (n + length bytes) q (k + length ms1)"
      using len ms2 m(3,4) by (simp add: receiving_def)
  qed (rule len(3))
qed

text \<open>A receiver that has taken the whole stream has handled all of it.\<close>

lemma receiving_all: "receiving fs (length (concat fs)) buf k \<Longrightarrow> list_all is_frame fs \<Longrightarrow> buf = [] \<and> k = length fs"
proof -
  assume r: "receiving fs (length (concat fs)) buf k" and fs: "list_all is_frame fs"
  then have b: "buf = concat (drop k fs)" "undelivered buf (drop k fs)" "k \<le> length fs" by (auto simp: receiving_def)
  then have "drop k fs = []" by (cases "drop k fs") (auto simp: undelivered_def)
  then show ?thesis using b by simp
qed

section \<open>Orders and their replies\<close>

definition frames_of :: "engine \<Rightarrow> string list" where
  "frames_of e = map o_fix (orders_popped e)"

text \<open>\<open>rs\<close> are the answers to the first messages of \<open>fs\<close>, numbered from 2.\<close>

definition answers :: "wall_clock \<Rightarrow> string list \<Rightarrow> string list \<Rightarrow> bool" where
  "answers clock fs rs \<longleftrightarrow> length rs \<le> length fs \<and>
     (\<forall>i < length rs. exch_reply clock (fs ! i) (of_nat (i + 2)) = Inr ([rs ! i], of_nat (i + 3)))"

lemma order_frame: "engine_inv e \<Longrightarrow> list_all is_frame (frames_of e)"
proof -
  assume inv: "engine_inv e"
  have "is_frame (frames_of e ! k)" if "k < length (frames_of e)" for k
  proof -
    have k: "k < length (orders_popped e)" using that by (simp add: frames_of_def)
    note P = popped_order [OF inv k]
    let ?t = "ticks_popped e ! k" and ?od = "orders_popped e ! k"
    have "is_frame (o_fix ?od)" by (rule order_is_frame [OF P(2,3)])
    then show ?thesis using k by (simp add: frames_of_def)
  qed
  then show ?thesis by (simp add: list_all_length)
qed

text \<open>What is known of the answer to an order.\<close>

lemma answer_facts:
  assumes "clock_ok clock" "engine_inv e" "answers clock (frames_of e) rs" "i < length rs"
  shows "is_frame (rs ! i)" "view_get (rs ! i) 35 = ''8''"
    "of_int (view_get_int (rs ! i) 11 0) = o_clordid (orders_popped e ! i)" "o_clordid (orders_popped e ! i) = of_nat (Suc i)"
proof -
  have i: "i < length (orders_popped e)" using assms(3,4) by (simp add: answers_def frames_of_def)
  note P = popped_order [OF assms(2) i]
  obtain r where r: "exch_reply clock (o_fix (orders_popped e ! i)) (of_nat (i + 2)) = Inr ([r], of_nat (i + 2) + 1)"
    "is_frame r" "view_get r 35 = ''8''" "view_get_int r 11 0 = sint (o_clordid (orders_popped e ! i))"
    using order_answered [OF assms(1) P(2,3)] by blast
  have "r = rs ! i" using r(1) assms(3,4) i by (auto simp: answers_def frames_of_def)
  then show "is_frame (rs ! i)" "view_get (rs ! i) 35 = ''8''"
    "of_int (view_get_int (rs ! i) 11 0) = o_clordid (orders_popped e ! i)" using r by simp_all
  show "o_clordid (orders_popped e ! i) = of_nat (Suc i)" by (rule order_for_facts(1) [OF P(3)])
qed

lemma answers_frames:
  "clock_ok clock \<Longrightarrow> engine_inv e \<Longrightarrow> answers clock (frames_of e) rs \<Longrightarrow> list_all is_frame rs"
  using answer_facts(1) by (simp add: list_all_length)

lemma answers_more:
  assumes c: "clock_ok clock" and inv: "engine_inv e" and a: "answers clock (frames_of e) rs"
    and j: "length rs + j \<le> length (frames_of e)"
  shows "\<exists>out. exch_replies clock (take j (drop (length rs) (frames_of e))) (of_nat (length rs + 2)) =
      Inr (out, of_nat (length (rs @ out) + 2)) \<and> length out = j \<and> answers clock (frames_of e) (rs @ out)"
  using j
proof (induction j)
  case 0
  then show ?case using a by simp
next
  case (Suc j)
  let ?fs = "frames_of e" and ?n = "length rs"
  from Suc obtain out where out: "exch_replies clock (take j (drop ?n ?fs)) (of_nat (?n + 2)) = Inr (out, of_nat (length (rs @ out) + 2))"
    "length out = j" "answers clock ?fs (rs @ out)" by auto
  have lt: "?n + j < length (orders_popped e)" using Suc.prems by (simp add: frames_of_def)
  note P = popped_order [OF inv lt]
  obtain r where r: "exch_reply clock (?fs ! (?n + j)) (of_nat (?n + j + 2)) = Inr ([r], of_nat (?n + j + 3))"
    using order_answered [OF c P(2,3), of "of_nat (?n + j + 2)"] lt by (auto simp: frames_of_def)
  have t: "take (Suc j) (drop ?n ?fs) = take j (drop ?n ?fs) @ [?fs ! (?n + j)]"
    using Suc.prems by (simp add: take_Suc_conv_app_nth)
  have "exch_replies clock (take (Suc j) (drop ?n ?fs)) (of_nat (?n + 2)) = Inr (out @ [r], of_nat (length (rs @ out @ [r]) + 2))"
    unfolding t exch_replies_append using out(1,2) r by (simp add: add.assoc)
  moreover have "answers clock ?fs (rs @ out @ [r])"
    unfolding answers_def
  proof (intro conjI allI impI)
    show "length (rs @ out @ [r]) \<le> length ?fs" using out(2) Suc.prems by simp
    fix i
    assume i: "i < length (rs @ out @ [r])"
    show "exch_reply clock (?fs ! i) (of_nat (i + 2)) = Inr ([(rs @ out @ [r]) ! i], of_nat (i + 3))"
    proof (cases "i < length (rs @ out)")
      case True
      then have "(rs @ out @ [r]) ! i = (rs @ out) ! i" using nth_append [of "rs @ out" "[r]" i] by simp
      then show ?thesis using out(3) True by (simp add: answers_def)
    next
      case False
      then have "i = ?n + j" using i out(2) by simp
      then show ?thesis using r out(2) by (simp add: nth_append)
    qed
  qed
  ultimately show ?case using out(2) by (intro exI [of _ "out @ [r]"]) simp
qed

lemma answers_append: "answers clock fs rs \<Longrightarrow> answers clock (fs @ gs) rs"
  by (auto simp: answers_def nth_append)

section \<open>The invariant\<close>

definition market_inv :: "wall_clock \<Rightarrow> market \<Rightarrow> bool" where
  "market_inv clock s \<longleftrightarrow> engine_inv (mk_engine s) \<and>
     (\<not> send_failed (mk_engine s) \<longrightarrow>
        answers clock (frames_of (mk_engine s)) (mk_replies s) \<and>
        receiving (frames_of (mk_engine s)) (mk_read s) (mk_xbuf s) (length (mk_replies s)) \<and>
        mk_seq s = of_nat (length (mk_replies s) + 2) \<and>
        (\<exists>m. fills (mk_engine s) = of_nat m \<and> receiving (mk_replies s) (mk_got s) (gw_buf (mk_engine s)) m))"

lemma wire_frames: "engine_inv e \<Longrightarrow> \<not> send_failed e \<Longrightarrow> wire e = concat (frames_of e)"
  by (simp add: engine_inv_def gw_ok_def frames_of_def)

lemma thread_keeps:
  assumes inv: "market_inv clock s" and step: "thread_step c clk period (mk_engine s) e'"
  shows "market_inv clock (s\<lparr>mk_engine := e'\<rparr>)"
proof -
  let ?e = "mk_engine s"
  have e: "engine_inv ?e" "engine_inv e'" using inv thread_run.inv_step [OF _ step] by (auto simp: market_inv_def)
  note F = thread_frame [OF step]
  show ?thesis
  proof (cases "send_failed e'")
    case False
    then have nf: "\<not> send_failed ?e" using F by blast
    obtain ods where "orders_popped e' = orders_popped ?e @ ods" using F by blast
    then have fr: "frames_of e' = frames_of ?e @ map o_fix ods" by (simp add: frames_of_def)
    moreover have "list_all is_frame (map o_fix ods)" using order_frame [OF e(2)] fr by simp
    ultimately show ?thesis
      using inv nf e(2) F by (auto simp: market_inv_def intro: answers_append receiving_append)
  qed (simp add: market_inv_def e(2))
qed

text \<open>The exchange: whatever piece of the stream arrives is handled.\<close>

lemma exch_handles:
  assumes c: "clock_ok clock" and inv: "market_inv clock s" and nf: "\<not> send_failed (mk_engine s)"
    and p: "prefix bytes (drop (mk_read s) (wire (mk_engine s)))"
  shows "\<exists>out buf. exch_chunk clock bytes (mk_xbuf s) (mk_seq s) = Some (Inr (out, buf, of_nat (length (mk_replies s @ out) + 2))) \<and>
    answers clock (frames_of (mk_engine s)) (mk_replies s @ out) \<and>
    receiving (frames_of (mk_engine s)) (mk_read s + length bytes) buf (length (mk_replies s @ out))"
proof -
  let ?e = "mk_engine s" and ?rs = "mk_replies s"
  have I: "engine_inv ?e" "answers clock (frames_of ?e) ?rs" "receiving (frames_of ?e) (mk_read s) (mk_xbuf s) (length ?rs)"
    "mk_seq s = of_nat (length ?rs + 2)" using inv nf by (auto simp: market_inv_def)
  note fr = order_frame [OF I(1)]
  obtain j buf where j: "length ?rs + j \<le> length (frames_of ?e)"
    "framer_drain (framer_append bytes (mk_xbuf s)) = Some (take j (drop (length ?rs) (frames_of ?e)), buf)"
    "receiving (frames_of ?e) (mk_read s + length bytes) buf (length ?rs + j)"
    using receiving_chunk [OF I(3) fr] p wire_frames [OF I(1) nf] by auto
  obtain out where out: "exch_replies clock (take j (drop (length ?rs) (frames_of ?e))) (of_nat (length ?rs + 2)) =
      Inr (out, of_nat (length (?rs @ out) + 2))" "length out = j" "answers clock (frames_of ?e) (?rs @ out)"
    using answers_more [OF c I(1,2) j(1)] by blast
  then show ?thesis using j(2,3) I(4) by (intro exI [of _ out] exI [of _ buf]) (simp add: exch_chunk_def)
qed

lemma exch_keeps:
  assumes c: "clock_ok clock" and inv: "market_inv clock s" and a: "arrives n bytes (mk_read s) (wire (mk_engine s))"
    and run: "exch_chunk clock bytes (mk_xbuf s) (mk_seq s) = Some (Inr (out, buf, sq))"
  shows "market_inv clock (s\<lparr>mk_read := mk_read s + length bytes, mk_xbuf := buf, mk_seq := sq, mk_replies := mk_replies s @ out\<rparr>)"
proof (cases "send_failed (mk_engine s)")
  case False
  have p: "prefix bytes (drop (mk_read s) (wire (mk_engine s)))" using a by (simp add: arrives_def)
  have h: "answers clock (frames_of (mk_engine s)) (mk_replies s @ out)"
    "receiving (frames_of (mk_engine s)) (mk_read s + length bytes) buf (length (mk_replies s @ out))"
    "sq = of_nat (length (mk_replies s @ out) + 2)" using exch_handles [OF c inv False p] run by auto
  have e: "engine_inv (mk_engine s)" using inv by (simp add: market_inv_def)
  have "list_all is_frame out" using answers_frames [OF c e h(1)] by simp
  then show ?thesis using inv False h by (auto simp: market_inv_def intro: receiving_append)
qed (use inv in \<open>simp add: market_inv_def\<close>)

text \<open>The gateway: every complete reply is one fill.\<close>

lemma gw_fills_count:
  "list_all (\<lambda>m. view_get m 35 = ''8'') ms \<Longrightarrow> gw_fills clk rx ms e = Inr e' \<Longrightarrow> fills e' = fills e + of_nat (length ms)"
proof (induction ms arbitrary: e)
  case (Cons m ms)
  then obtain e1 where e1: "gw_fill clk rx m e = Inr e1" "gw_fills clk rx ms e1 = Inr e'" by (auto simp: cpp_bind_eq_Inr_iff)
  have "fills e1 = fills e + 1" using e1(1) Cons.prems(1) by (auto simp: gw_fill_def Let_def cpp_bind_eq_Inr_iff)
  then show ?case using Cons.IH [OF _ e1(2)] Cons.prems(1) by simp
qed simp

lemma recv_takes:
  assumes c: "clock_ok clock" and inv: "market_inv clock s" and nf: "\<not> send_failed (mk_engine s)"
    and p: "prefix bytes (drop (mk_got s) (concat (mk_replies s)))"
  obtains m j buf where "fills (mk_engine s) = of_nat m" "m + j \<le> length (mk_replies s)"
    "framer_drain (framer_append bytes (gw_buf (mk_engine s))) = Some (take j (drop m (mk_replies s)), buf)"
    "receiving (mk_replies s) (mk_got s + length bytes) buf (m + j)"
    "list_all (\<lambda>m. view_get m 35 = ''8'') (take j (drop m (mk_replies s)))"
proof -
  let ?e = "mk_engine s" and ?rs = "mk_replies s"
  obtain m where I: "engine_inv ?e" "answers clock (frames_of ?e) ?rs" "fills ?e = of_nat m"
    "receiving ?rs (mk_got s) (gw_buf ?e) m" using inv nf by (auto simp: market_inv_def)
  obtain j buf where j: "m + j \<le> length ?rs" "framer_drain (framer_append bytes (gw_buf ?e)) = Some (take j (drop m ?rs), buf)"
    "receiving ?rs (mk_got s + length bytes) buf (m + j)"
    using receiving_chunk [OF I(4) answers_frames [OF c I(1,2)] p] by blast
  moreover have "list_all (\<lambda>m. view_get m 35 = ''8'') ?rs" using answer_facts(2) [OF c I(1,2)] by (simp add: list_all_length)
  then have "list_all (\<lambda>m. view_get m 35 = ''8'') (take j (drop m ?rs))"
    by (auto simp: list_all_iff dest: in_set_takeD in_set_dropD)
  ultimately show thesis using that I(3) by blast
qed

lemma recv_keeps:
  assumes c: "clock_ok clock" and inv: "market_inv clock s" and at: "gw_at (mk_engine s) = Gw_Recv"
    and a: "arrives n bytes (mk_got s) (concat (mk_replies s))" and run: "gw_recv clk rx (Recv bytes) (mk_engine s) = Some (Inr e')"
  shows "market_inv clock (s\<lparr>mk_engine := e', mk_got := mk_got s + length bytes\<rparr>)"
proof -
  let ?e = "mk_engine s"
  have e': "engine_inv e'" using gw_recv_inv [OF _ run] inv by (simp add: market_inv_def)
  obtain ms buf where ms: "framer_drain (framer_append bytes (gw_buf ?e)) = Some (ms, buf)"
    "gw_fills clk rx ms (?e\<lparr>gw_buf := buf, gw_at := Gw_Loop\<rparr>) = Inr e'" using run at by (auto simp: gw_recv_def split: option.splits)
  then obtain h k where f: "e' = ?e\<lparr>gw_buf := buf, gw_at := Gw_Loop, rtt := h, fills := k\<rparr>" using gw_fills_frame by blast
  show ?thesis
  proof (cases "send_failed ?e")
    case False
    have p: "prefix bytes (drop (mk_got s) (concat (mk_replies s)))" using a by (simp add: arrives_def)
    obtain m j where m: "fills ?e = of_nat m" "m + j \<le> length (mk_replies s)" "ms = take j (drop m (mk_replies s))"
      "receiving (mk_replies s) (mk_got s + length bytes) buf (m + j)" "list_all (\<lambda>m. view_get m 35 = ''8'') ms"
      using recv_takes [OF c inv False p] ms(1) by (metis option.inject prod.inject)
    have "length ms = j" using m(2,3) by simp
    then have "fills e' = of_nat (m + j)" using gw_fills_count [OF m(5) ms(2)] m(1) by simp
    moreover have "gw_buf e' = buf" "frames_of e' = frames_of ?e" using f by (simp_all add: frames_of_def)
    ultimately have "\<exists>m. fills e' = of_nat m \<and> receiving (mk_replies s) (mk_got s + length bytes) (gw_buf e') m"
      using m(4) by blast
    then show ?thesis using inv False e' \<open>frames_of e' = frames_of ?e\<close> by (simp add: market_inv_def)
  qed (use e' f in \<open>simp add: market_inv_def\<close>)
qed

lemma nothing_keeps:
  assumes inv: "market_inv clock s" and r: "r \<in> {Recv_again, Recv_closed, Recv_error}"
    and run: "gw_recv clk rx r (mk_engine s) = Some (Inr e')"
  shows "market_inv clock (s\<lparr>mk_engine := e'\<rparr>)"
proof -
  have "engine_inv e'" using gw_recv_inv [OF _ run] inv by (simp add: market_inv_def)
  moreover have "e' = mk_engine s \<or> (\<exists>at. e' = (mk_engine s)\<lparr>gw_at := at\<rparr>)" using r run by (auto simp: gw_recv_def split: if_splits)
  ultimately show ?thesis using inv by (auto simp: market_inv_def frames_of_def)
qed

interpretation market_run: inductive_invariant market_init "market_step c clk period clock" "\<lambda>s. clock_ok clock \<longrightarrow> market_inv clock s"
  for c clk period clock
proof unfold_locales
  show "clock_ok clock \<longrightarrow> market_inv clock s" if start: "market_init s" for s
  proof -
    obtain e where e: "engine_init e" "s = market_start e" using start by (auto simp: market_init_def)
    then have "frames_of e = []" "fills e = 0" "gw_buf e = []" by (auto simp: engine_init_def engine_new_def frames_of_def)
    then show ?thesis using engine_init_inv [OF e(1)] receiving_start [of "[]"]
      by (auto simp: market_inv_def e(2) market_start_def answers_def intro: exI [of _ 0])
  qed
  show "clock_ok clock \<longrightarrow> market_inv clock s'"
    if "clock_ok clock \<longrightarrow> market_inv clock s" "market_step c clk period clock s s'" for s s'
    using that(2,1)
    by (cases rule: market_step.cases) (auto intro: thread_keeps nothing_keeps recv_keeps exch_keeps)
qed

section \<open>Settling\<close>

text \<open>The gateway can always count its fills: for suitable counter readings no conversion or sample is out of range.\<close>

lemma gw_fills_possible:
  assumes "engine_inv e" "fills e = of_nat k" "pending e = pe"
    and "\<And>i. i < length ms \<Longrightarrow> view_get (ms ! i) 35 = ''8'' \<and> of_int (view_get_int (ms ! i) 11 0) = (of_nat (Suc (k + i)) :: u64)"
  shows "\<exists>e'. gw_fills clk (\<lambda>n. pe ! unat ((n + 1) AND kPendingMask)) ms e = Inr e'"
  using assms
proof (induction ms arbitrary: e k)
  case (Cons m ms)
  let ?rx = "\<lambda>n :: u64. pe ! unat ((n + 1) AND kPendingMask)"
  have m: "view_get m 35 = ''8''" "of_int (view_get_int m 11 0) = (of_nat (Suc k) :: u64)" using Cons.prems(4) [of 0] by simp_all
  have "of_int (view_get_int m 11 0) = fills e + 1" using m(2) Cons.prems(2) by simp
  then have t: "?rx (fills e) - pending e ! unat (of_int (view_get_int m 11 0) AND kPendingMask) = 0" using Cons.prems(3) by simp
  have "ticks_to_ns clk 0 = Inr 0" by (simp add: ticks_to_ns_scaled)
  obtain xs where "hist_of xs (rtt e)" using Cons.prems(1) by (auto simp: engine_inv_def samples_ok_def)
  have "\<exists>h. gw_fill clk ?rx m e = Inr (e\<lparr>rtt := h, fills := fills e + 1\<rparr>)"
  proof (cases "warm (fills e)")
    case True
    obtain h where "hist_record [] 0 (rtt e) = Inr h" using hist_record_step [OF \<open>hist_of xs (rtt e)\<close>, of 0 "[]"] by (auto simp: in_range_def)
    then show ?thesis using m(1) t True \<open>ticks_to_ns clk 0 = Inr 0\<close> by (intro exI [of _ h]) (simp add: gw_fill_def Let_def)
  next
    case False
    then show ?thesis using m(1) t \<open>ticks_to_ns clk 0 = Inr 0\<close> by (intro exI [of _ "rtt e"]) (simp add: gw_fill_def Let_def)
  qed
  then obtain h where h: "gw_fill clk ?rx m e = Inr (e\<lparr>rtt := h, fills := fills e + 1\<rparr>)" by blast
  have "\<exists>e'. gw_fills clk ?rx ms (e\<lparr>rtt := h, fills := fills e + 1\<rparr>) = Inr e'"
  proof (rule Cons.IH)
    show "engine_inv (e\<lparr>rtt := h, fills := fills e + 1\<rparr>)" by (rule gw_fill_inv [OF Cons.prems(1) h])
    show "view_get (ms ! i) 35 = ''8'' \<and> of_int (view_get_int (ms ! i) 11 0) = (of_nat (Suc (Suc k + i)) :: u64)"
      if "i < length ms" for i using Cons.prems(4) [of "Suc i"] that by simp
  qed (use Cons.prems(2,3) in simp_all)
  then show ?case using h by simp
qed simp

lemma gw_recv_possible:
  assumes c: "clock_ok clock" and inv: "market_inv clock s" and nf: "\<not> send_failed (mk_engine s)"
    and p: "prefix bytes (drop (mk_got s) (concat (mk_replies s)))"
  shows "\<exists>rx e'. gw_recv clk rx (Recv bytes) (mk_engine s) = Some (Inr e')"
proof (cases "gw_at (mk_engine s) = Gw_Recv")
  case True
  let ?e = "mk_engine s" and ?rs = "mk_replies s"
  obtain m j buf where m: "fills ?e = of_nat m" "m + j \<le> length ?rs"
    "framer_drain (framer_append bytes (gw_buf ?e)) = Some (take j (drop m ?rs), buf)" by (rule recv_takes [OF c inv nf p])
  have I: "engine_inv ?e" "answers clock (frames_of ?e) ?rs" using inv nf by (simp_all add: market_inv_def)
  have "\<exists>e'. gw_fills clk (\<lambda>n. pending ?e ! unat ((n + 1) AND kPendingMask)) (take j (drop m ?rs))
      (?e\<lparr>gw_buf := buf, gw_at := Gw_Loop\<rparr>) = Inr e'"
  proof (rule gw_fills_possible)
    show "engine_inv (?e\<lparr>gw_buf := buf, gw_at := Gw_Loop\<rparr>)"
      using I(1) True by (simp add: engine_inv_def logged_def due_ok_def)
    show "view_get (take j (drop m ?rs) ! i) 35 = ''8'' \<and>
        of_int (view_get_int (take j (drop m ?rs) ! i) 11 0) = (of_nat (Suc (m + i)) :: u64)"
      if i: "i < length (take j (drop m ?rs))" for i
    proof -
      have "m + i < length ?rs" "take j (drop m ?rs) ! i = ?rs ! (m + i)" using i m(2) by simp_all
      then show ?thesis using answer_facts(2-4) [OF c I] by metis
    qed
  qed (use m(1) in simp_all)
  then show ?thesis using True m(3) by (fastforce simp: gw_recv_def)
qed (auto simp: gw_recv_def)

lemma thread_runs:
  assumes "(thread_step c clk period)\<^sup>*\<^sup>* (mk_engine s) e'"
  shows "(market_step c clk period clock)\<^sup>*\<^sup>* s (s\<lparr>mk_engine := e'\<rparr>)"
  using assms
proof (induction rule: rtranclp_induct)
  case (step e1 e2)
  have "market_step c clk period clock (s\<lparr>mk_engine := e1\<rparr>) (s\<lparr>mk_engine := e2\<rparr>)"
    using mk_thread [of c clk period "s\<lparr>mk_engine := e1\<rparr>" e2 clock] step.hyps(2) by simp
  then show ?case using step.IH by (rule rtranclp.rtrancl_into_rtrancl [rotated])
qed simp

text \<open>An engine that runs, has sent all its orders without failure, and whose gateway has not returned.\<close>

definition quiet :: "engine \<Rightarrow> bool" where
  "quiet e \<longleftrightarrow> g_running e \<and> ring_list ring_capacity (ring2 e) = [] \<and> gw_at e \<noteq> Gw_Done \<and> \<not> send_failed e"

definition same_io :: "engine \<Rightarrow> engine \<Rightarrow> bool" where
  "same_io e e' \<longleftrightarrow> gw_buf e' = gw_buf e \<and> fills e' = fills e \<and> orders_popped e' = orders_popped e \<and> wire e' = wire e \<and>
     orders e' = orders e"

lemma quiet_pops:
  assumes "engine_inv e" "quiet e" "gw_at e = Gw_Pop"
  shows "\<exists>e'. thread_step c clk period e e' \<and> gw_at e' = Gw_Recv \<and> quiet e' \<and> same_io e e'"
proof -
  have ok: "ring_ok ring_capacity (ring2 e)" using assms(1) by (simp add: engine_inv_def gw_ok_def)
  obtain x r where pop: "try_pop ring_capacity (ring2 e) = (x, r)" by (cases "try_pop ring_capacity (ring2 e)")
  then have x: "x = None" using ringq.pop_none_iff [OF ok] assms(2) by (simp add: quiet_def)
  then have "ring_list ring_capacity r = []" using ring_pop_none(2) [OF ok] pop assms(2) by (simp add: quiet_def)
  moreover have "thread_step c clk period e (e\<lparr>ring2 := r, gw_at := Gw_Recv\<rparr>)"
    by (rule step_gw_send [of "[]" _ clk 0]) (use pop x assms(3) in \<open>simp_all add: gw_send_def send_returns_def\<close>)
  ultimately show ?thesis using assms(2) by (intro exI [of _ "e\<lparr>ring2 := r, gw_at := Gw_Recv\<rparr>"]) (simp add: quiet_def same_io_def)
qed

lemma quiet_receives:
  assumes inv: "engine_inv e" and q: "quiet e"
  shows "\<exists>e'. (thread_step c clk period)\<^sup>*\<^sup>* e e' \<and> gw_at e' = Gw_Recv \<and> quiet e' \<and> same_io e e'"
proof (cases "gw_at e")
  case Gw_Loop
  have st: "thread_step c clk period e (e\<lparr>gw_at := Gw_Pop\<rparr>)"
    by (rule step_gw_send [of "[]" _ clk 0]) (use Gw_Loop q in \<open>simp_all add: gw_send_def send_returns_def quiet_def\<close>)
  have "quiet (e\<lparr>gw_at := Gw_Pop\<rparr>)" using q by (simp add: quiet_def)
  from quiet_pops [OF thread_run.inv_step [OF inv st] this, of c clk period] obtain e' where
    "thread_step c clk period (e\<lparr>gw_at := Gw_Pop\<rparr>) e'" "gw_at e' = Gw_Recv" "quiet e'" "same_io (e\<lparr>gw_at := Gw_Pop\<rparr>) e'" by auto
  moreover have "(thread_step c clk period)\<^sup>*\<^sup>* e e'" if "thread_step c clk period (e\<lparr>gw_at := Gw_Pop\<rparr>) e'" for e'
    using st that by (meson converse_rtranclp_into_rtranclp r_into_rtranclp)
  ultimately show ?thesis by (intro exI [of _ e']) (simp add: same_io_def)
next
  case Gw_Pop
  then show ?thesis using quiet_pops [OF inv q] by blast
next
  case (Gw_Log cid)
  have "thread_step c clk period e (gw_log 0 e)" by (rule step_gw_log)
  moreover have "gw_at (gw_log 0 e) = Gw_Recv \<and> quiet (gw_log 0 e) \<and> same_io e (gw_log 0 e)"
    using Gw_Log q by (simp add: gw_log_def case_prod_unfold Let_def quiet_def same_io_def)
  ultimately show ?thesis by blast
next
  case Gw_Recv
  then show ?thesis using q by (intro exI [of _ e]) (simp add: same_io_def)
qed (use q in \<open>simp add: quiet_def\<close>)

text \<open>The exchange reads what is left, then the gateway does.\<close>

lemma next_piece:
  assumes "n < length xs" "0 < cap"
  shows "\<exists>b. arrives cap b n xs \<and> length xs - (n + length b) < length xs - n"
  using assms by (intro exI [of _ "take cap (drop n xs)"]) (auto simp: arrives_def take_is_prefix)

lemma exch_catches_up:
  assumes c: "clock_ok clock" and "market_inv clock s" "\<not> send_failed (mk_engine s)"
  shows "\<exists>s'. (market_step c clk period clock)\<^sup>*\<^sup>* s s' \<and> market_inv clock s' \<and> mk_engine s' = mk_engine s \<and>
    mk_read s' = length (wire (mk_engine s))"
  using assms(2,3)
proof (induction "length (wire (mk_engine s)) - mk_read s" arbitrary: s rule: less_induct)
  case less
  let ?w = "wire (mk_engine s)"
  have le: "mk_read s \<le> length ?w"
    using less.prems wire_frames [of "mk_engine s"] by (auto simp: market_inv_def receiving_def)
  show ?case
  proof (cases "mk_read s = length ?w")
    case False
    obtain b where P: "arrives exch_rbuf b (mk_read s) ?w" "length ?w - (mk_read s + length b) < length ?w - mk_read s"
      using next_piece [of "mk_read s" ?w exch_rbuf] le False by (auto simp: exch_rbuf_def)
    obtain out buf sq where run: "exch_chunk clock b (mk_xbuf s) (mk_seq s) = Some (Inr (out, buf, sq))"
      using exch_handles [OF c less.prems, of b] P(1) by (auto simp: arrives_def)
    let ?s = "s\<lparr>mk_read := mk_read s + length b, mk_xbuf := buf, mk_seq := sq, mk_replies := mk_replies s @ out\<rparr>"
    have st: "market_step c clk period clock s ?s" by (rule mk_exch [OF P(1) run])
    have "\<exists>s'. (market_step c clk period clock)\<^sup>*\<^sup>* ?s s' \<and> market_inv clock s' \<and> mk_engine s' = mk_engine ?s \<and>
        mk_read s' = length (wire (mk_engine ?s))"
      by (rule less.hyps) (use exch_keeps [OF c less.prems(1) P(1) run] less.prems(2) P(2) in simp_all)
    then show ?thesis using converse_rtranclp_into_rtranclp [of "market_step c clk period clock", OF st] by auto
  qed (use less.prems in blast)
qed

lemma gateway_catches_up:
  assumes c: "clock_ok clock" and "market_inv clock s" "quiet (mk_engine s)"
  shows "\<exists>s'. (market_step c clk period clock)\<^sup>*\<^sup>* s s' \<and> market_inv clock s' \<and> quiet (mk_engine s') \<and>
    orders_popped (mk_engine s') = orders_popped (mk_engine s) \<and> orders (mk_engine s') = orders (mk_engine s) \<and>
    mk_replies s' = mk_replies s \<and> mk_xbuf s' = mk_xbuf s \<and> mk_read s' = mk_read s \<and> mk_got s' = length (concat (mk_replies s))"
  using assms(2,3)
proof (induction "length (concat (mk_replies s)) - mk_got s" arbitrary: s rule: less_induct)
  case less
  let ?w = "concat (mk_replies s)"
  have nf: "\<not> send_failed (mk_engine s)" using less.prems(2) by (simp add: quiet_def)
  have inv0: "engine_inv (mk_engine s)" using less.prems(1) by (simp add: market_inv_def)
  have le: "mk_got s \<le> length ?w" using less.prems(1) nf by (auto simp: market_inv_def receiving_def)
  show ?case
  proof (cases "mk_got s = length ?w")
    case False
    obtain e1 where e1: "(thread_step c clk period)\<^sup>*\<^sup>* (mk_engine s) e1" "gw_at e1 = Gw_Recv" "quiet e1" "same_io (mk_engine s) e1"
      using quiet_receives [of "mk_engine s" c clk period] less.prems(2) inv0 by blast
    let ?s1 = "s\<lparr>mk_engine := e1\<rparr>"
    have run1: "(market_step c clk period clock)\<^sup>*\<^sup>* s ?s1" by (rule thread_runs [OF e1(1)])
    have inv1: "market_inv clock ?s1" using market_run.steps_inv [OF run1] less.prems(1) c by blast
    obtain b where P: "arrives gw_rbuf b (mk_got s) ?w" "length ?w - (mk_got s + length b) < length ?w - mk_got s"
      using next_piece [of "mk_got s" ?w gw_rbuf] le False by (auto simp: gw_rbuf_def)
    obtain rx e2 where e2: "gw_recv clk rx (Recv b) (mk_engine ?s1) = Some (Inr e2)"
      using gw_recv_possible [OF c inv1, of b clk] P(1) e1(3) by (simp add: arrives_def quiet_def) blast
    let ?s2 = "?s1\<lparr>mk_engine := e2, mk_got := mk_got ?s1 + length b\<rparr>"
    have st: "market_step c clk period clock ?s1 ?s2" by (rule mk_recv [OF _ _ e2]) (use e1(2) P(1) in simp_all)
    have inv2: "market_inv clock ?s2" using market_run.inv_step [OF _ st] inv1 by (simp add: c)
    have f: "ring2 e2 = ring2 e1" "g_running e2 = g_running e1" "send_failed e2 = send_failed e1" "orders_popped e2 = orders_popped e1"
      "orders e2 = orders e1" "gw_at e2 = Gw_Loop"
      using e2 e1(2) gw_fills_frame by (auto simp: gw_recv_def split: option.splits) fastforce+
    have q: "quiet e2" using e1(3) f by (simp add: quiet_def)
    have "\<exists>s'. (market_step c clk period clock)\<^sup>*\<^sup>* ?s2 s' \<and> market_inv clock s' \<and> quiet (mk_engine s') \<and>
        orders_popped (mk_engine s') = orders_popped (mk_engine ?s2) \<and> orders (mk_engine s') = orders (mk_engine ?s2) \<and>
        mk_replies s' = mk_replies ?s2 \<and> mk_xbuf s' = mk_xbuf ?s2 \<and> mk_read s' = mk_read ?s2 \<and> mk_got s' = length (concat (mk_replies ?s2))"
      by (rule less.hyps) (use inv2 q P(2) in simp_all)
    moreover have "(market_step c clk period clock)\<^sup>*\<^sup>* s ?s2" using run1 st by (rule rtranclp.rtrancl_into_rtrancl)
    ultimately show ?thesis using f(4,5) e1(4) rtranclp_trans [of "market_step c clk period clock" s ?s2] by (auto simp: same_io_def)
  qed (use less.prems in blast)
qed

section \<open>Runs for the witnesses\<close>

lemma market_one_sent:
  "\<exists>s. reach market_init (market_step c clk period clock) s \<and> length (orders_popped (mk_engine s)) = 1 \<and>
     \<not> send_failed (mk_engine s) \<and> g_running (mk_engine s) \<and> gw_at (mk_engine s) = Gw_Log 1 \<and>
     mk_read s = 0 \<and> mk_replies s = [] \<and> ring_list ring_capacity (ring2 (mk_engine s)) = []"
proof -
  obtain e where e: "reach engine_init (thread_step c clk period) e" "length (orders_popped e) = 1" "\<not> send_failed e"
    "g_running e" "gw_at e = Gw_Log 1" "length (ticks_popped e) = 1" using run_one_sent [of c clk period] by blast
  have "reach market_init (market_step c clk period clock) (market_start e)"
  proof (rule reach_image [OF e(1)])
    show "market_step c clk period clock (market_start e1) (market_start e2)" if "thread_step c clk period e1 e2" for e1 e2
      using mk_thread [of c clk period "market_start e1" e2 clock] that by (simp add: market_start_def)
  qed (auto simp: market_init_def)
  moreover have "length (orders_pushed e) \<le> 1" using thread_run.reach_inv [OF e(1)] e(6) by (simp add: engine_inv_def st_ok_def)
  moreover have "orders_pushed e = orders_popped e @ ring_list ring_capacity (ring2 e)"
    using thread_run.reach_inv [OF e(1)] unfolding engine_inv_def gw_ok_def by blast
  ultimately have "reach market_init (market_step c clk period clock) (market_start e)" "ring_list ring_capacity (ring2 e) = []"
    using e(2) by (simp, cases "ring_list ring_capacity (ring2 e)") auto
  then show ?thesis using e(2-5) by (intro exI [of _ "market_start e"]) (simp add: market_start_def)
qed

section \<open>Properties\<close>

text \<open>
  C2. The life of an order, through both processes. In every reachable state of the engine and
  the exchange connected by TCP, however the threads interleave and the bytes are cut into
  pieces, and unless a send has failed: the exchange's replies are, in order and numbered from 2,
  its ExecutionReports for the first orders the gateway has sent; the gateway's fill counter counts
  replies it has read; and the next reply it reads, if it belongs to one of the last 4096 orders, is measured
  from exactly the tick that its order was made from, recorded after the warm-up and counted.
\<close>

theorem market_fills:
  assumes "reach market_init (market_step c clk period clock) s" "clock_ok clock" "\<not> send_failed (mk_engine s)"
  shows "\<exists>m. fills (mk_engine s) = of_nat m \<and> m \<le> length (mk_replies s) \<and>
    length (mk_replies s) \<le> length (orders_popped (mk_engine s)) \<and>
    (\<forall>i < length (mk_replies s). exch_reply clock (o_fix (orders_popped (mk_engine s) ! i)) (of_nat (i + 2)) =
       Inr ([mk_replies s ! i], of_nat (i + 3))) \<and>
    (m < length (mk_replies s) \<and> length (orders_popped (mk_engine s)) \<le> m + 4096 \<longrightarrow>
       gw_fill clk rx (mk_replies s ! m) (mk_engine s) =
         cpp_bind (ticks_to_ns clk (rx (of_nat m) - t_t0_tsc (ticks_popped (mk_engine s) ! m))) (\<lambda>dt.
         cpp_bind (if warm (of_nat m) then hist_record [] dt (rtt (mk_engine s)) else Inr (rtt (mk_engine s))) (\<lambda>h.
         Inr ((mk_engine s)\<lparr>rtt := h, fills := of_nat (Suc m)\<rparr>))))"
proof -
  let ?e = "mk_engine s" and ?rs = "mk_replies s"
  have inv: "market_inv clock s" using market_run.reach_inv [OF assms(1)] assms(2) by blast
  then obtain m where m: "engine_inv ?e" "answers clock (frames_of ?e) ?rs" "fills ?e = of_nat m" "m \<le> length ?rs"
    using assms(3) by (auto simp: market_inv_def receiving_def)
  have len: "length ?rs \<le> length (orders_popped ?e)" using m(2) by (simp add: answers_def frames_of_def)
  have "gw_fill clk rx (?rs ! m) ?e =
      cpp_bind (ticks_to_ns clk (rx (of_nat m) - t_t0_tsc (ticks_popped ?e ! m))) (\<lambda>dt.
      cpp_bind (if warm (of_nat m) then hist_record [] dt (rtt ?e) else Inr (rtt ?e)) (\<lambda>h.
      Inr (?e\<lparr>rtt := h, fills := of_nat (Suc m)\<rparr>)))"
    if lt: "m < length ?rs" "length (orders_popped ?e) \<le> m + 4096"
    using answer_facts(2,3) [OF assms(2) m(1,2) lt(1)] popped_pending [OF m(1) _ lt(2)] lt(1) len m(3)
    by (simp add: gw_fill_def Let_def add.commute)
  then show ?thesis using m(2-4) len by (intro exI [of _ m]) (auto simp: answers_def frames_of_def)
qed

theorem market_fills_witness:
  "\<exists>s m. reach market_init (market_step cfg_default \<lparr>ns_per_tick = Dbl 1 0\<rparr> 1000 sample_clock) s \<and>
     length (orders_popped (mk_engine s)) = 1 \<and> fills (mk_engine s) = of_nat m \<and> m \<le> length (mk_replies s)"
proof -
  obtain s where s: "reach market_init (market_step cfg_default \<lparr>ns_per_tick = Dbl 1 0\<rparr> 1000 sample_clock) s"
    "length (orders_popped (mk_engine s)) = 1" "\<not> send_failed (mk_engine s)" using market_one_sent by blast
  then show ?thesis using market_fills [OF s(1) sample_clock_ok s(3)] by blast
qed

text \<open>
  C8. Neither side is ever stuck on the other's bytes. In every reachable state without a failed
  send, the exchange can handle whatever piece of the engine's orders arrives next, without a fault
  of its number parser or a loop of its framer, and answers every order that the piece
  completes; and the gateway's framer ends on whatever piece of the replies arrives next, delivering only
  ExecutionReports.
\<close>

theorem market_never_stuck:
  assumes "reach market_init (market_step c clk period clock) s" "clock_ok clock" "\<not> send_failed (mk_engine s)"
  shows "(\<forall>x. prefix x (drop (mk_read s) (wire (mk_engine s))) \<longrightarrow>
      (\<exists>out buf. exch_chunk clock x (mk_xbuf s) (mk_seq s) = Some (Inr (out, buf, mk_seq s + of_nat (length out))) \<and>
        (mk_read s + length x = length (wire (mk_engine s)) \<longrightarrow>
           buf = [] \<and> length (mk_replies s) + length out = length (orders_popped (mk_engine s))))) \<and>
    (\<forall>y. prefix y (drop (mk_got s) (concat (mk_replies s))) \<longrightarrow>
      (\<exists>ms buf. framer_drain (framer_append y (gw_buf (mk_engine s))) = Some (ms, buf) \<and>
        list_all (\<lambda>m. is_frame m \<and> view_get m 35 = ''8'') ms))"
proof (intro conjI allI impI)
  let ?e = "mk_engine s" and ?rs = "mk_replies s"
  have inv: "market_inv clock s" using market_run.reach_inv [OF assms(1)] assms(2) by blast
  have I: "engine_inv ?e" "answers clock (frames_of ?e) ?rs" "mk_seq s = of_nat (length ?rs + 2)"
    using inv assms(3) by (auto simp: market_inv_def)
  show "\<exists>out buf. exch_chunk clock x (mk_xbuf s) (mk_seq s) = Some (Inr (out, buf, mk_seq s + of_nat (length out))) \<and>
      (mk_read s + length x = length (wire ?e) \<longrightarrow> buf = [] \<and> length ?rs + length out = length (orders_popped ?e))"
    if x: "prefix x (drop (mk_read s) (wire ?e))" for x
  proof -
    obtain out buf where o: "exch_chunk clock x (mk_xbuf s) (mk_seq s) = Some (Inr (out, buf, of_nat (length (?rs @ out) + 2)))"
      "receiving (frames_of ?e) (mk_read s + length x) buf (length (?rs @ out))"
      using exch_handles [OF assms(2) inv assms(3) x] by blast
    have "buf = [] \<and> length ?rs + length out = length (orders_popped ?e)" if "mk_read s + length x = length (wire ?e)"
      using receiving_all [of "frames_of ?e" buf "length (?rs @ out)"] order_frame [OF I(1)] o(2) that wire_frames [OF I(1) assms(3)]
      by (simp add: frames_of_def)
    then show ?thesis using o(1) I(3) by (intro exI [of _ out] exI [of _ buf]) (simp add: algebra_simps)
  qed
  show "\<exists>ms buf. framer_drain (framer_append y (gw_buf ?e)) = Some (ms, buf) \<and>
      list_all (\<lambda>m. is_frame m \<and> view_get m 35 = ''8'') ms"
    if y: "prefix y (drop (mk_got s) (concat ?rs))" for y
  proof -
    obtain m j buf where j: "framer_drain (framer_append y (gw_buf ?e)) = Some (take j (drop m ?rs), buf)"
      by (rule recv_takes [OF assms(2) inv assms(3) y])
    have "list_all (\<lambda>m. is_frame m \<and> view_get m 35 = ''8'') ?rs"
      using answer_facts(1,2) [OF assms(2) I(1,2)] by (simp add: list_all_length)
    then have "list_all (\<lambda>m. is_frame m \<and> view_get m 35 = ''8'') (take j (drop m ?rs))"
      by (auto simp: list_all_iff dest: in_set_takeD in_set_dropD)
    then show ?thesis using j by blast
  qed
qed

theorem market_never_stuck_witness:
  "\<exists>s out. reach market_init (market_step cfg_default \<lparr>ns_per_tick = Dbl 1 0\<rparr> 1000 sample_clock) s \<and>
     exch_chunk sample_clock (wire (mk_engine s)) (mk_xbuf s) (mk_seq s) = Some (Inr ([out], [], mk_seq s + 1))"
proof -
  obtain s where s: "reach market_init (market_step cfg_default \<lparr>ns_per_tick = Dbl 1 0\<rparr> 1000 sample_clock) s"
    "length (orders_popped (mk_engine s)) = 1" "\<not> send_failed (mk_engine s)" "mk_read s = 0" "mk_replies s = []"
    using market_one_sent by blast
  then obtain out buf where o:
    "exch_chunk sample_clock (wire (mk_engine s)) (mk_xbuf s) (mk_seq s) = Some (Inr (out, buf, mk_seq s + of_nat (length out)))"
    "buf = []" "length out = 1"
    using market_never_stuck [OF s(1) sample_clock_ok s(3)] by fastforce
  then obtain r where "out = [r]" by (cases out) auto
  then show ?thesis using o s(1) by auto
qed

text \<open>
  The market settles. From every reachable state in which the engine runs, has taken all its orders off
  the ring and no send has failed, the two processes can go on (the exchange reading what is left of the orders,
  the gateway what is left of the replies) to a state with as many fills as orders, the same orders sent, and no
  byte left on either side.
\<close>

lemma market_settles:
  assumes "reach market_init (market_step c clk period clock) s" "clock_ok clock" "quiet (mk_engine s)"
  shows "\<exists>s'. reach market_init (market_step c clk period clock) s' \<and> (market_step c clk period clock)\<^sup>*\<^sup>* s s' \<and>
    orders_popped (mk_engine s') = orders_popped (mk_engine s) \<and> fills (mk_engine s') = orders (mk_engine s') \<and>
    length (mk_replies s') = length (orders_popped (mk_engine s')) \<and>
    mk_read s' = length (wire (mk_engine s')) \<and> mk_got s' = length (concat (mk_replies s')) \<and>
    quiet (mk_engine s')"
proof -
  let ?step = "market_step c clk period clock"
  have inv: "market_inv clock s" using market_run.reach_inv [OF assms(1)] assms(2) by blast
  have nf: "\<not> send_failed (mk_engine s)" using assms(3) by (simp add: quiet_def)
  obtain s1 where s1: "?step\<^sup>*\<^sup>* s s1" "market_inv clock s1" "mk_engine s1 = mk_engine s" "mk_read s1 = length (wire (mk_engine s))"
    using exch_catches_up [OF assms(2) inv nf, of c clk period] by blast
  obtain s2 where s2: "?step\<^sup>*\<^sup>* s1 s2" "market_inv clock s2" "quiet (mk_engine s2)"
    "orders_popped (mk_engine s2) = orders_popped (mk_engine s1)" "mk_replies s2 = mk_replies s1" "mk_xbuf s2 = mk_xbuf s1"
    "mk_got s2 = length (concat (mk_replies s1))" "mk_read s2 = mk_read s1"
    using gateway_catches_up [OF assms(2) s1(2), of c clk period] assms(3) s1(3) by auto
  have x: "mk_xbuf s1 = [] \<and> length (mk_replies s1) = length (frames_of (mk_engine s1))"
    by (rule receiving_all) (use s1 nf wire_frames order_frame in \<open>auto simp: market_inv_def\<close>)
  have nf2: "\<not> send_failed (mk_engine s2)" using s2(3) by (simp add: quiet_def)
  obtain m where m: "fills (mk_engine s2) = of_nat m" "receiving (mk_replies s2) (mk_got s2) (gw_buf (mk_engine s2)) m"
    "answers clock (frames_of (mk_engine s2)) (mk_replies s2)" "engine_inv (mk_engine s2)"
    using s2(2) nf2 by (auto simp: market_inv_def)
  have "gw_buf (mk_engine s2) = [] \<and> m = length (mk_replies s2)"
    by (rule receiving_all) (use m s2(5,7) answers_frames [OF assms(2) m(4,3)] in auto)
  moreover have "orders (mk_engine s2) = of_nat (length (orders_popped (mk_engine s2)))"
    using m(4) by (simp add: engine_inv_def gw_ok_def)
  moreover have "wire (mk_engine s2) = wire (mk_engine s)"
    using wire_frames [OF m(4) nf2] wire_frames [OF _ nf] inv s1(3) s2(4) by (simp add: market_inv_def frames_of_def)
  moreover have run: "?step\<^sup>*\<^sup>* s s2" using s1(1) s2(1) by (rule rtranclp_trans)
  moreover have "reach market_init ?step s2" using run assms(1) by (rule reach_rtranclp)
  ultimately show ?thesis using s2(3-5,7,8) s1(3,4) x m(1) by (intro exI [of _ s2]) (simp add: frames_of_def)
qed

end
