(* ===== verification/Fair_Runs.thy ===== *)
theory Fair_Runs
  imports Interfaces
begin

text \<open>
  Infinite runs of a state machine and the fairness assumptions under which they make progress. A run may
  stutter, so that a machine at rest has runs too.
\<close>

definition run :: "('s \<Rightarrow> 's \<Rightarrow> bool) \<Rightarrow> (nat \<Rightarrow> 's) \<Rightarrow> bool" where
  "run step f \<longleftrightarrow> (\<forall>i. f (Suc i) = f i \<or> step (f i) (f (Suc i)))"

text \<open>An action that is enabled from some point on is taken (weak fairness), or one that is enabled again and again (strong fairness).\<close>

definition weakly_fair :: "('s \<Rightarrow> bool) \<Rightarrow> ('s \<Rightarrow> 's \<Rightarrow> bool) \<Rightarrow> (nat \<Rightarrow> 's) \<Rightarrow> bool" where
  "weakly_fair en act f \<longleftrightarrow> (\<forall>i. (\<forall>j \<ge> i. en (f j)) \<longrightarrow> (\<exists>j \<ge> i. act (f j) (f (Suc j))))"

definition strongly_fair :: "('s \<Rightarrow> bool) \<Rightarrow> ('s \<Rightarrow> 's \<Rightarrow> bool) \<Rightarrow> (nat \<Rightarrow> 's) \<Rightarrow> bool" where
  "strongly_fair en act f \<longleftrightarrow> ((\<forall>i. \<exists>j \<ge> i. en (f j)) \<longrightarrow> (\<forall>i. \<exists>j \<ge> i. act (f j) (f (Suc j))))"

lemma run_steps: "run step f \<Longrightarrow> i \<le> j \<Longrightarrow> step\<^sup>*\<^sup>* (f i) (f j)"
proof (induction j rule: nat_induct)
  case (Suc j)
  then show ?case
    by (cases "i = Suc j") (auto simp: run_def le_Suc_eq intro: rtranclp.rtrancl_into_rtrancl dest!: spec [of _ j])
qed auto

lemma run_reach: "run step f \<Longrightarrow> reach init step (f 0) \<Longrightarrow> reach init step (f i)"
  using run_steps [of step f 0 i] by (auto intro: reach_rtranclp)

text \<open>A value that never falls and grows again and again while it is below a bound reaches the bound.\<close>

lemma counter_reaches:
  assumes mono: "\<And>i. i0 \<le> i \<Longrightarrow> c i \<le> c (Suc i)"
    and grows: "\<And>i. i0 \<le> i \<Longrightarrow> c i < N \<Longrightarrow> \<exists>j \<ge> i. c i < c j"
  shows "\<exists>j \<ge> i0. N \<le> (c j :: nat)"
proof (rule ccontr)
  assume "\<not> ?thesis"
  then have below: "c j < N" if "i0 \<le> j" for j using that by (meson not_le)
  have "\<exists>j \<ge> i0. n \<le> c j" for n
  proof (induction n)
    case (Suc n)
    then obtain j where "i0 \<le> j" "n \<le> c j" by blast
    with grows [OF this(1) below] obtain k where "j \<le> k" "c j < c k" by blast
    then show ?case using \<open>i0 \<le> j\<close> \<open>n \<le> c j\<close> by (intro exI [of _ k]) simp
  qed auto
  from this [of N] below show False by (meson not_le)
qed

text \<open>A finite run can be put in front of a run.\<close>

lemma run_of_steps:
  assumes "step\<^sup>*\<^sup>* s (g 0)" "run step g"
  shows "\<exists>f n. run step f \<and> f 0 = s \<and> (\<forall>i. f (n + i) = g i)"
  using assms(1)
proof (induction rule: converse_rtranclp_induct)
  case base
  then show ?case using assms(2) by (intro exI [of _ g] exI [of _ 0]) simp
next
  case (step s s1)
  then obtain f n where f: "run step f" "f 0 = s1" "\<forall>i. f (n + i) = g i" by blast
  let ?h = "\<lambda>i. case i of 0 \<Rightarrow> s | Suc j \<Rightarrow> f j"
  have "run step ?h" using f(1,2) step.hyps(1) by (auto simp: run_def split: nat.splits)
  then show ?case using f(3) by (intro exI [of _ ?h] exI [of _ "Suc n"]) simp
qed

section \<open>Streams\<close>

text \<open>
  A stream between two parts of a machine: \<open>sent\<close> counts what has been written to it, \<open>got\<close> what has been
  read. If reading is fair, whatever has been written is read.
\<close>

locale byte_stream =
  fixes step :: "'s \<Rightarrow> 's \<Rightarrow> bool"
    and ok :: "'s \<Rightarrow> bool"
    and sent got :: "'s \<Rightarrow> nat"
  assumes ok_step: "ok s \<Longrightarrow> step s t \<Longrightarrow> ok t"
    and sent_grows: "ok s \<Longrightarrow> step s t \<Longrightarrow> sent s \<le> sent t"
    and got_grows: "ok s \<Longrightarrow> step s t \<Longrightarrow> got s \<le> got t"
begin

lemma run_ok: "run step f \<Longrightarrow> ok (f 0) \<Longrightarrow> ok (f i)"
proof (induction i)
  case (Suc i)
  then have "f (Suc i) = f i \<or> step (f i) (f (Suc i))" by (auto simp: run_def)
  then show ?case using Suc ok_step by metis
qed

lemma run_grows:
  assumes "run step f" "ok (f 0)" "i \<le> j"
  shows "sent (f i) \<le> sent (f j) \<and> got (f i) \<le> got (f j)"
  using assms(3)
proof (induction j rule: nat_induct)
  case (Suc j)
  have "f (Suc j) = f j \<or> step (f j) (f (Suc j))" using assms(1) by (auto simp: run_def)
  then have "sent (f j) \<le> sent (f (Suc j)) \<and> got (f j) \<le> got (f (Suc j))"
    using run_ok [OF assms(1,2)] sent_grows got_grows by (metis order_refl)
  then show ?case using Suc by (cases "i = Suc j") (auto simp: le_Suc_eq)
qed auto

lemma delivered:
  assumes r: "run step f" "ok (f 0)" and n: "n \<le> sent (f i)"
    and fair: "weakly_fair (\<lambda>s. got s < sent s) (\<lambda>s t. got s < got t) f"
  shows "\<exists>j \<ge> i. n \<le> got (f j)"
proof (rule counter_reaches)
  note G = run_grows [OF r]
  show "got (f j) \<le> got (f (Suc j))" for j using G [of j "Suc j"] by simp
  fix j
  assume j: "i \<le> j" "got (f j) < n"
  show "\<exists>k \<ge> j. got (f j) < got (f k)"
  proof (rule ccontr)
    assume stuck: "\<not> ?thesis"
    have "got (f k) < sent (f k)" if "j \<le> k" for k
    proof -
      have "got (f k) \<le> got (f j)" using stuck that by (meson not_le)
      moreover have "sent (f i) \<le> sent (f k)" using G [of i k] j(1) that by simp
      ultimately show ?thesis using j(2) n by linarith
    qed
    then obtain k where k: "j \<le> k" "got (f k) < got (f (Suc k))" using fair by (auto simp: weakly_fair_def)
    have "got (f j) \<le> got (f k)" using G [OF k(1)] by simp
    then show False using stuck k by (meson le_Suc_eq le_less_trans)
  qed
qed

end

end
