(* ===== verification/Market_Runs.thy ===== *)
theory Market_Runs
  imports Market Fair_Runs
begin

text \<open>
  Whole runs of engine and exchange: the exchange's side of the closed system is one call of \<^verbatim>\<open>handle\<close> on the bytes of
  the logon and of the orders, and on fair runs every order is filled in the end.
\<close>

section \<open>The connection as one session\<close>

lemma exch_loop_append:
  "exch_loop clock (cs @ ds) buf sq =
     Option.bind (exch_loop clock cs buf sq) (\<lambda>r. case r of Inl e \<Rightarrow> Some (Inl e) | Inr (out1, buf1, sq1) \<Rightarrow>
     Option.bind (exch_loop clock ds buf1 sq1) (\<lambda>r2. Some (cpp_bind r2 (\<lambda>(out2, buf2, sq2). Inr (out1 @ out2, buf2, sq2)))))"
proof (induction cs arbitrary: buf sq)
  case Nil
  show ?case by (cases "exch_loop clock ds buf sq") (auto split: sum.splits simp: cpp_bind_def)
next
  case (Cons c cs)
  show ?case
  proof (cases "exch_chunk clock c buf sq")
    case (Some r)
    show ?thesis
    proof (cases r)
      case (Inr x)
      obtain out1 buf1 sq1 where x: "x = (out1, buf1, sq1)" by (cases x)
      show ?thesis
        unfolding append_Cons exch_loop_chunks using Some Inr x Cons.IH [of buf1 sq1]
        by (auto split: sum.splits option.splits bind_splits simp: cpp_bind_def)
    qed (use Some in \<open>simp only: append_Cons exch_loop_chunks, simp\<close>)
  qed (simp only: append_Cons exch_loop_chunks, simp)
qed

text \<open>The pieces the exchange has received so far, and what one loop over them gives.\<close>

definition session_inv :: "wall_clock \<Rightarrow> market \<Rightarrow> bool" where
  "session_inv clock s \<longleftrightarrow> mk_read s \<le> length (wire (mk_engine s)) \<and>
     (\<exists>cs. concat cs = take (mk_read s) (wire (mk_engine s)) \<and> list_all (\<lambda>c. c \<noteq> [] \<and> length c \<le> exch_rbuf) cs \<and>
        exch_loop clock cs [] 2 = Some (Inr (mk_replies s, mk_xbuf s, mk_seq s)))"

text \<open>A step of the system: what was written stays, and only the exchange's own step changes its side.\<close>

lemma recv_frame:
  assumes "gw_recv clk rx r e = Some (Inr e')"
  shows "wire e' = wire e" "orders_popped e' = orders_popped e" "send_failed e' = send_failed e"
    "gw_at e' = gw_at e \<or> gw_at e = Gw_Recv" "g_running e' = g_running e"
  using assms gw_fills_frame by (auto simp: gw_recv_def split: recv_res.splits option.splits if_splits) fastforce+

lemma market_step_wire:
  assumes "market_step c clk period clock s s'"
  shows "(\<exists>x. wire (mk_engine s') = wire (mk_engine s) @ x) \<and> (\<exists>ods. orders_popped (mk_engine s') = orders_popped (mk_engine s) @ ods)"
  using assms
proof (cases rule: market_step.cases)
  case (mk_thread e')
  then show ?thesis using thread_frame by fastforce
next
  case (mk_nothing r rx e')
  then show ?thesis using recv_frame [of clk rx r "mk_engine s" e'] by simp
next
  case (mk_recv bytes rx e')
  then show ?thesis using recv_frame [of clk rx "Recv bytes" "mk_engine s" e'] by simp
qed simp

lemma session_step:
  assumes inv: "session_inv clock s" and step: "market_step c clk period clock s s'"
  shows "session_inv clock s'"
proof -
  obtain cs where cs: "mk_read s \<le> length (wire (mk_engine s))" "concat cs = take (mk_read s) (wire (mk_engine s))"
    "list_all (\<lambda>c. c \<noteq> [] \<and> length c \<le> exch_rbuf) cs" "exch_loop clock cs [] 2 = Some (Inr (mk_replies s, mk_xbuf s, mk_seq s))"
    using inv by (auto simp: session_inv_def)
  obtain x where x: "wire (mk_engine s') = wire (mk_engine s) @ x" using market_step_wire [OF step] by blast
  show ?thesis
  proof (cases "mk_read s' = mk_read s \<and> mk_replies s' = mk_replies s \<and> mk_xbuf s' = mk_xbuf s \<and> mk_seq s' = mk_seq s")
    case True
    then show ?thesis using cs x by (auto simp: session_inv_def intro!: exI [of _ cs])
  next
    case False
    with step obtain bytes out buf sq where b: "arrives exch_rbuf bytes (mk_read s) (wire (mk_engine s))"
      "exch_chunk clock bytes (mk_xbuf s) (mk_seq s) = Some (Inr (out, buf, sq))"
      "s' = s\<lparr>mk_read := mk_read s + length bytes, mk_xbuf := buf, mk_seq := sq, mk_replies := mk_replies s @ out\<rparr>"
      by (cases rule: market_step.cases) auto
    obtain z where z: "drop (mk_read s) (wire (mk_engine s)) = bytes @ z" using b(1) by (auto simp: arrives_def prefix_def)
    have "take (mk_read s + length bytes) (wire (mk_engine s)) = take (mk_read s) (wire (mk_engine s)) @ bytes"
      using z by (simp add: take_add)
    moreover have "mk_read s + length bytes \<le> length (wire (mk_engine s))" using arg_cong [OF z, of length] cs(1) by simp
    moreover have "exch_loop clock (cs @ [bytes]) [] 2 = Some (Inr (mk_replies s @ out, buf, sq))"
      unfolding exch_loop_append cs(4) using b(2) by (simp add: exch_loop_chunks del: exch_loop.simps(2))
    ultimately show ?thesis using cs(2,3) b(1,3)
      by (auto simp: session_inv_def arrives_def intro!: exI [of _ "cs @ [bytes]"])
  qed
qed

interpretation session_run: inductive_invariant market_init "market_step c clk period clock" "session_inv clock"
  for c clk period clock
proof unfold_locales
  show "session_inv clock s" if "market_init s" for s
    using that by (auto simp: market_init_def market_start_def session_inv_def intro!: exI [of _ "[]"])
qed (rule session_step)

lemma replies_grow: "(market_step c clk period clock)\<^sup>*\<^sup>* s t \<Longrightarrow> \<exists>rs. mk_replies t = mk_replies s @ rs"
  by (induction rule: rtranclp_induct) (auto elim!: market_stepE)

section \<open>Streams and the gateway's turns\<close>

interpretation orders_in: byte_stream "market_step c clk period clock" "\<lambda>s. True" "\<lambda>s. length (wire (mk_engine s))" mk_read
  for c clk period clock
proof unfold_locales
  fix s t
  assume step: "market_step c clk period clock s t"
  show "length (wire (mk_engine s)) \<le> length (wire (mk_engine t))" using market_step_wire [OF step] by auto
  show "mk_read s \<le> mk_read t" using step by (cases rule: market_step.cases) auto
qed simp

interpretation replies_in: byte_stream "market_step c clk period clock" "\<lambda>s. True" "\<lambda>s. length (concat (mk_replies s))" mk_got
  for c clk period clock
proof unfold_locales
  fix s t
  assume step: "market_step c clk period clock s t"
  show "length (concat (mk_replies s)) \<le> length (concat (mk_replies t))" using step by (cases rule: market_step.cases) auto
  show "mk_got s \<le> mk_got t" using step by (cases rule: market_step.cases) auto
qed simp

text \<open>The gateway, while it runs, comes back to its receive call.\<close>

lemma market_turn:
  assumes "market_step c clk period clock s s'" "g_running (mk_engine s)" "gw_at (mk_engine s) \<noteq> Gw_Recv"
  shows "gw_at (mk_engine s') = gw_at (mk_engine s) \<or> gw_rank (gw_at (mk_engine s')) < gw_rank (gw_at (mk_engine s))"
  using assms(1)
proof (cases rule: market_step.cases)
  case (mk_thread e')
  then show ?thesis using thread_frame assms(2) by simp
next
  case (mk_nothing r rx e')
  then show ?thesis using recv_frame(4) assms(3) by fastforce
qed (use assms(3) in auto)

text \<open>What has happened stays so: a cleared flag, a failed send, a gateway that has returned.\<close>

lemma market_step_stays:
  assumes "market_step c clk period clock s t"
  shows "(g_running (mk_engine t) \<longrightarrow> g_running (mk_engine s)) \<and> (send_failed (mk_engine s) \<longrightarrow> send_failed (mk_engine t)) \<and>
    (gw_at (mk_engine s) = Gw_Done \<longrightarrow> gw_at (mk_engine t) = Gw_Done)"
  using assms
proof (cases rule: market_step.cases)
  case (mk_thread e')
  then show ?thesis using thread_frame by simp
next
  case (mk_nothing r rx e')
  then show ?thesis using recv_frame [of clk rx r "mk_engine s" e'] by auto
next
  case (mk_recv bytes rx e')
  then show ?thesis using recv_frame [of clk rx "Recv bytes" "mk_engine s" e'] by auto
qed simp

section \<open>Fair runs\<close>

text \<open>
  Fairness of the scheduler and of the network: pending bytes of orders are received by the exchange at some point; the gateway
  thread, unless it has returned, takes its next step at some point; and if it keeps calling \<^verbatim>\<open>recv\<close> while
  bytes of replies are pending, some call returns some of them.
\<close>

definition market_fair :: "(nat \<Rightarrow> market) \<Rightarrow> bool" where
  "market_fair f \<longleftrightarrow>
     weakly_fair (\<lambda>s. mk_read s < length (wire (mk_engine s))) (\<lambda>s t. mk_read s < mk_read t) f \<and>
     weakly_fair (\<lambda>s. gw_at (mk_engine s) \<noteq> Gw_Done) (\<lambda>s t. gw_at (mk_engine t) \<noteq> gw_at (mk_engine s)) f \<and>
     strongly_fair (\<lambda>s. gw_at (mk_engine s) = Gw_Recv \<and> mk_got s < length (concat (mk_replies s)))
       (\<lambda>s t. mk_got s < mk_got t) f"

text \<open>The engine runs on, its sends succeed and its gateway does not return.\<close>

definition connected :: "(nat \<Rightarrow> market) \<Rightarrow> bool" where
  "connected f \<longleftrightarrow> (\<forall>i. g_running (mk_engine (f i)) \<and> \<not> send_failed (mk_engine (f i)) \<and> gw_at (mk_engine (f i)) \<noteq> Gw_Done)"

lemma gateway_returns:
  assumes r: "run (market_step c clk period clock) f" and con: "connected f"
    and fair: "weakly_fair (\<lambda>s. gw_at (mk_engine s) \<noteq> Gw_Done) (\<lambda>s t. gw_at (mk_engine t) \<noteq> gw_at (mk_engine s)) f"
  shows "\<exists>j \<ge> i. gw_at (mk_engine (f j)) = Gw_Recv"
proof (rule ccontr)
  assume never: "\<not> ?thesis"
  let ?at = "\<lambda>i. gw_at (mk_engine (f i))"
  have turn: "?at (Suc j) = ?at j \<or> gw_rank (?at (Suc j)) < gw_rank (?at j)" if "i \<le> j" for j
  proof -
    have "f (Suc j) = f j \<or> market_step c clk period clock (f j) (f (Suc j))" using r by (auto simp: run_def)
    then show ?thesis using market_turn [of c clk period clock "f j" "f (Suc j)"] con never that by (auto simp: connected_def)
  qed
  have rank: "gw_rank (?at j) \<le> gw_rank (?at k)" if "i \<le> k" "k \<le> j" for j k
    using that(2)
  proof (induction j rule: nat_induct)
    case (Suc j)
    show ?case
    proof (cases "k \<le> j")
      case True
      then show ?thesis using Suc.IH turn [of j] that(1) by fastforce
    qed (use Suc.prems in \<open>simp add: le_Suc_eq\<close>)
  qed simp
  have moves: "\<exists>j \<ge> k. ?at (Suc j) \<noteq> ?at j" for k using fair con by (auto simp: weakly_fair_def connected_def)
  have "\<exists>j \<ge> i. 4 \<le> 3 - gw_rank (?at j)"
  proof (rule counter_reaches)
    show "3 - gw_rank (?at j) \<le> 3 - gw_rank (?at (Suc j))" if "i \<le> j" for j using rank [of j "Suc j"] that by simp
    fix k
    assume k: "i \<le> k"
    obtain j where j: "k \<le> j" "?at (Suc j) \<noteq> ?at j" using moves by blast
    have "gw_rank (?at (Suc j)) < gw_rank (?at k)" using turn [of j] rank [of k j] j k by auto
    moreover have "gw_rank (?at k) \<le> 3" by (cases "?at k") auto
    ultimately show "\<exists>j \<ge> k. 3 - gw_rank (?at k) < 3 - gw_rank (?at j)" using j(1) by (intro exI [of _ "Suc j"]) auto
  qed
  then show False by auto
qed

lemma receives_fairly:
  assumes r: "run (market_step c clk period clock) f" and con: "connected f" and fair: "market_fair f"
  shows "weakly_fair (\<lambda>s. mk_got s < length (concat (mk_replies s))) (\<lambda>s t. mk_got s < mk_got t) f"
  unfolding weakly_fair_def
proof (intro allI impI)
  fix i
  assume pending: "\<forall>j \<ge> i. mk_got (f j) < length (concat (mk_replies (f j)))"
  have "\<exists>j \<ge> k. gw_at (mk_engine (f j)) = Gw_Recv \<and> mk_got (f j) < length (concat (mk_replies (f j)))" for k
    using gateway_returns [OF r con, of "max i k"] fair pending by (auto simp: market_fair_def)
  then show "\<exists>j \<ge> i. mk_got (f j) < mk_got (f (Suc j))" using fair by (simp add: market_fair_def strongly_fair_def)
qed

text \<open>A receiver that has taken the bytes of the first \<open>m\<close> frames has handled them.\<close>

lemma receiving_past:
  assumes "receiving fs n buf k" "length (concat (take m fs)) \<le> n" "m \<le> length fs"
  shows "m \<le> k"
proof (rule ccontr)
  assume "\<not> m \<le> k"
  then have k: "k < m" by simp
  obtain g gs where d: "drop k fs = g # gs" using k assms(3) by (cases "drop k fs") auto
  have n: "n \<le> length (concat fs)" "buf @ drop n (concat fs) = concat (drop k fs)" "length buf < length g"
    using assms(1) d by (simp_all add: receiving_def undelivered_def)
  have "length (concat (take k fs)) + length (concat (drop k fs)) = length (concat fs)"
    by (metis append_take_drop_id concat_append length_append)
  moreover have "length buf + (length (concat fs) - n) = length (concat (drop k fs))" using arg_cong [OF n(2), of length] by simp
  ultimately have "n = length (concat (take k fs)) + length buf" using n(1) by linarith
  moreover have "take m fs = take k fs @ take (m - k) (g # gs)" using take_add [of k "m - k" fs] k d by simp
  then have "length (concat (take k fs)) + length g \<le> length (concat (take m fs))" using k by (cases "m - k") auto
  ultimately show False using assms(2) n(3) by linarith
qed

lemma filled_in_the_end:
  assumes reach: "reach market_init (market_step c clk period clock) (f 0)" and c: "clock_ok clock"
    and r: "run (market_step c clk period clock) f" and con: "connected f" and fair: "market_fair f"
    and k: "k < length (orders_popped (mk_engine (f i)))"
  shows "\<exists>j \<ge> i. \<exists>m. fills (mk_engine (f j)) = of_nat m \<and> k < m \<and> m \<le> length (mk_replies (f j)) \<and>
    length (concat (take (Suc k) (mk_replies (f j)))) \<le> mk_got (f j) \<and>
    exch_reply clock (o_fix (orders_popped (mk_engine (f i)) ! k)) (of_nat (k + 2)) = Inr ([mk_replies (f j) ! k], of_nat (k + 3))"
proof -
  have inv: "market_inv clock (f j)" for j using market_run.reach_inv [OF run_reach [OF r reach]] c by blast
  have nf: "\<not> send_failed (mk_engine (f j))" for j using con by (simp add: connected_def)
  have I: "engine_inv (mk_engine (f j))" "answers clock (frames_of (mk_engine (f j))) (mk_replies (f j))"
    "receiving (frames_of (mk_engine (f j))) (mk_read (f j)) (mk_xbuf (f j)) (length (mk_replies (f j)))" for j
    using inv [of j] nf [of j] by (auto simp: market_inv_def)
  let ?fs = "frames_of (mk_engine (f i))"
  have grow: "\<exists>gs. frames_of (mk_engine (f j)) = ?fs @ gs" if "i \<le> j" for j
    using run_steps [OF r that]
  proof (induction rule: rtranclp_induct)
    case (step s t)
    then show ?case using market_step_wire [OF step.hyps(2)] by (auto simp: frames_of_def)
  qed simp
  have "length (concat (take (Suc k) ?fs)) \<le> length (wire (mk_engine (f i)))"
    unfolding wire_frames [OF I(1) nf] by (metis append_take_drop_id concat_append length_append le_add1)
  then obtain j1 where j1: "i \<le> j1" "length (concat (take (Suc k) ?fs)) \<le> mk_read (f j1)"
    using orders_in.delivered [OF r] fair by (auto simp: market_fair_def)
  obtain gs where gs: "frames_of (mk_engine (f j1)) = ?fs @ gs" using grow [OF j1(1)] by blast
  have rep: "Suc k \<le> length (mk_replies (f j1))"
    by (rule receiving_past [OF I(3)]) (use gs j1(2) k in \<open>simp_all add: frames_of_def\<close>)
  have "length (concat (take (Suc k) (mk_replies (f j1)))) \<le> length (concat (mk_replies (f j1)))"
    by (metis append_take_drop_id concat_append length_append le_add1)
  then obtain j2 where j2: "j1 \<le> j2" "length (concat (take (Suc k) (mk_replies (f j1)))) \<le> mk_got (f j2)"
    using replies_in.delivered [OF r _ _ receives_fairly [OF r con fair]] by blast
  obtain rs where rs: "mk_replies (f j2) = mk_replies (f j1) @ rs" using run_steps [OF r j2(1)] replies_grow by blast
  obtain m where m: "fills (mk_engine (f j2)) = of_nat m" "receiving (mk_replies (f j2)) (mk_got (f j2)) (gw_buf (mk_engine (f j2))) m"
    using inv [of j2] nf [of j2] by (auto simp: market_inv_def)
  have "Suc k \<le> m" by (rule receiving_past [OF m(2)]) (use rs rep j2(2) in simp_all)
  moreover have "m \<le> length (mk_replies (f j2))" using m(2) by (simp add: receiving_def)
  moreover obtain hs where "frames_of (mk_engine (f j2)) = ?fs @ hs" using grow [of j2] j1(1) j2(1) by auto
  then have "frames_of (mk_engine (f j2)) ! k = o_fix (orders_popped (mk_engine (f i)) ! k)" "k < length (mk_replies (f j2))"
    using k rep rs by (simp_all add: nth_append frames_of_def)
  then have "exch_reply clock (o_fix (orders_popped (mk_engine (f i)) ! k)) (of_nat (k + 2)) = Inr ([mk_replies (f j2) ! k], of_nat (k + 3))"
    using I(2) [of j2] unfolding answers_def by metis
  ultimately show ?thesis using m(1) j1(1) j2 rs rep by (intro exI [of _ j2] conjI exI [of _ m]) simp_all
qed

text \<open>
  A settled system has a fair run: the gateway goes round its loop for ever and nothing arrives.
\<close>

definition gw_cycle :: "market \<Rightarrow> nat \<Rightarrow> market" where
  "gw_cycle s i = s\<lparr>mk_engine := (mk_engine s)\<lparr>gw_at := [Gw_Recv, Gw_Loop, Gw_Pop] ! (i mod 3)\<rparr>\<rparr>"

lemma gw_cycle_run:
  assumes "g_running (mk_engine s)"
  shows "run (market_step c clk period clock) (gw_cycle s)"
proof -
  let ?at = "\<lambda>a. s\<lparr>mk_engine := (mk_engine s)\<lparr>gw_at := a\<rparr>\<rparr>" and ?step = "market_step c clk period clock"
  have "?step (?at Gw_Recv) (?at Gw_Loop)"
    using mk_nothing [of Recv_again clk "\<lambda>_. 0" "?at Gw_Recv" "(mk_engine s)\<lparr>gw_at := Gw_Loop\<rparr>" c period clock] by (simp add: gw_recv_def)
  moreover have "?step (?at Gw_Loop) (?at Gw_Pop)"
    using mk_thread [of c clk period "?at Gw_Loop" "(mk_engine s)\<lparr>gw_at := Gw_Pop\<rparr>" clock]
      step_gw_send [of "[]" "(mk_engine s)\<lparr>gw_at := Gw_Loop\<rparr>" clk 0 "(mk_engine s)\<lparr>gw_at := Gw_Pop\<rparr>" c period] assms
    by (simp add: gw_send_def send_returns_def)
  moreover have "?step (?at Gw_Pop) (?at Gw_Recv)"
    using mk_thread [of c clk period "?at Gw_Pop" "(mk_engine s)\<lparr>gw_at := Gw_Recv\<rparr>" clock]
      step_stale [OF stale_gw_pop [of "(mk_engine s)\<lparr>gw_at := Gw_Pop\<rparr>"], of c clk period] by simp
  moreover have "i mod 3 = 0 \<and> Suc i mod 3 = 1 \<or> i mod 3 = 1 \<and> Suc i mod 3 = 2 \<or> i mod 3 = 2 \<and> Suc i mod 3 = 0" for i :: nat by presburger
  ultimately show ?thesis unfolding run_def gw_cycle_def by (metis nth_Cons_0 nth_Cons_Suc numeral_2_eq_2 One_nat_def)
qed

lemma end_connected:
  assumes "(market_step c clk period clock)\<^sup>*\<^sup>* s t" "g_running (mk_engine t)" "\<not> send_failed (mk_engine t)" "gw_at (mk_engine t) \<noteq> Gw_Done"
  shows "g_running (mk_engine s) \<and> \<not> send_failed (mk_engine s) \<and> gw_at (mk_engine s) \<noteq> Gw_Done"
  using assms
proof (induction rule: rtranclp_induct)
  case (step u t)
  then show ?case using market_step_stays [OF step.hyps(2)] by blast
qed simp

lemma three_turns:
  "[Gw_Recv, Gw_Loop, Gw_Pop] ! (i mod 3) \<noteq> Gw_Done \<and> [Gw_Recv, Gw_Loop, Gw_Pop] ! (Suc i mod 3) \<noteq> [Gw_Recv, Gw_Loop, Gw_Pop] ! (i mod 3)"
proof -
  have "i mod 3 = 0 \<and> Suc i mod 3 = 1 \<or> i mod 3 = 1 \<and> Suc i mod 3 = 2 \<or> i mod 3 = 2 \<and> Suc i mod 3 = 0" by presburger
  then show ?thesis by (elim disjE) simp_all
qed

lemma settled_fair:
  assumes r: "run (market_step c clk period clock) f" and q: "quiet (mk_engine t)" and tail: "\<forall>i. f (n + i) = gw_cycle t i"
    and fin: "mk_read t = length (wire (mk_engine t))" "mk_got t = length (concat (mk_replies t))"
  shows "connected f \<and> market_fair f"
proof
  have T: "mk_read (f (n + i)) = length (wire (mk_engine (f (n + i))))" "mk_got (f (n + i)) = length (concat (mk_replies (f (n + i))))"
    "g_running (mk_engine (f (n + i)))" "\<not> send_failed (mk_engine (f (n + i)))" "gw_at (mk_engine (f (n + i))) = [Gw_Recv, Gw_Loop, Gw_Pop] ! (i mod 3)" for i
    using tail fin q by (simp_all add: gw_cycle_def quiet_def)
  have at: "[Gw_Recv, Gw_Loop, Gw_Pop] ! (i mod 3) \<noteq> Gw_Done \<and>
      [Gw_Recv, Gw_Loop, Gw_Pop] ! (Suc i mod 3) \<noteq> [Gw_Recv, Gw_Loop, Gw_Pop] ! (i mod 3)" for i :: nat
    by (rule three_turns)
  show "connected f"
    unfolding connected_def
  proof
    fix i
    have "(market_step c clk period clock)\<^sup>*\<^sup>* (f i) (f (n + i))" by (rule run_steps [OF r]) simp
    then show "g_running (mk_engine (f i)) \<and> \<not> send_failed (mk_engine (f i)) \<and> gw_at (mk_engine (f i)) \<noteq> Gw_Done"
      by (rule end_connected) (use T [of i] at in simp_all)
  qed
  have late: "\<exists>j \<ge> i. P j" if "\<And>k. P (n + k)" for i :: nat and P using that by (intro exI [of _ "n + i"]) simp
  have "gw_at (mk_engine (f (Suc (n + k)))) \<noteq> gw_at (mk_engine (f (n + k)))" for k using T(5) [of k] T(5) [of "Suc k"] at [of k] by simp
  then have "\<exists>j \<ge> i. gw_at (mk_engine (f (Suc j))) \<noteq> gw_at (mk_engine (f j))" for i by (rule late)
  moreover have "\<exists>j \<ge> i. \<not> mk_read (f j) < length (wire (mk_engine (f j)))" for i by (rule late) (use T(1) in simp)
  moreover have "\<not> mk_got (f j) < length (concat (mk_replies (f j)))" if "n \<le> j" for j using T(2) [of "j - n"] that by simp
  then have "\<not> (\<forall>i. \<exists>j \<ge> i. gw_at (mk_engine (f j)) = Gw_Recv \<and> mk_got (f j) < length (concat (mk_replies (f j))))" by blast
  ultimately show "market_fair f" unfolding market_fair_def weakly_fair_def strongly_fair_def by blast
qed

lemma fair_run_exists:
  assumes "clock_ok clock"
  shows "\<exists>f. reach market_init (market_step c clk period clock) (f 0) \<and> run (market_step c clk period clock) f \<and> connected f \<and>
    market_fair f \<and> length (orders_popped (mk_engine (f 0))) = 1"
proof -
  let ?step = "market_step c clk period clock"
  obtain s where s: "reach market_init ?step s" "length (orders_popped (mk_engine s)) = 1" "\<not> send_failed (mk_engine s)"
    "g_running (mk_engine s)" "gw_at (mk_engine s) = Gw_Log 1" "ring_list ring_capacity (ring2 (mk_engine s)) = []"
    using market_one_sent [of c clk period clock] by blast
  have "quiet (mk_engine s)" using s by (simp add: quiet_def)
  from market_settles [OF s(1) assms this] obtain s1 where s1: "reach market_init ?step s1" "?step\<^sup>*\<^sup>* s s1" "quiet (mk_engine s1)"
    "mk_read s1 = length (wire (mk_engine s1))" "mk_got s1 = length (concat (mk_replies s1))" by blast
  have "engine_inv (mk_engine s1)" using market_run.reach_inv [OF s1(1)] assms by (simp add: market_inv_def)
  from quiet_receives [OF this s1(3), of c clk period] obtain e where e: "(thread_step c clk period)\<^sup>*\<^sup>* (mk_engine s1) e"
    "gw_at e = Gw_Recv" "quiet e" "same_io (mk_engine s1) e" by blast
  let ?t = "s1\<lparr>mk_engine := e\<rparr>"
  have "gw_cycle ?t 0 = ?t" using e(2) by (simp add: gw_cycle_def)
  then have run: "?step\<^sup>*\<^sup>* s (gw_cycle ?t 0)" using rtranclp_trans [OF s1(2) thread_runs [OF e(1), of clock]] by simp
  have "run ?step (gw_cycle ?t)" by (rule gw_cycle_run) (use e(3) in \<open>simp add: quiet_def\<close>)
  from run_of_steps [OF run this] obtain f n where f: "run ?step f" "f 0 = s" "\<forall>i. f (n + i) = gw_cycle ?t i" by (elim exE conjE)
  have "connected f \<and> market_fair f"
    by (rule settled_fair [OF f(1) _ f(3)]) (use e(3,4) s1(4,5) in \<open>simp_all add: same_io_def\<close>)
  then show ?thesis using f(1,2) s(1,2) by blast
qed

section \<open>Properties\<close>

text \<open>
  C7. Every order is filled in the end. Take any infinite run of engine and exchange, started in a reachable state, in which
  the flag stays set, sends succeed and the gateway does not return; let the scheduler and the network be fair. Then for
  every order the gateway has sent there is a later state in which the exchange has answered exactly that
  order, the whole reply has arrived and the fill counter counts it.
\<close>

theorem every_order_filled:
  assumes "reach market_init (market_step c clk period clock) (f 0)" "clock_ok clock"
    and "run (market_step c clk period clock) f" "connected f" "market_fair f"
    and "k < length (orders_popped (mk_engine (f i)))"
  shows "\<exists>j \<ge> i. \<exists>m. fills (mk_engine (f j)) = of_nat m \<and> k < m \<and> m \<le> length (mk_replies (f j)) \<and>
    length (concat (take (Suc k) (mk_replies (f j)))) \<le> mk_got (f j) \<and>
    exch_reply clock (o_fix (orders_popped (mk_engine (f i)) ! k)) (of_nat (k + 2)) = Inr ([mk_replies (f j) ! k], of_nat (k + 3))"
  using assms by (rule filled_in_the_end)

theorem every_order_filled_witness:
  "\<exists>f j m. run (market_step cfg_default \<lparr>ns_per_tick = Dbl 1 0\<rparr> 1000 sample_clock) f \<and> connected f \<and> market_fair f \<and>
     length (orders_popped (mk_engine (f 0))) = 1 \<and> fills (mk_engine (f j)) = of_nat m \<and> 0 < m \<and> m \<le> length (mk_replies (f j))"
proof -
  obtain f where f: "reach market_init (market_step cfg_default \<lparr>ns_per_tick = Dbl 1 0\<rparr> 1000 sample_clock) (f 0)"
    "run (market_step cfg_default \<lparr>ns_per_tick = Dbl 1 0\<rparr> 1000 sample_clock) f" "connected f" "market_fair f"
    "length (orders_popped (mk_engine (f 0))) = 1" using fair_run_exists [OF sample_clock_ok] by blast
  then show ?thesis using every_order_filled [OF f(1) sample_clock_ok f(2-4), of 0 0] by fastforce
qed

text \<open>
  C9. The connection is one session. In every reachable state of engine and exchange the bytes the exchange has read are, cut into
  the non-empty pieces it has received, a prefix of what the gateway has written; and its replies, its unfinished input and
  its sequence number are those of one call of \<^verbatim>\<open>handle\<close> on the engine's logon message, in whatever pieces it came, followed by
  these pieces.
\<close>

theorem market_session:
  assumes "reach market_init (market_step c clk period clock) s" "clock_ok clock" "tm_ok g" "0 \<le> ns" "ns < 10 ^ 9"
  shows "\<exists>req reply cs. logon_message g ns = Inr req \<and> concat cs = take (mk_read s) (wire (mk_engine s)) \<and>
    list_all (\<lambda>c. c \<noteq> [] \<and> length c \<le> exch_rbuf) cs \<and>
    (\<forall>ls. concat ls = req \<longrightarrow> xh_out (exch_handle k xc clock fd (ls @ cs) th) = Some (Inr (reply # mk_replies s, mk_xbuf s, mk_seq s)))"
proof -
  obtain cs where cs: "concat cs = take (mk_read s) (wire (mk_engine s))" "list_all (\<lambda>c. c \<noteq> [] \<and> length c \<le> exch_rbuf) cs"
    "exch_loop clock cs [] 2 = Some (Inr (mk_replies s, mk_xbuf s, mk_seq s))"
    using session_run.reach_inv [OF assms(1)] by (auto simp: session_inv_def)
  obtain req reply where req: "logon_message g ns = Inr req"
    "\<forall>ls. concat ls = req \<longrightarrow> xh_out (exch_handle k xc clock fd ls th) = Some (Inr ([reply], [], 2))"
    using logon_completes [OF assms(3-5,2)] by blast
  have "xh_out (exch_handle k xc clock fd (ls @ cs) th) = Some (Inr (reply # mk_replies s, mk_xbuf s, mk_seq s))" if "concat ls = req" for ls
  proof -
    have "exch_loop clock ls [] 1 = Some (Inr ([reply], [], 2))"
      using req(2) that by (auto simp: exch_handle_def case_prod_unfold Let_def)
    then show ?thesis using cs(3) by (simp add: exch_handle_def case_prod_unfold Let_def exch_loop_append)
  qed
  then show ?thesis using req(1) cs(1,2) by blast
qed

theorem market_session_witness:
  "\<exists>s req reply cs. reach market_init (market_step cfg_default \<lparr>ns_per_tick = Dbl 1 0\<rparr> 1000 sample_clock) s \<and>
     logon_message (fst (sample_clock 1)) 0 = Inr req \<and> length (orders_popped (mk_engine s)) = 1 \<and>
     xh_out (exch_handle sample_os exch_cfg_default sample_clock 5 ([req] @ cs) \<lparr>th_mask = {0}, th_fifo = None\<rparr>) =
       Some (Inr (reply # mk_replies s, mk_xbuf s, mk_seq s))"
proof -
  obtain s where s: "reach market_init (market_step cfg_default \<lparr>ns_per_tick = Dbl 1 0\<rparr> 1000 sample_clock) s"
    "length (orders_popped (mk_engine s)) = 1" using market_one_sent by blast
  have "tm_ok (fst (sample_clock 1))" using sample_clock_ok by (simp add: clock_ok_def)
  then obtain req reply cs where "logon_message (fst (sample_clock 1)) 0 = Inr req"
    "\<forall>ls. concat ls = req \<longrightarrow> xh_out (exch_handle sample_os exch_cfg_default sample_clock 5 (ls @ cs) \<lparr>th_mask = {0}, th_fifo = None\<rparr>) =
       Some (Inr (reply # mk_replies s, mk_xbuf s, mk_seq s))"
    using market_session [OF s(1) sample_clock_ok, where ns = 0 and g = "fst (sample_clock 1)" and k = sample_os and
      xc = exch_cfg_default and fd = 5 and th = "\<lparr>th_mask = {0}, th_fifo = None\<rparr>"] by auto
  moreover have "concat [req] = req" by simp
  ultimately show ?thesis using s by blast
qed

end
