(* ===== verification/Ring_Spec.thy ===== *)
theory Ring_Spec
  imports Spsc
begin

text \<open>
  The concurrent ring against an atomic bounded queue. A call takes effect at one of its accesses: the
  release store of the tail publishes the element, the release store of the head takes it. A
  call that returns false takes no effect at all, also when the index it loaded was an old one.
\<close>

section \<open>The atomic queue\<close>

record 'a aqueue =
  q_items :: "'a list"
  q_in :: "'a list"
  q_out :: "'a list"

definition aq_init :: "'a aqueue \<Rightarrow> bool" where
  "aq_init q \<longleftrightarrow> q = \<lparr>q_items = [], q_in = [], q_out = []\<rparr>"

definition aq_enq :: "nat \<Rightarrow> 'a \<Rightarrow> 'a aqueue \<Rightarrow> 'a aqueue \<Rightarrow> bool" where
  "aq_enq n x q q' \<longleftrightarrow> length (q_items q) < n \<and> q' = q\<lparr>q_items := q_items q @ [x], q_in := q_in q @ [x]\<rparr>"

definition aq_deq :: "'a \<Rightarrow> 'a aqueue \<Rightarrow> 'a aqueue \<Rightarrow> bool" where
  "aq_deq x q q' \<longleftrightarrow> (\<exists>xs. q_items q = x # xs \<and> q' = q\<lparr>q_items := xs, q_out := q_out q @ [x]\<rparr>)"

definition aq_step :: "nat \<Rightarrow> 'a aqueue \<Rightarrow> 'a aqueue \<Rightarrow> bool" where
  "aq_step n q q' \<longleftrightarrow> (\<exists>x. aq_enq n x q q') \<or> (\<exists>x. aq_deq x q q')"

definition aq_of :: "'a spsc \<Rightarrow> 'a aqueue" where
  "aq_of s = \<lparr>q_items = drop (length (popped s)) (pushed s), q_in = pushed s, q_out = popped s\<rparr>"

section \<open>Effects of the accesses\<close>

definition push_effect :: "u64 \<Rightarrow> 'a spsc \<Rightarrow> 'a spsc \<Rightarrow> bool" where
  "push_effect cap s s' \<longleftrightarrow>
     (case p_pc s of P_Publish x t \<Rightarrow> aq_enq (unat cap) x (aq_of s) (aq_of s') | _ \<Rightarrow> aq_of s' = aq_of s)"

definition pop_effect :: "'a spsc \<Rightarrow> 'a spsc \<Rightarrow> bool" where
  "pop_effect s s' \<longleftrightarrow> (case c_pc s of C_Free h v \<Rightarrow> aq_deq v (aq_of s) (aq_of s') | _ \<Rightarrow> aq_of s' = aq_of s)"

lemma producer_effect:
  assumes "producer_step cap s s'" "spsc_inv cap s"
  shows "push_effect cap s s'"
  using assms(1)
proof cases
  case (p_publish x t)
  have "length (popped s) \<le> length (pushed s)" "length (pushed s) < length (popped s) + unat cap"
    using assms(2) p_publish(2) by (auto simp: spsc_defs)
  then show ?thesis using p_publish by (simp add: push_effect_def aq_enq_def aq_of_def)
qed (simp_all add: push_effect_def aq_of_def)

lemma consumer_effect:
  assumes "consumer_step cap s s'" "spsc_inv cap s"
  shows "pop_effect s s'"
  using assms(1)
proof cases
  case (c_free h v)
  have "length (popped s) < length (pushed s)" "v = pushed s ! length (popped s)"
    using assms(2) c_free(2) by (auto simp: spsc_defs)
  then show ?thesis using c_free by (simp add: pop_effect_def aq_deq_def aq_of_def Cons_nth_drop_Suc [symmetric])
qed (simp_all add: pop_effect_def aq_of_def)

lemma effect_step:
  "push_effect cap s s' \<Longrightarrow> aq_of s' = aq_of s \<or> aq_step (unat cap) (aq_of s) (aq_of s')"
  "pop_effect s s' \<Longrightarrow> aq_of s' = aq_of s \<or> aq_step (unat cap) (aq_of s) (aq_of s')"
  by (auto simp: push_effect_def pop_effect_def aq_step_def split: ppc.splits cpc.splits)

interpretation ring_sim: simulation "spsc_init cap" "spsc_step cap" "\<lambda>s. pow2_assert cap \<and> spsc_inv cap s" aq_of
  aq_init "aq_step (unat cap)" for cap
proof unfold_locales
  fix s t :: "'a spsc"
  show "pow2_assert cap \<and> spsc_inv cap s" if "reach (spsc_init cap) (spsc_step cap) s" using spsc.reach_inv [OF that] .
  show "aq_init (aq_of s)" if "spsc_init cap s"
    using that by (auto simp: spsc_init_def spsc_new_def aq_of_def aq_init_def)
  show "aq_of t = aq_of s \<or> aq_step (unat cap) (aq_of s) (aq_of t)"
    if "pow2_assert cap \<and> spsc_inv cap s" "spsc_step cap s t"
    using that producer_effect consumer_effect effect_step unfolding spsc_step_def by blast
qed

section \<open>Refused calls\<close>

text \<open>A thread loads the other side's index only when its cached copy shows a full or an empty ring.\<close>

definition looked :: "u64 \<Rightarrow> 'a spsc \<Rightarrow> bool" where
  "looked cap s \<longleftrightarrow> (case p_pc s of P_Refresh x t \<Rightarrow> t - head_cache s = cap | _ \<Rightarrow> True) \<and>
     (case c_pc s of C_Refresh h \<Rightarrow> h = tail_cache s | _ \<Rightarrow> True)"

interpretation looked: inductive_invariant "spsc_init cap" "spsc_step cap" "looked cap" for cap
proof unfold_locales
  fix s t :: "'a spsc"
  show "looked cap s" if "spsc_init cap s" using that by (auto simp: spsc_init_def spsc_new_def looked_def)
  show "looked cap t" if "looked cap s" "spsc_step cap s t"
    using that unfolding spsc_step_def
    by (elim disjE producer_step.cases consumer_step.cases) (auto simp: looked_def split: ppc.splits cpc.splits)
qed

lemma refused_keeps:
  assumes "reach (spsc_init cap) (spsc_step cap) s"
  shows "p_pc s = P_Refresh x t \<Longrightarrow> producer_step cap s s' \<Longrightarrow> t - head_cache s' = cap \<Longrightarrow> spsc_ring s' = spsc_ring s"
    and "c_pc s = C_Refresh h \<Longrightarrow> consumer_step cap s s' \<Longrightarrow> h = tail_cache s' \<Longrightarrow> spsc_ring s' = spsc_ring s"
proof -
  note L = looked.reach_inv [OF assms, unfolded looked_def]
  show "spsc_ring s' = spsc_ring s" if "p_pc s = P_Refresh x t" "producer_step cap s s'" "t - head_cache s' = cap"
    using that(2,1,3) L by cases (auto simp: spsc_ring_def)
  show "spsc_ring s' = spsc_ring s" if "c_pc s = C_Refresh h" "consumer_step cap s s'" "h = tail_cache s'"
    using that(2,1,3) L by cases (auto simp: spsc_ring_def)
qed

section \<open>Properties\<close>

text \<open>
  C5. The ring is linearizable. Under every interleaving and with loads that may be stale, a reachable
  ring is a reachable atomic bounded queue; the release store of the tail is the atomic insertion
  of the call's element, the release store of the head is the atomic removal of the element the
  call returns, and no other access changes the queue. A call that loads an index and then
  reports full or empty leaves every member of the ring as it was.
\<close>

theorem spsc_linearizable:
  assumes "reach (spsc_init cap) (spsc_step cap) s"
  shows "reach aq_init (aq_step (unat cap)) (aq_of s) \<and>
    (\<forall>s'. producer_step cap s s' \<longrightarrow> push_effect cap s s' \<and>
       (\<forall>x t. p_pc s = P_Refresh x t \<and> t - head_cache s' = cap \<longrightarrow> spsc_ring s' = spsc_ring s)) \<and>
    (\<forall>s'. consumer_step cap s s' \<longrightarrow> pop_effect s s' \<and>
       (\<forall>h. c_pc s = C_Refresh h \<and> h = tail_cache s' \<longrightarrow> spsc_ring s' = spsc_ring s))"
proof -
  have inv: "spsc_inv cap s" using spsc.reach_inv [OF assms] by blast
  show ?thesis
    using ring_sim.reach_abs [OF assms] producer_effect [OF _ inv] consumer_effect [OF _ inv] refused_keeps [OF assms] by blast
qed

theorem spsc_linearizable_witness:
  "\<exists>s. reach (spsc_init 2) (spsc_step 2) s \<and> aq_of s = \<lparr>q_items = [7 :: nat], q_in = [7], q_out = []\<rparr> \<and>
     reach aq_init (aq_step (unat (2 :: u64))) (aq_of s)"
proof -
  obtain s :: "nat spsc" where s: "reach (spsc_init 2) (spsc_step 2) s" "pushed s = [7]" "popped s = []"
    using spsc_run_push_example by blast
  then show ?thesis using spsc_linearizable [OF s(1)] by (intro exI [of _ s]) (simp add: aq_of_def)
qed

end
