(* ===== verification/Tests.thy ===== *)
theory Tests
  imports Hist Ring_Spec
begin

text \<open>
  \<^verbatim>\<open>tests/test_hist.cpp\<close> and \<^verbatim>\<open>tests/test_spsc.cpp\<close>: the unit tests as programs over the modelled
  headers. A test body is a truth value, the conjunction of its expectations; the threaded test is a
  machine of its two threads over the ring's atomic accesses.
\<close>

section \<open>Histogram\<close>

text \<open>\<^verbatim>\<open>EXPECT_NEAR(a, b, b * 0.05)\<close>.\<close>

definition near :: "u64 \<Rightarrow> nat \<Rightarrow> bool" where
  "near a b \<longleftrightarrow> 20 * unat a \<le> 21 * b \<and> 19 * b \<le> 20 * unat a"

definition test_percentiles_approx :: bool where
  "test_percentiles_approx =
     (case cpp_bind (hist_records (map of_nat [1..<1001]) hist_new) hist_snapshot of
        Inl e \<Rightarrow> False
      | Inr s \<Rightarrow> s_count s = 1000 \<and> near (s_p50 s) 500 \<and> near (s_p99 s) 990 \<and> 1000 \<le> s_max s \<and> near (s_mean s) 500)"

definition test_sub_bucket :: bool where
  "test_sub_bucket =
     (case (bucket_of 770, bucket_of 800) of (Inr b770, Inr b800) \<Rightarrow> b770 \<noteq> b800 \<and> value_of b770 < value_of b800 | _ \<Rightarrow> False)"

definition test_linear_region :: bool where
  "test_linear_region = list_all (\<lambda>v. case bucket_of (of_nat v) of Inr b \<Rightarrow> value_of b = of_nat v | Inl e \<Rightarrow> False) [0..<kLinear]"

lemma unat_small: "n < 2 ^ 40 \<Longrightarrow> unat (of_nat n :: u64) = n"
  by (intro unat_of_nat_u64) simp

lemma sorted_numbers: "n < 2 ^ 40 \<Longrightarrow> sorted (map of_nat [1..<n] :: u64 list)"
proof -
  assume n: "n < 2 ^ 40"
  have "unat (of_nat k :: u64) = k" if "k < n" for k using that n by (intro unat_small) simp
  then show ?thesis by (auto simp: sorted_iff_nth_mono word_le_nat_alt simp del: of_nat_Suc of_nat_add simp flip: of_nat_Suc)
qed

lemma sum_numbers: "sum_list (map of_nat [0..<n]) = (of_nat (n * (n - 1) div 2) :: 'a :: len word)"
proof -
  have "sum_list (map of_nat ks) = (of_nat (sum_list ks) :: 'a word)" for ks by (induction ks) simp_all
  moreover have "sum_list [0..<n] = n * (n - 1) div 2" by (simp add: sum_list_sum_nth gauss_sum_nat sum.atLeast0_lessThan_Suc Sum_Ico_nat)
  ultimately show ?thesis by simp
qed

lemma bucket_near: "n < 2 ^ 40 \<Longrightarrow> near (value_of (bucket_nat n)) n"
  using within_bucket [of "of_nat n"] by (auto simp: within_128th_def near_def in_range_def unat_small)

lemma numbers_upto:
  defines "xs n \<equiv> map of_nat [1..<Suc n] :: u64 list"
  shows "sum_list (xs n) = of_nat (Suc n * n div 2)" "k < n \<Longrightarrow> xs n ! k = of_nat (Suc k)" "length (xs n) = n"
    "n < 2 ^ 39 \<Longrightarrow> list_all in_range (xs n)" "0 < n \<Longrightarrow> of_nat n \<le> fold max (xs n) 0"
proof -
  have "[0..<Suc n] = 0 # [1..<Suc n]" by (simp add: upt_conv_Cons del: upt_Suc)
  then show "sum_list (xs n) = of_nat (Suc n * n div 2)" using sum_numbers [of "Suc n"] by (simp add: xs_def del: upt_Suc)
  show "k < n \<Longrightarrow> xs n ! k = of_nat (Suc k)" "length (xs n) = n" by (simp_all add: xs_def del: upt_Suc)
  show "n < 2 ^ 39 \<Longrightarrow> list_all in_range (xs n)" by (auto simp: xs_def list_all_iff in_range_def unat_small simp del: upt_Suc)
  assume "0 < n"
  then have "of_nat n \<in> set (xs n)" by (auto simp: xs_def simp del: upt_Suc)
  then show "of_nat n \<le> fold max (xs n) 0" by (metis List.finite_set Max.set_eq_fold Max_ge list.set_intros(2))
qed

lemma percentiles_approx_pass: test_percentiles_approx
proof -
  define n :: nat where "n = 1000"
  let ?xs = "map of_nat [1..<Suc n] :: u64 list"
  note N = numbers_upto [of n]
  have r: "list_all in_range ?xs" by (rule N(4)) (simp add: n_def)
  have len: "2 \<le> length ?xs" "length ?xs < 2 ^ 53" unfolding N(3) by (simp_all add: n_def)
  obtain h where h: "hist_records ?xs hist_new = Inr h" "hist_of ?xs h" using hist_records_of [OF hist_of_new r] by auto
  have s: "sort ?xs = ?xs" using sorted_numbers [of "Suc n"] by (simp add: sorted_sort_id n_def)
  have "nbits (1000 * 8917127262193582) = 63" using nbits_unique [of 62] by simp
  then have d: "scaled 1000 d99 = 990" by (simp add: d99_def scaled_eq rnd53_small) (simp add: rnd53_def excess_def rne_def Let_def)
  obtain sn where sn: "hist_snapshot h = Inr sn" "s_count sn = of_nat n" "s_mean sn = of_nat (Suc n * n div 2) div of_nat n"
    "s_p50 sn = value_of (bucket_nat (unat (?xs ! (n div 2 - 1))))" "s_p99 sn = value_of (bucket_nat (unat (?xs ! (scaled n d99 - 1))))"
    "s_max sn = fold max ?xs 0"
    using snapshot_eq [OF h(2) r len] unfolding s N(1,3) by simp
  have "?xs ! (n div 2 - 1) = 500" "?xs ! (scaled n d99 - 1) = 990" using N(2) [of 499] N(2) [of 989] by (simp_all add: n_def d)
  then have "near (s_p50 sn) 500" "near (s_p99 sn) 990" using sn(4,5) bucket_near [of 500] bucket_near [of 990] by simp_all
  moreover have "near (s_mean sn) 500" "s_count sn = 1000" "1000 \<le> s_max sn"
    using sn(2,3,6) N(5) by (simp_all add: n_def near_def)
  moreover have "[1..<1001] = [1..<Suc n]" unfolding n_def by (simp only: eval_nat_numeral)
  ultimately show ?thesis unfolding test_percentiles_approx_def using h(1) sn(1) by (simp only:) simp
qed

lemma sub_bucket_pass: test_sub_bucket
proof -
  have "octave 770 = 9" "octave 800 = 9" by (rule octave_unique; simp)+
  then have "bucket_nat 770 = 288" "bucket_nat 800 = 292" by (simp_all add: bucket_nat_def)
  then have b: "bucket_of 770 = Inr 288" "bucket_of 800 = Inr 292" using bucket_of_nat [of 770] bucket_of_nat [of 800] by (simp_all add: in_range_def)
  have "unat (value_of 288) = 772" "unat (value_of 292) = 804" by (simp_all add: unat_value_of hist_consts value_nat_def Let_def)
  then show ?thesis by (simp add: test_sub_bucket_def b word_less_nat_alt)
qed

lemma linear_region_pass: test_linear_region
proof -
  have "bucket_of (of_nat v) = Inr v \<and> value_of v = of_nat v" if "v < 128" for v
    using bucket_of_nat [of "of_nat v"] that by (simp add: in_range_def unat_small bucket_nat_def value_of_def hist_consts)
  then show ?thesis by (auto simp: test_linear_region_def list_all_iff hist_consts)
qed

section \<open>Ring\<close>

text \<open>The sequential test on a ring of capacity 8: its calls and the results it expects.\<close>

definition fifo_calls :: "nat qop list" where
  "fifo_calls = Pop # map Push [0..<8] @ [Push 99] @ replicate 8 Pop @ [Pop]"

definition test_empty_then_fifo :: bool where
  "test_empty_then_fifo \<longleftrightarrow> fst (run_ops (try_push 8) (try_pop 8) fifo_calls (ring_new 8 0)) =
     Popped None # replicate 8 (Pushed True) @ [Pushed False] @ map (\<lambda>i. Popped (Some i)) [0..<8] @ [Popped None]"

lemma empty_then_fifo_pass: test_empty_then_fifo
proof -
  have "pow2_assert (8 :: u64)" by (simp add: pow2_assert_def)
  then have ok: "ring_ok 8 (ring_new 8 0)" by (rule ring_ok_new)
  have "fst (run_ops (list_push 8) list_pop fifo_calls []) =
      Popped None # replicate 8 (Pushed True) @ [Pushed False] @ map (\<lambda>i. Popped (Some i)) [0..<8] @ [Popped None]"
    unfolding fifo_calls_def by code_simp
  then show ?thesis using ringq.run_refines [OF ok, of fifo_calls] by (simp add: test_empty_then_fifo_def)
qed

text \<open>
  The threaded test: the main thread pushes \<open>0\<close> to \<open>N - 1\<close>, each until it is accepted, and the consumer adds up what
  it pops until it has \<open>N\<close> values; every access to the ring is a step of its own.
\<close>

record test_sys =
  ts_ring :: "nat spsc"
  ts_i :: nat
  ts_got :: nat
  ts_sum :: u64

definition test_init :: "u64 \<Rightarrow> test_sys \<Rightarrow> bool" where
  "test_init cap s \<longleftrightarrow> spsc_init cap (ts_ring s) \<and> ts_i s = 0 \<and> ts_got s = 0 \<and> ts_sum s = 0"

inductive test_step :: "u64 \<Rightarrow> nat \<Rightarrow> test_sys \<Rightarrow> test_sys \<Rightarrow> bool" for cap N where
  t_push: "p_pc (ts_ring s) = P_Idle \<Longrightarrow> ts_i s < N \<Longrightarrow> p_pc r = P_Check (ts_i s) t \<Longrightarrow> producer_step cap (ts_ring s) r \<Longrightarrow>
    test_step cap N s (s\<lparr>ts_ring := r\<rparr>)"
| t_pushing: "p_pc (ts_ring s) \<noteq> P_Idle \<Longrightarrow> producer_step cap (ts_ring s) r \<Longrightarrow>
    test_step cap N s (s\<lparr>ts_ring := r, ts_i := (if pushed r = pushed (ts_ring s) then ts_i s else Suc (ts_i s))\<rparr>)"
| t_pop: "c_pc (ts_ring s) = C_Idle \<Longrightarrow> ts_got s < N \<Longrightarrow> consumer_step cap (ts_ring s) r \<Longrightarrow>
    test_step cap N s (s\<lparr>ts_ring := r\<rparr>)"
| t_popping: "c_pc (ts_ring s) \<noteq> C_Idle \<Longrightarrow> consumer_step cap (ts_ring s) r \<Longrightarrow>
    test_step cap N s (if popped r = popped (ts_ring s) then s\<lparr>ts_ring := r\<rparr>
      else s\<lparr>ts_ring := r, ts_got := Suc (ts_got s), ts_sum := ts_sum s + of_nat (last (popped r))\<rparr>)"

fun p_item :: "'a ppc \<Rightarrow> 'a option" where
  "p_item P_Idle = None"
| "p_item (P_Check x t) = Some x"
| "p_item (P_Refresh x t) = Some x"
| "p_item (P_Recheck x t) = Some x"
| "p_item (P_Write x t) = Some x"
| "p_item (P_Publish x t) = Some x"

definition test_inv :: "u64 \<Rightarrow> nat \<Rightarrow> test_sys \<Rightarrow> bool" where
  "test_inv cap N s \<longleftrightarrow> pow2_assert cap \<and> spsc_inv cap (ts_ring s) \<and> pushed (ts_ring s) = [0..<ts_i s] \<and>
     (p_item (p_pc (ts_ring s)) = None \<and> ts_i s \<le> N \<or> p_item (p_pc (ts_ring s)) = Some (ts_i s) \<and> ts_i s < N) \<and>
     ts_got s = length (popped (ts_ring s)) \<and> ts_sum s = sum_list (map of_nat (popped (ts_ring s)))"

lemma producer_item:
  assumes "producer_step cap s s'" "p_item (p_pc s) = Some x"
  shows "pushed s' = pushed s \<and> p_item (p_pc s') \<in> {None, Some x} \<or> pushed s' = pushed s @ [x] \<and> p_pc s' = P_Idle"
  using assms by cases auto

lemma consumer_pops: "consumer_step cap s s' \<Longrightarrow> popped s' = popped s \<or> (\<exists>v. popped s' = popped s @ [v])"
  by (auto elim: consumer_step.cases)

lemma idle_pops: "consumer_step cap s s' \<Longrightarrow> c_pc s = C_Idle \<Longrightarrow> popped s' = popped s"
  by (auto elim: consumer_step.cases)

lemma begin_pushes: "producer_step cap s s' \<Longrightarrow> p_pc s = P_Idle \<Longrightarrow> pushed s' = pushed s"
  by (auto elim: producer_step.cases)

interpretation test_run: inductive_invariant "test_init cap" "test_step cap N" "test_inv cap N" for cap N
proof unfold_locales
  show "test_inv cap N s" if "test_init cap s" for s
    using that spsc_inv_new by (auto simp: test_init_def test_inv_def spsc_init_def spsc_new_def)
  show "test_inv cap N s'" if inv: "test_inv cap N s" and step: "test_step cap N s s'" for s s'
    using step
  proof (cases rule: test_step.cases)
    case (t_push r t)
    then show ?thesis using inv spsc.inv_step [of cap "ts_ring s" r] producer_frame [OF t_push(5)] begin_pushes [OF t_push(5)]
      by (auto simp: test_inv_def spsc_step_def)
  next
    case (t_pushing r)
    have "p_item (p_pc (ts_ring s)) = Some (ts_i s)" using inv t_pushing(2) by (cases "p_pc (ts_ring s)") (auto simp: test_inv_def)
    then show ?thesis using inv spsc.inv_step [of cap "ts_ring s" r] producer_frame [OF t_pushing(3)] producer_item [OF t_pushing(3)] t_pushing
      by (auto simp: test_inv_def spsc_step_def)
  next
    case (t_pop r)
    then show ?thesis using inv spsc.inv_step [of cap "ts_ring s" r] consumer_frame [OF t_pop(4)] idle_pops [OF t_pop(4)]
      by (auto simp: test_inv_def spsc_step_def)
  next
    case (t_popping r)
    then show ?thesis using inv spsc.inv_step [of cap "ts_ring s" r] consumer_frame [OF t_popping(3)] consumer_pops [OF t_popping(3)]
      by (auto simp: test_inv_def spsc_step_def)
  qed
qed

text \<open>The expectation of the threaded test: whenever the consumer has its million values, their sum is that of 0 to 999999.\<close>

lemma threaded_sum:
  assumes "reach (test_init cap) (test_step cap N) s" "ts_got s = N"
  shows "ts_sum s = of_nat (N * (N - 1) div 2)"
proof -
  let ?r = "ts_ring s"
  have inv: "test_inv cap N s" by (rule test_run.reach_inv [OF assms(1)])
  have "popped ?r = take (length (popped ?r)) (pushed ?r)" "length (popped ?r) \<le> length (pushed ?r)"
    using fifo_inv [of cap ?r] inv by (auto simp: test_inv_def)
  moreover have "length (popped ?r) = N" "pushed ?r = [0..<ts_i s]" using inv assms(2) by (simp_all add: test_inv_def)
  ultimately have "popped ?r = [0..<N]" by simp
  then show ?thesis using inv sum_numbers [of N] by (simp add: test_inv_def)
qed

text \<open>The test can finish from every state it reaches: a call in progress ends, and a push into the empty ring or a pop from a non-empty one succeeds.\<close>

definition pushing :: "u64 \<Rightarrow> 'a spsc \<Rightarrow> 'a spsc \<Rightarrow> bool" where
  "pushing cap r r' \<longleftrightarrow> p_pc r \<noteq> P_Idle \<and> producer_step cap r r'"

lemma push_lift:
  assumes "(pushing cap)\<^sup>*\<^sup>* (ts_ring s) r"
  shows "\<exists>s'. (test_step cap N)\<^sup>*\<^sup>* s s' \<and> ts_ring s' = r \<and> ts_got s' = ts_got s"
  using assms
proof (induction rule: rtranclp_induct)
  case (step r1 r2)
  then obtain s1 where s1: "(test_step cap N)\<^sup>*\<^sup>* s s1" "ts_ring s1 = r1" "ts_got s1 = ts_got s" by blast
  let ?s2 = "s1\<lparr>ts_ring := r2, ts_i := (if pushed r2 = pushed (ts_ring s1) then ts_i s1 else Suc (ts_i s1))\<rparr>"
  have "test_step cap N s1 ?s2" by (rule t_pushing) (use step.hyps(2) s1(2) in \<open>simp_all add: pushing_def\<close>)
  from rtranclp.rtrancl_into_rtrancl [OF s1(1) this] show ?case using s1(3) by (intro exI [of _ ?s2]) simp
qed auto

lemma pop_lift:
  assumes "(consumer_step cap)\<^sup>*\<^sup>* (ts_ring s) r"
  shows "\<exists>s'. (test_step cap N)\<^sup>*\<^sup>* s s' \<and> (N \<le> ts_got s' \<or> ts_ring s' = r)"
  using assms
proof (induction rule: rtranclp_induct)
  case (step r1 r2)
  then obtain s1 where s1: "(test_step cap N)\<^sup>*\<^sup>* s s1" "N \<le> ts_got s1 \<or> ts_ring s1 = r1" by blast
  show ?case
  proof (cases "N \<le> ts_got s1")
    case False
    then have "ts_ring s1 = r1" using s1(2) by blast
    then have "\<exists>s2. test_step cap N s1 s2 \<and> ts_ring s2 = r2"
      using t_pop [of s1 N cap r2] t_popping [of s1 cap r2 N] False step.hyps(2) by (cases "c_pc r1 = C_Idle") (fastforce split: if_splits)+
    then obtain s2 where s2: "test_step cap N s1 s2" "ts_ring s2 = r2" by blast
    then show ?thesis using rtranclp.rtrancl_into_rtrancl [OF s1(1) s2(1)] by blast
  qed (use s1(1) in blast)
qed auto

lemma finish_push:
  "spsc_inv cap r \<Longrightarrow> pow2_assert cap \<Longrightarrow>
   \<exists>r'. (pushing cap)\<^sup>*\<^sup>* r r' \<and> p_pc r' = P_Idle"
proof (induction "p_rank (p_pc r)" arbitrary: r rule: less_induct)
  case less
  let ?st = "pushing cap"
  show ?case
  proof (cases "p_pc r = P_Idle")
    case False
    obtain r1 where r1: "producer_step cap r r1" using producer_enabled [OF less.prems(1)] by blast
    have "spsc_inv cap r1" using spsc.inv_step [of cap r r1] less.prems r1 by (auto simp: spsc_step_def)
    then obtain r' where r': "?st\<^sup>*\<^sup>* r1 r'" "p_pc r' = P_Idle" using less.hyps [OF producer_rank [OF r1 False]] less.prems(2) by blast
    have "?st\<^sup>*\<^sup>* r r'" by (rule converse_rtranclp_into_rtranclp [OF _ r'(1)]) (use r1 False in \<open>simp add: pushing_def\<close>)
    then show ?thesis using r'(2) by blast
  qed blast
qed

lemma finish_pop: "spsc_inv cap r \<Longrightarrow> pow2_assert cap \<Longrightarrow> \<exists>r'. (consumer_step cap)\<^sup>*\<^sup>* r r' \<and> c_pc r' = C_Idle"
proof (induction "c_rank (c_pc r)" arbitrary: r rule: less_induct)
  case less
  show ?case
  proof (cases "c_pc r = C_Idle")
    case False
    obtain r1 where r1: "consumer_step cap r r1" using consumer_enabled [OF less.prems(1)] by blast
    have "spsc_inv cap r1" using spsc.inv_step [of cap r r1] less.prems r1 by (auto simp: spsc_step_def)
    then obtain r' where "(consumer_step cap)\<^sup>*\<^sup>* r1 r'" "c_pc r' = C_Idle" using less.hyps [OF consumer_rank [OF r1 False]] less.prems(2) by blast
    then show ?thesis using converse_rtranclp_into_rtranclp [of "consumer_step cap", OF r1] by blast
  qed blast
qed

lemma push_empty:
  assumes inv: "spsc_inv cap r" and cap: "cap \<noteq> 0" and at: "p_pc r = P_Check x (last (tail_mo r))"
    and empty: "length (popped r) = length (pushed r)"
  shows "\<exists>r'. (pushing cap)\<^sup>*\<^sup>* r r' \<and> p_pc r' = P_Idle \<and>
    pushed r' = pushed r @ [x] \<and> popped r' = popped r \<and> c_pc r' = c_pc r"
proof -
  let ?st = "pushing cap" and ?t = "last (tail_mo r)" and ?n = "length (popped r)"
  have ix: "idx_ok cap r" using inv by (simp add: spsc_inv_def)
  note U = idx_ok_unfold [OF ix]
  have wr: "\<exists>r'. ?st\<^sup>*\<^sup>* u r' \<and> p_pc r' = P_Idle \<and> pushed r' = pushed u @ [x] \<and> popped r' = popped u \<and> c_pc r' = c_pc u"
    if at: "p_pc u = P_Write x ?t" for u
  proof -
    let ?u1 = "u\<lparr>slots := (slots u)[slot_of cap ?t := x], p_pc := P_Publish x ?t\<rparr>"
    let ?u2 = "?u1\<lparr>tail_mo := tail_mo ?u1 @ [?t + 1], pushed := pushed ?u1 @ [x], p_pc := P_Idle\<rparr>"
    have "?st u ?u1" using at p_write [OF at, of cap] by (simp add: pushing_def)
    moreover have "?st ?u1 ?u2" using p_publish [of ?u1 x ?t cap] by (simp add: pushing_def)
    ultimately have "?st\<^sup>*\<^sup>* u ?u2" using converse_rtranclp_into_rtranclp [of ?st u ?u1 ?u2] by blast
    then show ?thesis by (intro exI [of _ ?u2]) simp
  qed
  show ?thesis
  proof (cases "?t - head_cache r = cap")
    case False
    have st: "?st r (r\<lparr>p_pc := P_Write x ?t\<rparr>)" using at p_has_room [OF at False] by (simp add: pushing_def)
    obtain r' where "?st\<^sup>*\<^sup>* (r\<lparr>p_pc := P_Write x ?t\<rparr>) r'" "p_pc r' = P_Idle" "pushed r' = pushed r @ [x]" "popped r' = popped r" "c_pc r' = c_pc r"
      using wr [of "r\<lparr>p_pc := P_Write x ?t\<rparr>"] by auto
    then show ?thesis using converse_rtranclp_into_rtranclp [of ?st, OF st] by blast
  next
    case True
    let ?r1 = "r\<lparr>p_pc := P_Refresh x ?t\<rparr>"
    let ?r2 = "?r1\<lparr>head_cache := head_mo ?r1 ! ?n, p_view := ?n, p_pc := P_Recheck x ?t\<rparr>"
    let ?r3 = "?r2\<lparr>p_pc := P_Write x ?t\<rparr>"
    have n: "p_view r \<le> ?n" "?n < length (head_mo r)" "head_mo r ! ?n = of_nat ?n" using ix U(3) [of ?n] by (auto simp: idx_ok_def)
    have "?st r ?r1" using at p_looks_full [OF at True] by (simp add: pushing_def)
    moreover have "?st ?r1 ?r2" using p_refresh [of ?r1 x ?t ?n cap] n by (simp add: pushing_def)
    moreover have "?st ?r2 ?r3" using p_freed [of ?r2 x ?t cap] n(3) U(1) empty cap by (simp add: pushing_def)
    ultimately have run: "?st\<^sup>*\<^sup>* r ?r3"
      using converse_rtranclp_into_rtranclp [of ?st r ?r1 ?r3] converse_rtranclp_into_rtranclp [of ?st ?r1 ?r2 ?r3] by blast
    obtain r' where "?st\<^sup>*\<^sup>* ?r3 r'" "p_pc r' = P_Idle" "pushed r' = pushed r @ [x]" "popped r' = popped r" "c_pc r' = c_pc r"
      using wr [of ?r3] by auto
    then show ?thesis using rtranclp_trans [of ?st, OF run] by blast
  qed
qed

lemma pop_nonempty:
  assumes inv: "spsc_inv cap r" and at: "c_pc r = C_Idle" and some: "length (popped r) < length (pushed r)"
  shows "\<exists>r'. (consumer_step cap)\<^sup>*\<^sup>* r r' \<and> length (popped r') = Suc (length (popped r))"
proof -
  have ix: "idx_ok cap r" using inv by (simp add: spsc_inv_def)
  have le: "length (pushed r) - length (popped r) < 2 ^ 64"
    using ix unat_u64_less [of cap] by (auto simp: idx_ok_def)
  have "of_nat (length (pushed r)) - of_nat (length (popped r)) = (0 :: u64) \<longleftrightarrow> length (pushed r) - length (popped r) = unat (0 :: u64)"
    by (rule of_nat_diff_eq_iff [OF _ le]) (use some in simp)
  then have "last (head_mo r) \<noteq> last (tail_mo r)" unfolding idx_ok_unfold(1,2) [OF ix] using some by auto
  then have "\<exists>v. fst (try_pop cap (spsc_ring r)) = Some v" by (auto simp: try_pop_def spsc_ring_def Let_def)
  then show ?thesis using try_pop_run [OF inv at] by fastforce
qed

lemma pop_next:
  assumes inv: "spsc_inv cap r" and cap: "pow2_assert cap" and some: "length (popped r) < length (pushed r)"
  shows "\<exists>r'. (consumer_step cap)\<^sup>*\<^sup>* r r' \<and> length (popped r) < length (popped r')"
proof -
  obtain r1 where r1: "(consumer_step cap)\<^sup>*\<^sup>* r r1" "c_pc r1 = C_Idle" using finish_pop [OF inv cap] by blast
  have "spsc_inv cap r1 \<and> pushed r1 = pushed r \<and> length (popped r) \<le> length (popped r1)"
    using r1(1)
  proof (induction rule: rtranclp_induct)
    case (step r2 r3)
    then show ?case using spsc.inv_step [of cap r2 r3] cap consumer_frame [OF step.hyps(2)] consumer_pops [OF step.hyps(2)]
      by (auto simp: spsc_step_def)
  qed (use inv in simp)
  note r1' = this
  show ?thesis
  proof (cases "length (popped r1) = length (popped r)")
    case True
    then obtain r2 where "(consumer_step cap)\<^sup>*\<^sup>* r1 r2" "length (popped r2) = Suc (length (popped r1))"
      using pop_nonempty [of cap r1] r1' r1(2) some by auto
    then show ?thesis using True rtranclp_trans [OF r1(1)] by (intro exI [of _ r2]) auto
  qed (use r1' r1(1) in \<open>intro exI [of _ r1], simp\<close>)
qed

lemma test_progress:
  assumes inv: "test_inv cap N s" and cap: "cap \<noteq> 0" and lt: "ts_got s < N"
  shows "\<exists>s'. (test_step cap N)\<^sup>*\<^sup>* s s' \<and> ts_got s < ts_got s'"
proof -
  let ?steps = "(test_step cap N)\<^sup>*\<^sup>*"
  have I: "pow2_assert cap" "spsc_inv cap (ts_ring s)" using inv by (simp_all add: test_inv_def)
  obtain r1 where r1: "(pushing cap)\<^sup>*\<^sup>* (ts_ring s) r1" "p_pc r1 = P_Idle"
    using finish_push [OF I(2,1)] by blast
  obtain s1 where s1: "?steps s s1" "ts_ring s1 = r1" "ts_got s1 = ts_got s" using push_lift [OF r1(1), of N] by blast
  have inv1: "test_inv cap N s1" by (rule test_run.steps_inv [OF s1(1) inv])
  have "\<exists>s2. ?steps s1 s2 \<and> ts_got s2 = ts_got s \<and> ts_got s2 < ts_i s2"
  proof (cases "ts_got s1 < ts_i s1")
    case False
    have "length (popped r1) \<le> length (pushed r1)" using fifo_inv [of cap r1] inv1 s1(2) by (auto simp: test_inv_def)
    then have e: "length (popped r1) = length (pushed r1)" "ts_i s1 < N"
      using False inv1 s1(2,3) lt by (auto simp: test_inv_def)
    let ?r = "r1\<lparr>p_pc := P_Check (ts_i s1) (last (tail_mo r1))\<rparr>"
    have st: "test_step cap N s1 (s1\<lparr>ts_ring := ?r\<rparr>)"
      by (rule t_push [where t = "last (tail_mo r1)"]) (use s1(2) r1(2) e(2) p_begin [OF r1(2)] in simp_all)
    have "test_inv cap N (s1\<lparr>ts_ring := ?r\<rparr>)" by (rule test_run.inv_step [OF inv1 st])
    then have "spsc_inv cap ?r" by (simp add: test_inv_def)
    from push_empty [OF this cap] obtain r' where r': "(pushing cap)\<^sup>*\<^sup>* ?r r'"
      "pushed r' = pushed r1 @ [ts_i s1]" using e(1) by auto
    obtain s2 where s2: "?steps (s1\<lparr>ts_ring := ?r\<rparr>) s2" "ts_ring s2 = r'" "ts_got s2 = ts_got s1"
      using push_lift [of cap "s1\<lparr>ts_ring := ?r\<rparr>" r' N] r'(1) by auto
    have run: "?steps s1 s2" by (rule converse_rtranclp_into_rtranclp [OF st s2(1)])
    have "length (pushed r1) = ts_i s1" "length (pushed r') = ts_i s2"
      using inv1 test_run.steps_inv [OF run inv1] s1(2) s2(2) by (simp_all add: test_inv_def)
    then have "ts_i s2 = Suc (ts_i s1)" using r'(2) by simp
    moreover have "ts_got s1 = ts_i s1" using inv1 s1(2) e(1) by (simp add: test_inv_def)
    ultimately show ?thesis using run s2(3) s1(3) by (intro exI [of _ s2]) simp
  qed (use s1(3) in auto)
  then obtain s2 where s2: "?steps s1 s2" "ts_got s2 = ts_got s" "ts_got s2 < ts_i s2" by blast
  have run2: "?steps s s2" by (rule rtranclp_trans [OF s1(1) s2(1)])
  have inv2: "test_inv cap N s2" by (rule test_run.steps_inv [OF run2 inv])
  then have J: "spsc_inv cap (ts_ring s2)" by (simp add: test_inv_def)
  obtain r3 where r3: "(consumer_step cap)\<^sup>*\<^sup>* (ts_ring s2) r3" "length (popped (ts_ring s2)) < length (popped r3)"
    using pop_next [OF J I(1)] inv2 s2(3) by (auto simp: test_inv_def)
  obtain s3 where s3: "?steps s2 s3" "N \<le> ts_got s3 \<or> ts_ring s3 = r3" using pop_lift [OF r3(1)] by blast
  have "test_inv cap N s3" by (rule test_run.steps_inv [OF s3(1) inv2])
  then have "ts_got s < ts_got s3" using s3(2) r3(2) inv2 lt s2(2) by (auto simp: test_inv_def)
  then show ?thesis using rtranclp_trans [OF run2 s3(1)] by blast
qed

lemma threaded_finishes:
  assumes "reach (test_init cap) (test_step cap N) s" "cap \<noteq> 0"
  shows "\<exists>s'. (test_step cap N)\<^sup>*\<^sup>* s s' \<and> ts_got s' = N"
  using test_run.reach_inv [OF assms(1)]
proof (induction "N - ts_got s" arbitrary: s rule: less_induct)
  case less
  have le: "ts_got s \<le> N" using less.prems fifo_inv [of cap "ts_ring s"] by (auto simp: test_inv_def)
  show ?case
  proof (cases "ts_got s = N")
    case False
    then obtain s1 where s1: "(test_step cap N)\<^sup>*\<^sup>* s s1" "ts_got s < ts_got s1" using test_progress [OF less.prems assms(2)] le by auto
    have m: "N - ts_got s1 < N - ts_got s" using s1(2) False le by linarith
    obtain s' where "(test_step cap N)\<^sup>*\<^sup>* s1 s'" "ts_got s' = N"
      using less.hyps [OF m test_run.steps_inv [OF s1(1) less.prems]] by blast
    then show ?thesis using rtranclp_trans [OF s1(1)] by blast
  qed blast
qed

section \<open>Properties\<close>

text \<open>
  C40. The unit tests. The expectations of the three histogram tests and of the sequential ring test hold. In the threaded ring
  test, with a ring of 1024 slots and a million numbers, whatever the interleaving and however out of date the loaded
  indices are, the sum is the expected one whenever the consumer is done, and from every state the threads
  can go on until it is.
\<close>

theorem unit_tests_pass:
  "test_percentiles_approx \<and> test_sub_bucket \<and> test_linear_region \<and> test_empty_then_fifo \<and>
   (\<forall>s. reach (test_init 1024) (test_step 1024 1000000) s \<longrightarrow>
     (ts_got s = 1000000 \<longrightarrow> sint (ts_sum s) = 1000000 * (1000000 - 1) div 2) \<and>
     (\<exists>s'. (test_step 1024 1000000)\<^sup>*\<^sup>* s s' \<and> ts_got s' = 1000000))"
  using threaded_sum [of 1024 1000000] threaded_finishes [of 1024 1000000]
  by (auto simp: percentiles_approx_pass sub_bucket_pass linear_region_pass empty_then_fifo_pass)

theorem unit_tests_pass_witness:
  "\<exists>s. reach (test_init 1024) (test_step 1024 1000000) s \<and> ts_got s = 1000000 \<and> sint (ts_sum s) = 499999500000"
proof -
  let ?s = "\<lparr>ts_ring = spsc_new 1024 0, ts_i = 0, ts_got = 0, ts_sum = 0\<rparr>"
  have r: "reach (test_init 1024) (test_step 1024 1000000) ?s"
    by (rule reach_init) (auto simp: test_init_def spsc_init_def pow2_assert_def)
  then obtain s where s: "(test_step 1024 1000000)\<^sup>*\<^sup>* ?s s" "ts_got s = 1000000" using unit_tests_pass r by blast
  then show ?thesis using unit_tests_pass reach_rtranclp [OF s(1) r] by fastforce
qed

end
