(* ===== verification/Flatmap.thy ===== *)
theory Flatmap
  imports Interfaces
begin

text \<open>
  \<^verbatim>\<open>include/flatmap.hpp\<close>: the open-addressing map. \<^verbatim>\<open>put\<close> and \<^verbatim>\<open>get\<close> are the probe loops of
  the code, over a list of slots; the template argument \<^verbatim>\<open>Cap\<close> is the parameter \<open>cap\<close>.
\<close>

record 'v slot =
  skey :: u64
  sval :: 'v
  sused :: bool

record 'v flatmap =
  fslots :: "'v slot list"
  fsize :: u64

definition flatmap_new :: "u64 \<Rightarrow> 'v \<Rightarrow> 'v flatmap" where
  "flatmap_new cap d = \<lparr>fslots = replicate (unat cap) \<lparr>skey = 0, sval = d, sused = False\<rparr>, fsize = 0\<rparr>"

definition fm_hash :: "u64 \<Rightarrow> u64 \<Rightarrow> u64" where
  "fm_hash cap k = drop_bit 1 (k * 0x9E3779B97F4A7C15) AND (cap - 1)"

definition fm_store :: "nat \<Rightarrow> u64 \<Rightarrow> 'v \<Rightarrow> 'v flatmap \<Rightarrow> 'v flatmap" where
  "fm_store i key val m =
     m\<lparr>fsize := (if sused (fslots m ! i) then fsize m else fsize m + 1),
       fslots := (fslots m)[i := \<lparr>skey = key, sval = val, sused = True\<rparr>]\<rparr>"

fun put_loop :: "u64 \<Rightarrow> u64 \<Rightarrow> 'v \<Rightarrow> nat \<Rightarrow> u64 \<Rightarrow> 'v flatmap \<Rightarrow> bool \<times> 'v flatmap" where
  "put_loop cap key val 0 i m = (False, m)"
| "put_loop cap key val (Suc n) i m =
     (let s = fslots m ! unat i
      in if \<not> sused s \<or> skey s = key then (True, fm_store (unat i) key val m)
         else put_loop cap key val n ((i + 1) AND (cap - 1)) m)"

definition fm_put :: "u64 \<Rightarrow> u64 \<Rightarrow> 'v \<Rightarrow> 'v flatmap \<Rightarrow> bool \<times> 'v flatmap" where
  "fm_put cap key val m = put_loop cap key val (unat cap) (fm_hash cap key) m"

fun get_loop :: "u64 \<Rightarrow> u64 \<Rightarrow> nat \<Rightarrow> u64 \<Rightarrow> 'v flatmap \<Rightarrow> 'v option" where
  "get_loop cap key 0 i m = None"
| "get_loop cap key (Suc n) i m =
     (let s = fslots m ! unat i
      in if \<not> sused s then None
         else if skey s = key then Some (sval s)
         else get_loop cap key n ((i + 1) AND (cap - 1)) m)"

definition fm_get :: "u64 \<Rightarrow> u64 \<Rightarrow> 'v flatmap \<Rightarrow> 'v option" where
  "fm_get cap key m = get_loop cap key (unat cap) (fm_hash cap key) m"

definition fm_size :: "'v flatmap \<Rightarrow> u64" where
  "fm_size m = fsize m"

text \<open>
  The slot at distance \<open>j\<close> from a start, where a probe stops, and the invariant: an
  occupied slot is reached from its key's hash through occupied slots of other keys.
\<close>

definition fm_at :: "u64 \<Rightarrow> 'v flatmap \<Rightarrow> nat \<Rightarrow> nat \<Rightarrow> 'v slot" where
  "fm_at cap m h j = fslots m ! ((h + j) mod unat cap)"

definition stops :: "u64 \<Rightarrow> 'v slot \<Rightarrow> bool" where
  "stops key s \<longleftrightarrow> \<not> sused s \<or> skey s = key"

definition home :: "u64 \<Rightarrow> u64 \<Rightarrow> nat" where
  "home cap k = unat (fm_hash cap k)"

definition used_idx :: "'v flatmap \<Rightarrow> nat set" where
  "used_idx m = {i. i < length (fslots m) \<and> sused (fslots m ! i)}"

definition fm_ok :: "u64 \<Rightarrow> 'v flatmap \<Rightarrow> bool" where
  "fm_ok cap m \<longleftrightarrow> pow2_assert cap \<and> length (fslots m) = unat cap \<and>
     fsize m = of_nat (card (used_idx m)) \<and>
     (\<forall>i \<in> used_idx m. \<exists>j < unat cap. i = (home cap (skey (fslots m ! i)) + j) mod unat cap \<and>
        (\<forall>l < j. \<not> stops (skey (fslots m ! i)) (fm_at cap m (home cap (skey (fslots m ! i))) l)))"

section \<open>Probe sequences\<close>

lemma next_probe:
  fixes cap i :: u64
  assumes "cap \<noteq> 0" "pow2_assert cap" "unat i < unat cap"
  shows "unat ((i + 1) AND (cap - 1)) = (unat i + 1) mod unat cap"
proof -
  have "unat i + 1 < 2 ^ 64" using assms(3) unat_u64_less [of cap] by linarith
  then have "unat (i + 1) = unat i + 1" by (simp add: unat_add_lem [THEN iffD1])
  then show ?thesis using unat_and_pred_pow2 [OF assms(1,2)] by metis
qed

lemma probe_shift: "(Suc h mod c + j) mod c = (h + Suc j) mod (c::nat)"
  by (metis add_Suc_shift mod_add_left_eq)

lemma home_less: "cap \<noteq> 0 \<Longrightarrow> pow2_assert cap \<Longrightarrow> home cap k < unat cap"
  by (simp add: home_def fm_hash_def unat_and_pred_pow2 unat_gt_0)

lemma put_loop_full:
  assumes c: "cap \<noteq> 0" "pow2_assert cap" and "unat i < unat cap"
    and "\<And>j. j < n \<Longrightarrow> \<not> stops key (fm_at cap m (unat i) j)"
  shows "put_loop cap key val n i m = (False, m)"
  using assms(3,4)
proof (induction n arbitrary: i)
  case (Suc n)
  have "\<not> stops key (fslots m ! unat i)"
    using Suc.prems(2) [of 0] Suc.prems(1) by (simp add: fm_at_def)
  moreover have "put_loop cap key val n ((i + 1) AND (cap - 1)) m = (False, m)"
  proof (rule Suc.IH)
    show "unat ((i + 1) AND (cap - 1)) < unat cap"
      using c Suc.prems(1) by (simp add: next_probe)
    show "\<not> stops key (fm_at cap m (unat ((i + 1) AND (cap - 1))) j)" if "j < n" for j
      using Suc.prems(2) [of "Suc j"] that next_probe [OF c Suc.prems(1)]
      by (simp add: fm_at_def probe_shift)
  qed
  ultimately show ?case by (simp add: stops_def)
qed simp

lemma put_loop_stop:
  assumes c: "cap \<noteq> 0" "pow2_assert cap" and "unat i < unat cap" "j < n"
    and "\<And>l. l < j \<Longrightarrow> \<not> stops key (fm_at cap m (unat i) l)" "stops key (fm_at cap m (unat i) j)"
  shows "put_loop cap key val n i m = (True, fm_store ((unat i + j) mod unat cap) key val m)"
  using assms(3-6)
proof (induction n arbitrary: i j)
  case (Suc n)
  show ?case
  proof (cases j)
    case 0
    then show ?thesis using Suc.prems by (simp add: stops_def fm_at_def)
  next
    case (Suc j')
    note np = next_probe [OF c Suc.prems(1)]
    have "\<not> stops key (fslots m ! unat i)"
      using Suc.prems(3) [of 0] Suc.prems(1) Suc by (simp add: fm_at_def)
    moreover have "put_loop cap key val n ((i + 1) AND (cap - 1)) m =
        (True, fm_store ((unat ((i + 1) AND (cap - 1)) + j') mod unat cap) key val m)"
    proof (rule Suc.IH)
      show "unat ((i + 1) AND (cap - 1)) < unat cap" using c Suc.prems(1) np by simp
      show "\<not> stops key (fm_at cap m (unat ((i + 1) AND (cap - 1))) l)" if "l < j'" for l
        using Suc.prems(3) [of "Suc l"] that Suc np by (simp add: fm_at_def probe_shift)
      show "stops key (fm_at cap m (unat ((i + 1) AND (cap - 1))) j')"
        using Suc.prems(4) Suc np by (simp add: fm_at_def probe_shift)
    qed (use Suc.prems(2) Suc in simp)
    ultimately show ?thesis using np Suc by (simp add: stops_def probe_shift)
  qed
qed simp

lemma get_loop_full:
  assumes c: "cap \<noteq> 0" "pow2_assert cap" and "unat i < unat cap"
    and "\<And>j. j < n \<Longrightarrow> \<not> stops key (fm_at cap m (unat i) j)"
  shows "get_loop cap key n i m = None"
  using assms(3,4)
proof (induction n arbitrary: i)
  case (Suc n)
  note np = next_probe [OF c Suc.prems(1)]
  have "\<not> stops key (fslots m ! unat i)"
    using Suc.prems(2) [of 0] Suc.prems(1) by (simp add: fm_at_def)
  moreover have "get_loop cap key n ((i + 1) AND (cap - 1)) m = None"
  proof (rule Suc.IH)
    show "unat ((i + 1) AND (cap - 1)) < unat cap" using c Suc.prems(1) by (simp add: next_probe)
    show "\<not> stops key (fm_at cap m (unat ((i + 1) AND (cap - 1))) j)" if "j < n" for j
      using Suc.prems(2) [of "Suc j"] that np by (simp add: fm_at_def probe_shift)
  qed
  ultimately show ?case by (simp add: stops_def)
qed simp

lemma get_loop_stop:
  assumes c: "cap \<noteq> 0" "pow2_assert cap" and "unat i < unat cap" "j < n"
    and "\<And>l. l < j \<Longrightarrow> \<not> stops key (fm_at cap m (unat i) l)" "stops key (fm_at cap m (unat i) j)"
  shows "get_loop cap key n i m =
    (if sused (fm_at cap m (unat i) j) then Some (sval (fm_at cap m (unat i) j)) else None)"
  using assms(3-6)
proof (induction n arbitrary: i j)
  case (Suc n)
  show ?case
  proof (cases j)
    case 0
    then show ?thesis using Suc.prems by (auto simp: stops_def fm_at_def)
  next
    case (Suc j')
    note np = next_probe [OF c Suc.prems(1)]
    have "\<not> stops key (fslots m ! unat i)"
      using Suc.prems(3) [of 0] Suc.prems(1) Suc by (simp add: fm_at_def)
    moreover have "get_loop cap key n ((i + 1) AND (cap - 1)) m =
        (let s = fm_at cap m (unat ((i + 1) AND (cap - 1))) j' in if sused s then Some (sval s) else None)"
      unfolding Let_def
    proof (rule Suc.IH)
      show "unat ((i + 1) AND (cap - 1)) < unat cap" using c Suc.prems(1) np by simp
      show "\<not> stops key (fm_at cap m (unat ((i + 1) AND (cap - 1))) l)" if "l < j'" for l
        using Suc.prems(3) [of "Suc l"] that Suc np by (simp add: fm_at_def probe_shift)
      show "stops key (fm_at cap m (unat ((i + 1) AND (cap - 1))) j')"
        using Suc.prems(4) Suc np by (simp add: fm_at_def probe_shift)
    qed (use Suc.prems(2) Suc in simp)
    ultimately show ?thesis using np Suc by (simp add: stops_def probe_shift fm_at_def)
  qed
qed simp

section \<open>The map a table stands for\<close>

lemma probe_covers:
  fixes h i c :: nat
  assumes "h < c" "i < c"
  obtains j where "j < c" "(h + j) mod c = i"
proof
  show "(c + i - h) mod c < c" using assms by simp
  have "(h + (c + i - h) mod c) mod c = (h + (c + i - h)) mod c" by (simp add: mod_add_right_eq)
  then show "(h + (c + i - h) mod c) mod c = i" using assms by simp
qed

lemma used_slot_probe:
  assumes ok: "fm_ok cap m" and i: "i \<in> used_idx m" "skey (fslots m ! i) = k"
  shows "\<exists>j < unat cap. i = (home cap k + j) mod unat cap \<and>
    (\<forall>l < j. \<not> stops k (fm_at cap m (home cap k) l)) \<and> stops k (fm_at cap m (home cap k) j)"
proof -
  from ok i obtain j where j: "j < unat cap" "i = (home cap k + j) mod unat cap"
    "\<forall>l < j. \<not> stops k (fm_at cap m (home cap k) l)" by (auto simp: fm_ok_def)
  then show ?thesis using i by (intro exI [of _ j]) (auto simp: stops_def fm_at_def)
qed

lemma fm_get_used:
  assumes ok: "fm_ok cap m" and i: "i \<in> used_idx m" "skey (fslots m ! i) = k"
  shows "fm_get cap k m = Some (sval (fslots m ! i))"
proof -
  have c: "cap \<noteq> 0" "pow2_assert cap" using ok i by (auto simp: fm_ok_def used_idx_def)
  from used_slot_probe [OF assms] obtain j where j: "j < unat cap" "i = (home cap k + j) mod unat cap"
    "\<forall>l < j. \<not> stops k (fm_at cap m (home cap k) l)" "stops k (fm_at cap m (home cap k) j)" by blast
  then show ?thesis
    using get_loop_stop [OF c, of "fm_hash cap k" j "unat cap" k m] home_less [OF c] i
    by (simp add: fm_get_def home_def fm_at_def used_idx_def)
qed

lemma fm_get_absent:
  assumes ok: "fm_ok cap m" and no: "\<And>i. i \<in> used_idx m \<Longrightarrow> skey (fslots m ! i) \<noteq> k"
  shows "fm_get cap k m = None"
proof (cases "cap = 0")
  case True
  then show ?thesis by (simp add: fm_get_def)
next
  case c0: False
  have c: "cap \<noteq> 0" "pow2_assert cap" and len: "length (fslots m) = unat cap"
    using ok c0 by (auto simp: fm_ok_def)
  have un: "\<not> sused (fm_at cap m (home cap k) j)" if "stops k (fm_at cap m (home cap k) j)" for j
  proof -
    have "(home cap k + j) mod unat cap < length (fslots m)" using c0 len by (simp add: unat_gt_0)
    then show ?thesis using that no by (auto simp: stops_def fm_at_def used_idx_def)
  qed
  show ?thesis
  proof (cases "\<exists>j < unat cap. stops k (fm_at cap m (home cap k) j)")
    case True
    then obtain j where "j < unat cap" "stops k (fm_at cap m (home cap k) j)"
      "\<And>l. l < j \<Longrightarrow> \<not> stops k (fm_at cap m (home cap k) l)" by (rule first_index) blast
    then show ?thesis
      using get_loop_stop [OF c, of "fm_hash cap k" j "unat cap" k m] home_less [OF c] un
      by (simp add: fm_get_def home_def)
  next
    case False
    then show ?thesis
      using get_loop_full [OF c, of "fm_hash cap k" "unat cap" k m] home_less [OF c]
      by (auto simp: fm_get_def home_def)
  qed
qed

lemma fm_get_some_iff:
  assumes "fm_ok cap m"
  shows "fm_get cap k m = Some v \<longleftrightarrow> (\<exists>i \<in> used_idx m. skey (fslots m ! i) = k \<and> sval (fslots m ! i) = v)"
  using fm_get_used [OF assms] fm_get_absent [OF assms, of k] by (metis option.distinct(1) option.inject)

lemma used_inj:
  assumes ok: "fm_ok cap m" shows "inj_on (\<lambda>i. skey (fslots m ! i)) (used_idx m)"
proof (rule inj_onI)
  fix i i' assume i: "i \<in> used_idx m" "i' \<in> used_idx m" "skey (fslots m ! i) = skey (fslots m ! i')"
  let ?k = "skey (fslots m ! i)"
  obtain j where j: "i = (home cap ?k + j) mod unat cap" "stops ?k (fm_at cap m (home cap ?k) j)"
      "\<forall>l < j. \<not> stops ?k (fm_at cap m (home cap ?k) l)"
    using used_slot_probe [OF ok i(1)] by blast
  obtain j' where j': "i' = (home cap ?k + j') mod unat cap" "stops ?k (fm_at cap m (home cap ?k) j')"
      "\<forall>l < j'. \<not> stops ?k (fm_at cap m (home cap ?k) l)"
    using used_slot_probe [OF ok i(2)] i(3) by metis
  have "j = j'" using j(2,3) j'(2,3) by (metis nat_neq_iff)
  then show "i = i'" using j j' by simp
qed

lemma fm_dom:
  assumes "fm_ok cap m"
  shows "{k. fm_get cap k m \<noteq> None} = (\<lambda>i. skey (fslots m ! i)) ` used_idx m"
    and "card {k. fm_get cap k m \<noteq> None} = card (used_idx m)"
proof -
  show "{k. fm_get cap k m \<noteq> None} = (\<lambda>i. skey (fslots m ! i)) ` used_idx m"
    using fm_get_some_iff [OF assms] by (auto simp: not_None_eq)
  then show "card {k. fm_get cap k m \<noteq> None} = card (used_idx m)"
    using card_image [OF used_inj [OF assms]] by simp
qed

lemma used_idx_finite: "finite (used_idx m)" "card (used_idx m) \<le> length (fslots m)"
proof -
  have sub: "used_idx m \<subseteq> {..<length (fslots m)}" by (auto simp: used_idx_def)
  show "finite (used_idx m)" using sub by (rule finite_subset) simp
  show "card (used_idx m) \<le> length (fslots m)" using card_mono [OF _ sub] by simp
qed

section \<open>Insertion\<close>

lemma fm_put_cases:
  assumes ok: "fm_ok cap m"
  obtains (full) "fm_put cap k v m = (False, m)" "used_idx m = {..<unat cap}"
      "\<And>i. i \<in> used_idx m \<Longrightarrow> skey (fslots m ! i) \<noteq> k"
    | (stop) j where "cap \<noteq> 0" "j < unat cap" "\<And>l. l < j \<Longrightarrow> \<not> stops k (fm_at cap m (home cap k) l)"
      "stops k (fm_at cap m (home cap k) j)"
      "fm_put cap k v m = (True, fm_store ((home cap k + j) mod unat cap) k v m)"
proof (cases "\<exists>j < unat cap. stops k (fm_at cap m (home cap k) j)")
  case True
  then have c: "cap \<noteq> 0" "pow2_assert cap" using ok by (auto simp: fm_ok_def)
  from True obtain j where j: "j < unat cap" "stops k (fm_at cap m (home cap k) j)"
    "\<And>l. l < j \<Longrightarrow> \<not> stops k (fm_at cap m (home cap k) l)" by (rule first_index) blast
  then have "fm_put cap k v m = (True, fm_store ((home cap k + j) mod unat cap) k v m)"
    using put_loop_stop [OF c, of "fm_hash cap k" j "unat cap" k m v] home_less [OF c]
    by (simp add: fm_put_def home_def)
  then show ?thesis using stop j c(1) by blast
next
  case False
  have len: "length (fslots m) = unat cap" using ok by (simp add: fm_ok_def)
  have all: "sused (fslots m ! i) \<and> skey (fslots m ! i) \<noteq> k" if lt: "i < unat cap" for i
  proof -
    have "cap \<noteq> 0" using lt by auto
    then have "home cap k < unat cap" using ok home_less by (auto simp: fm_ok_def)
    then obtain j where "j < unat cap" "(home cap k + j) mod unat cap = i"
      using probe_covers lt by blast
    then show ?thesis using False by (auto simp: stops_def fm_at_def)
  qed
  have "fm_put cap k v m = (False, m)"
  proof (cases "cap = 0")
    case c0: False
    then show ?thesis
      using put_loop_full [of cap "fm_hash cap k" "unat cap" k m v] home_less [of cap k] ok False
      by (auto simp: fm_put_def home_def fm_ok_def)
  qed (simp add: fm_put_def)
  then show ?thesis using full all len by (auto simp: used_idx_def)
qed

lemma used_idx_store:
  "i < length (fslots m) \<Longrightarrow> used_idx (fm_store i k v m) = insert i (used_idx m)"
  by (auto simp: used_idx_def fm_store_def nth_list_update)

lemma fm_store_at:
  assumes "i < length (fslots m)"
  shows "fslots (fm_store i k v m) ! l = (if l = i then \<lparr>skey = k, sval = v, sused = True\<rparr> else fslots m ! l)"
  using assms by (simp add: fm_store_def nth_list_update)

lemma fm_store_ok:
  assumes ok: "fm_ok cap m" and j: "cap \<noteq> 0" "j < unat cap"
    "\<And>l. l < j \<Longrightarrow> \<not> stops k (fm_at cap m (home cap k) l)" "stops k (fm_at cap m (home cap k) j)"
  defines "p \<equiv> (home cap k + j) mod unat cap"
  shows "fm_ok cap (fm_store p k v m)"
proof -
  let ?m = "fm_store p k v m"
  have len: "length (fslots m) = unat cap" using ok by (simp add: fm_ok_def)
  have p: "p < length (fslots m)" using j(1) len by (simp add: p_def unat_gt_0)
  have sp: "\<not> sused (fslots m ! p) \<or> skey (fslots m ! p) = k" using j(4) by (simp add: stops_def fm_at_def p_def)
  have keep: "\<not> stops k' (fm_at cap ?m h l)" if "\<not> stops k' (fm_at cap m h l)" "k' = k \<longrightarrow> (h + l) mod unat cap \<noteq> p"
    for k' h l using that sp p by (auto simp: fm_at_def fm_store_at stops_def)
  have size: "fsize ?m = of_nat (card (used_idx ?m))"
  proof -
    have "fsize ?m = (if p \<in> used_idx m then fsize m else fsize m + 1)"
      using p by (simp add: fm_store_def used_idx_def)
    then show ?thesis using ok used_idx_finite(1) [of m]
      by (simp add: used_idx_store [OF p] fm_ok_def card_insert_if add.commute)
  qed
  have chain: "\<exists>j' < unat cap. i = (home cap (skey (fslots ?m ! i)) + j') mod unat cap \<and>
      (\<forall>l < j'. \<not> stops (skey (fslots ?m ! i)) (fm_at cap ?m (home cap (skey (fslots ?m ! i))) l))"
    if i: "i \<in> used_idx ?m" for i
  proof (cases "i = p")
    case True
    have "(home cap k + l) mod unat cap \<noteq> p" if "l < j" for l
      using that j(2) mod_eq_window [of "home cap k + l" "unat cap" "home cap k + j"] by (auto simp: p_def)
    then show ?thesis
      using True j keep p by (intro exI [of _ j]) (auto simp: fm_store_at p_def)
  next
    case False
    then have u: "i \<in> used_idx m" and key: "skey (fslots ?m ! i) = skey (fslots m ! i)"
      using i p by (auto simp: used_idx_store fm_store_at)
    obtain j' where j': "j' < unat cap" "i = (home cap (skey (fslots m ! i)) + j') mod unat cap"
      "\<forall>l < j'. \<not> stops (skey (fslots m ! i)) (fm_at cap m (home cap (skey (fslots m ! i))) l)"
      using ok u by (auto simp: fm_ok_def)
    have "(home cap (skey (fslots m ! i)) + l) mod unat cap \<noteq> p"
      if "l < j'" "skey (fslots m ! i) = k" for l
      using j'(3) that sp by (auto simp: stops_def fm_at_def)
    then show ?thesis using j' keep unfolding key by (intro exI [of _ j']) auto
  qed
  show ?thesis using ok size chain by (simp add: fm_ok_def) (simp add: fm_store_def)
qed

lemma fm_get_store:
  assumes ok: "fm_ok cap m" and j: "cap \<noteq> 0" "j < unat cap"
    "\<And>l. l < j \<Longrightarrow> \<not> stops k (fm_at cap m (home cap k) l)" "stops k (fm_at cap m (home cap k) j)"
  defines "p \<equiv> (home cap k + j) mod unat cap"
  shows "fm_get cap k' (fm_store p k v m) = (if k' = k then Some v else fm_get cap k' m)"
proof -
  let ?m = "fm_store p k v m"
  have p: "p < length (fslots m)" using j(1) ok by (simp add: p_def unat_gt_0 fm_ok_def)
  have okm: "fm_ok cap ?m" using fm_store_ok [OF ok j] by (simp add: p_def)
  have sp: "p \<in> used_idx m \<Longrightarrow> skey (fslots m ! p) = k"
    using j(4) p by (auto simp: stops_def fm_at_def p_def used_idx_def)
  have u: "used_idx ?m = insert p (used_idx m)" by (rule used_idx_store [OF p])
  show ?thesis
  proof (cases "k' = k")
    case True
    then show ?thesis using fm_get_used [OF okm, of p] u p by (simp add: fm_store_at)
  next
    case False
    have "fm_get cap k' ?m = Some w \<longleftrightarrow> fm_get cap k' m = Some w" for w
      using False sp p by (auto simp: fm_get_some_iff [OF okm] fm_get_some_iff [OF ok] u fm_store_at) metis
    then show ?thesis using False by (metis option.exhaust)
  qed
qed

lemma fm_store_card_ne:
  "fm_ok cap m \<Longrightarrow> i < unat cap \<Longrightarrow> i \<notin> used_idx m \<Longrightarrow> card (used_idx m) < unat cap"
  using psubset_card_mono [of "{..<unat cap}" "used_idx m"] by (fastforce simp: fm_ok_def used_idx_def)

interpretation fm: bounded_map "fm_put cap" "fm_get cap" "unat cap" "fm_ok cap" for cap
proof unfold_locales
  fix m :: "'v flatmap" and k v
  assume ok: "fm_ok cap m"
  show "finite {k. fm_get cap k m \<noteq> None} \<and> card {k. fm_get cap k m \<noteq> None} \<le> unat cap"
    using fm_dom [OF ok] used_idx_finite [of m] ok by (simp add: fm_ok_def)
  show "fm_ok cap (snd (fm_put cap k v m))"
    by (cases rule: fm_put_cases [OF ok, of k v]) (auto intro: fm_store_ok ok)
  show "fst (fm_put cap k v m) \<longleftrightarrow> fm_get cap k m \<noteq> None \<or> card {k. fm_get cap k m \<noteq> None} < unat cap"
    using ok
  proof (cases rule: fm_put_cases [where k = k and v = v])
    case full
    then show ?thesis using fm_get_absent [OF ok, of k] fm_dom(2) [OF ok] by simp
  next
    case (stop j)
    let ?p = "(home cap k + j) mod unat cap"
    have p: "?p < unat cap" using stop(1) by (simp add: unat_gt_0)
    have "fm_get cap k m \<noteq> None \<or> ?p \<notin> used_idx m"
      using fm_get_used [OF ok, of ?p k] stop(4) by (auto simp: stops_def fm_at_def used_idx_def)
    then show ?thesis using stop(5) fm_store_card_ne [OF ok p] fm_dom(2) [OF ok] by auto
  qed
  {
    fix k'
    assume "fst (fm_put cap k v m)"
    then show "fm_get cap k' (snd (fm_put cap k v m)) = (if k' = k then Some v else fm_get cap k' m)"
      by (cases rule: fm_put_cases [OF ok, of k v]) (simp_all add: fm_get_store [OF ok])
  }
  assume "\<not> fst (fm_put cap k v m)"
  then show "snd (fm_put cap k v m) = m" by (cases rule: fm_put_cases [OF ok, of k v]) simp_all
qed

section \<open>The map as its clients see it\<close>

lemma flatmap_new_ok:
  assumes "pow2_assert cap"
  shows "fm_ok cap (flatmap_new cap d)" and "fm_get cap k (flatmap_new cap d) = None"
proof -
  have u: "used_idx (flatmap_new cap d) = {}" by (auto simp: used_idx_def flatmap_new_def)
  then show ok: "fm_ok cap (flatmap_new cap d)"
    using assms by (simp add: fm_ok_def) (simp add: flatmap_new_def)
  show "fm_get cap k (flatmap_new cap d) = None" using fm_get_absent [OF ok] u by simp
qed

definition fm_fill :: "u64 \<Rightarrow> (u64 \<times> 'v) list \<Rightarrow> 'v flatmap \<Rightarrow> 'v flatmap" where
  "fm_fill cap = fold (\<lambda>(k, v) m. snd (fm_put cap k v m))"

lemma fm_size_dom: "fm_ok cap m \<Longrightarrow> unat (fm_size m) = card {k. fm_get cap k m \<noteq> None}"
proof -
  assume ok: "fm_ok cap m"
  have "card (used_idx m) < 2 ^ 64"
    using used_idx_finite(2) [of m] ok unat_u64_less [of cap] by (simp add: fm_ok_def)
  then show ?thesis
    unfolding fm_size_def fm_dom(2) [OF ok] using ok by (simp add: unat_of_nat_u64 fm_ok_def)
qed

text \<open>
  C22. Insertion and lookup of \<^verbatim>\<open>FlatMap\<close> are those of a finite map: on every reachable
  table, \<^verbatim>\<open>put\<close> returns true exactly when the key is present or fewer than \<^verbatim>\<open>Cap\<close> keys are,
  a successful \<^verbatim>\<open>put\<close> changes the value of that key only, and a refused one changes nothing.
\<close>

theorem flatmap_put_get:
  assumes "pow2_assert cap" and m_def: "m = fm_fill cap kvs (flatmap_new cap d)"
  shows "(fst (fm_put cap k v m) \<longleftrightarrow> fm_get cap k m \<noteq> None \<or> unat (fm_size m) < unat cap) \<and>
    (fst (fm_put cap k v m) \<longrightarrow>
      (\<lambda>k'. fm_get cap k' (snd (fm_put cap k v m))) = (\<lambda>k'. fm_get cap k' m)(k \<mapsto> v)) \<and>
    (\<not> fst (fm_put cap k v m) \<longrightarrow> snd (fm_put cap k v m) = m)"
proof (intro conjI impI)
  have ok: "fm_ok cap m"
    unfolding m_def fm_fill_def by (rule fm.ok_fold) (rule flatmap_new_ok [OF assms(1)])
  show "fst (fm_put cap k v m) \<longleftrightarrow> fm_get cap k m \<noteq> None \<or> unat (fm_size m) < unat cap"
    by (simp add: fm.put_true [OF ok] fm_size_dom [OF ok])
  show "fst (fm_put cap k v m) \<Longrightarrow>
      (\<lambda>k'. fm_get cap k' (snd (fm_put cap k v m))) = (\<lambda>k'. fm_get cap k' m)(k \<mapsto> v)"
    by (rule ext) (simp add: fm.get_put [OF ok])
  show "\<not> fst (fm_put cap k v m) \<Longrightarrow> snd (fm_put cap k v m) = m" by (rule fm.put_false [OF ok])
qed

theorem flatmap_put_get_witness:
  "fst (fm_put 2 5 True (fm_fill 2 [(1, False), (5, False)] (flatmap_new 2 False))) \<and>
   \<not> fst (fm_put 2 7 True (fm_fill 2 [(1, False), (5, False)] (flatmap_new 2 False))) \<and>
   (\<lambda>k'. fm_get 2 k' (snd (fm_put 2 5 True (fm_fill 2 [(1, False), (5, False)] (flatmap_new 2 False))))) =
     (\<lambda>k'. fm_get 2 k' (fm_fill 2 [(1, False), (5, False)] (flatmap_new 2 False)))(5 \<mapsto> True) \<and>
   snd (fm_put 2 7 True (fm_fill 2 [(1, False), (5, False)] (flatmap_new 2 False))) =
     fm_fill 2 [(1, False), (5, False)] (flatmap_new 2 False)"
proof -
  let ?m = "fm_fill 2 [(1, False), (5, False)] (flatmap_new 2 False)"
  have c: "pow2_assert (2 :: u64)" by (simp add: pow2_assert_def)
  have t: "fst (fm_put 2 5 True ?m)" and f: "\<not> fst (fm_put 2 7 True ?m)" by code_simp+
  show ?thesis
    using t f flatmap_put_get [OF c refl, where k = 5 and v = True and d = False and kvs = "[(1, False), (5, False)]"]
      flatmap_put_get [OF c refl, where k = 7 and v = True and d = False and kvs = "[(1, False), (5, False)]"] by blast
qed

lemma fm_fill_get:
  assumes "pow2_assert cap" "card (fst ` set kvs) \<le> unat cap"
  shows "fm_ok cap (fm_fill cap kvs (flatmap_new cap d))"
    and "fm_get cap k (fm_fill cap kvs (flatmap_new cap d)) = map_of (rev kvs) k"
proof -
  note ok0 = flatmap_new_ok [OF assms(1), where d = d]
  show "fm_ok cap (fm_fill cap kvs (flatmap_new cap d))" unfolding fm_fill_def by (rule fm.ok_fold) (rule ok0)
  show "fm_get cap k (fm_fill cap kvs (flatmap_new cap d)) = map_of (rev kvs) k"
    using fm.fold_put_get [OF ok0(1), of kvs k] assms(2) by (simp add: fm_fill_def ok0(2) split: option.splits)
qed

text \<open>
  A table filled with at most \<^verbatim>\<open>Cap\<close> distinct keys loses none of them: \<^verbatim>\<open>get\<close> finds for each
  key the value put last, finds nothing for any other key, and \<^verbatim>\<open>size\<close> is the number of keys.
\<close>

lemma flatmap_lossless:
  assumes "pow2_assert cap" and "card (fst ` set kvs) \<le> unat cap"
  shows "(fm_get cap k (fm_fill cap kvs (flatmap_new cap d)) = map_of (rev kvs) k) \<and>
    (unat (fm_size (fm_fill cap kvs (flatmap_new cap d))) = card (fst ` set kvs))"
proof
  let ?m = "fm_fill cap kvs (flatmap_new cap d)"
  note get = fm_fill_get(2) [OF assms, where d = d]
  show "fm_get cap k ?m = map_of (rev kvs) k" by (rule get)
  have "{k. fm_get cap k ?m \<noteq> None} = fst ` set kvs" unfolding get by (auto simp: map_of_eq_None_iff)
  then show "unat (fm_size ?m) = card (fst ` set kvs)" by (simp only: fm_size_dom [OF fm_fill_get(1) [OF assms]])
qed

text \<open>
  The home slot of a key depends on its low bits only: keys that agree modulo twice the
  capacity collide, whatever their high bits.
\<close>

lemma hash_low_bits:
  assumes "cap \<noteq> 0" "pow2_assert cap"
  shows "unat (fm_hash cap k) = (unat k * 0x9E3779B97F4A7C15) mod (2 * unat cap) div 2"
proof -
  obtain c where c: "c < 64" "cap = 2 ^ c" "unat cap = 2 ^ c" using assms by (auto elim: word_pow2_assert)
  let ?x = "k * 0x9E3779B97F4A7C15 :: u64"
  have "unat (drop_bit 1 ?x) = unat ?x div 2"
    by (simp add: drop_bit_eq_div unat_div)
  then have "unat (fm_hash cap k) = (unat ?x div 2) mod 2 ^ c"
    unfolding fm_hash_def unat_and_pred_pow2 [OF assms] c(3) by simp
  also have "\<dots> = unat ?x mod (2 * 2 ^ c) div 2" by (simp add: mod_mult2_eq)
  also have "unat ?x mod (2 * 2 ^ c) = (unat k * 0x9E3779B97F4A7C15) mod (2 * 2 ^ c)"
  proof -
    have "unat ?x = (unat k * 0x9E3779B97F4A7C15) mod 2 ^ 64" by (simp add: unat_word_ariths)
    moreover have "(2 :: nat) * 2 ^ c dvd 2 ^ 64" using c(1) le_imp_power_dvd [of "Suc c" 64 "2::nat"] by simp
    ultimately show ?thesis by (simp add: mod_mod_cancel)
  qed
  finally show ?thesis by (simp add: c(3))
qed

end
