(* ===== verification/Bench.thy ===== *)
theory Bench
  imports Flatmap Engine Metrics
begin

text \<open>
  \<^verbatim>\<open>bench/microbench.cpp\<close> and \<^verbatim>\<open>bench/bench_gbench.cpp\<close>: the timing harness and the loop bodies of the
  three comparisons (static against virtual dispatch, pool against heap, flat map against
  \<^verbatim>\<open>std::unordered_map\<close>). A body is a function of the iteration's index on the state it changes;
  the counter readings that bracket a trial are arguments.
\<close>

section \<open>The harness\<close>

definition kIters :: nat where
  "kIters = 2000000"

definition kTrials :: nat where
  "kTrials = 21"

fun bench_loop :: "(u64 \<Rightarrow> 's \<Rightarrow> 's cpp) \<Rightarrow> u64 \<Rightarrow> nat \<Rightarrow> 's \<Rightarrow> 's cpp" where
  "bench_loop body i 0 s = Inr s"
| "bench_loop body i (Suc n) s = cpp_bind (body i s) (bench_loop body (i + 1) n)"

text \<open>\<open>tsc t\<close> is the pair of readings before and after the trial number \<open>t\<close>.\<close>

fun bench_trials :: "(nat \<Rightarrow> u64 \<times> u64) \<Rightarrow> (u64 \<Rightarrow> 's \<Rightarrow> 's cpp) \<Rightarrow> nat \<Rightarrow> nat \<Rightarrow> u64 \<Rightarrow> 's \<Rightarrow> (u64 \<times> 's) cpp" where
  "bench_trials tsc body t 0 best s = Inr (best, s)"
| "bench_trials tsc body t (Suc n) best s =
     cpp_bind (bench_loop body 0 kIters s) (\<lambda>s'.
     let d = snd (tsc t) - fst (tsc t)
     in bench_trials tsc body (Suc t) n (if d < best then d else best) s')"

definition bench :: "tsc_clock \<Rightarrow> (nat \<Rightarrow> u64 \<times> u64) \<Rightarrow> (u64 \<Rightarrow> 's \<Rightarrow> 's cpp) \<Rightarrow> 's \<Rightarrow> (dbl \<times> 's) cpp" where
  "bench clk tsc body s =
     cpp_bind (bench_loop body 0 50000 s) (\<lambda>s1.
     cpp_bind (bench_trials tsc body 0 kTrials (NOT 0) s1) (\<lambda>(best, s2).
     cpp_bind (ticks_to_ns clk best) (\<lambda>ns.
     Inr (ddiv (dbl_of_nat (unat ns)) (dbl_of_nat kIters), s2))))"

section \<open>The bodies\<close>

definition base_tick :: tick where
  "base_tick = \<lparr>t_t0_tsc = 0, t_sym_id = 0, t_seq = 0, t_bid = 10000, t_ask = 10010\<rparr>"

definition crtp_body :: "u64 \<Rightarrow> u64 \<Rightarrow> u64 cpp" where
  "crtp_body i g_sink =
     cpp_bind (i64_chk (t_bid base_tick + uint (i AND 63))) (\<lambda>b.
     cpp_bind (crtp_on_tick AltStrategy_rule (base_tick\<lparr>t_bid := b\<rparr>) i) (\<lambda>od.
     Inr (g_sink + of_int (o_px od))))"

definition virt_body :: "istrategy \<Rightarrow> u64 \<Rightarrow> u64 \<Rightarrow> u64 cpp" where
  "virt_body vp i g_sink =
     cpp_bind (i64_chk (t_bid base_tick + uint (i AND 63))) (\<lambda>b.
     cpp_bind (virtual_on_tick vp (base_tick\<lparr>t_bid := b\<rparr>) i) (\<lambda>od.
     Inr (g_sink + of_int (o_px od))))"

text \<open>\<^verbatim>\<open>c->clordid = i\<close> on an object of the pool.\<close>

definition set_clordid :: "nat \<Rightarrow> u64 \<Rightarrow> order_ctx pool \<Rightarrow> order_ctx pool cpp" where
  "set_clordid k v p = (if k < length (pslots p)
     then (case pslots p ! k of
             Storage c \<Rightarrow> Inr (p\<lparr>pslots := (pslots p)[k := Storage (c\<lparr>ctx_clordid := v\<rparr>)]\<rparr>)
           | Link _ \<Rightarrow> Inl Bad_access)
     else Inl Out_of_bounds)"

definition pool_body :: "u64 \<Rightarrow> order_ctx pool \<Rightarrow> order_ctx pool cpp" where
  "pool_body i p =
     cpp_bind (pool_acquire ctx0 p) (\<lambda>(c, p1).
     case c of None \<Rightarrow> Inr p1
     | Some k \<Rightarrow> cpp_bind (set_clordid k i p1) (pool_release (Some k)))"

text \<open>
  The heap maps the address of a block in use to the \<^verbatim>\<open>clordid\<close> stored there, if any was.
  \<^verbatim>\<open>operator new(nothrow)\<close> is a function of the heap: an address, or null.
\<close>

type_synonym heap = "u64 \<rightharpoonup> u64 option"

definition heap_store :: "u64 \<Rightarrow> u64 \<Rightarrow> heap \<Rightarrow> heap cpp" where
  "heap_store a v h = (if h a = None then Inl Bad_access else Inr (h(a \<mapsto> Some v)))"

definition heap_delete :: "u64 \<Rightarrow> heap \<Rightarrow> heap cpp" where
  "heap_delete a h = (if h a = None then Inl Bad_access else Inr (h(a := None)))"

definition malloc_body :: "(heap \<Rightarrow> u64 option) \<Rightarrow> u64 \<Rightarrow> heap \<Rightarrow> heap cpp" where
  "malloc_body op_new i h =
     (case op_new h of None \<Rightarrow> Inr h
      | Some a \<Rightarrow> cpp_bind (heap_store a i (h(a \<mapsto> None))) (heap_delete a))"

definition fill_pairs :: "(u64 \<times> u64) list" where
  "fill_pairs = map (\<lambda>i. (of_nat i, of_nat i * 3)) [0..<2000]"

definition bench_flat :: "u64 flatmap" where
  "bench_flat = fm_fill 4096 fill_pairs (flatmap_new 4096 0)"

definition flat_body :: "u64 flatmap \<Rightarrow> u64 \<Rightarrow> u64 \<Rightarrow> u64 cpp" where
  "flat_body flat i g_sink =
     Inr (case fm_get 4096 (i AND 1999) flat of None \<Rightarrow> g_sink | Some v \<Rightarrow> g_sink + v)"

definition emplace :: "u64 \<Rightarrow> u64 \<Rightarrow> (u64 \<rightharpoonup> u64) \<Rightarrow> (u64 \<rightharpoonup> u64)" where
  "emplace k v m = (if m k = None then m(k \<mapsto> v) else m)"

definition bench_umap :: "u64 \<rightharpoonup> u64" where
  "bench_umap = fold (\<lambda>(k, v). emplace k v) fill_pairs Map.empty"

definition umap_body :: "(u64 \<rightharpoonup> u64) \<Rightarrow> u64 \<Rightarrow> u64 \<Rightarrow> u64 cpp" where
  "umap_body umap i g_sink =
     Inr (case umap (i AND 1999) of None \<Rightarrow> g_sink | Some v \<Rightarrow> g_sink + v)"

section \<open>The program\<close>

text \<open>\<^verbatim>\<open>%8s\<close> and \<^verbatim>\<open>%-28s\<close>; a quotient by zero prints as the C library prints it.\<close>

definition pad_left :: "nat \<Rightarrow> string \<Rightarrow> string" where
  "pad_left n s = replicate (n - length s) (CHR '' '') @ s"

definition pad_right :: "nat \<Rightarrow> string \<Rightarrow> string" where
  "pad_right n s = s @ replicate (n - length s) (CHR '' '')"

definition ratio_text :: "dbl \<Rightarrow> dbl \<Rightarrow> string" where
  "ratio_text b a =
     (if mant a = 0 then (if mant b = 0 then ''-nan'' else ''inf'') else fmt_fixed 2 (ddiv b a))"

definition bench_row :: "string \<Rightarrow> dbl \<Rightarrow> dbl \<Rightarrow> string" where
  "bench_row name a b =
     pad_right 28 name @ '' '' @ pad_left 8 (fmt_fixed 2 a) @ '' '' @ pad_left 8 (fmt_fixed 2 b) @
     ''   '' @ ratio_text b a @ ''x'' @ [NL]"

definition bench_head :: "tsc_clock \<Rightarrow> string" where
  "bench_head clk =
     ''microbench @ '' @ ghz_text clk @ '' GHz (min ns/op over '' @ nat_str kTrials @ '' trials x '' @
     nat_str kIters @ '' iters)'' @ [NL, NL]"

definition bench_tail :: "u64 \<Rightarrow> string" where
  "bench_tail g_sink =
     [NL] @ ''(sink='' @ nat_str (unat g_sink) @ '' '' @ [CHR 0xE2, CHR 0x80, CHR 0x94] @ '' ignore)'' @ [NL]"

record bench_end =
  mb_status :: int
  mb_out :: string
  mb_sink :: u64
  mb_pool :: "order_ctx pool"
  mb_heap :: heap

text \<open>
  \<^verbatim>\<open>main\<close>. The reading pairs of the measurement number \<open>k\<close> are \<open>tsc k\<close>; a calibration without a usable
  ratio is the fault of the conversions that follow.
\<close>

definition microbench :: "calib_sample \<Rightarrow> (heap \<Rightarrow> u64 option) \<Rightarrow> (nat \<Rightarrow> nat \<Rightarrow> u64 \<times> u64) \<Rightarrow> heap \<Rightarrow> bench_end cpp" where
  "microbench sample op_new tsc h =
     cpp_bind (calibrate sample) (\<lambda>c. case c of None \<Rightarrow> Inl Bad_cast | Some clk \<Rightarrow>
     cpp_bind (bench clk (tsc 0) crtp_body 0) (\<lambda>(ns_crtp, g1).
     cpp_bind (bench clk (tsc 1) (virt_body AltStrategyV) g1) (\<lambda>(ns_virt, g2).
     cpp_bind (pool_new 1024) (\<lambda>pool.
     cpp_bind (bench clk (tsc 2) pool_body pool) (\<lambda>(ns_pool, pool').
     cpp_bind (bench clk (tsc 3) (malloc_body op_new) h) (\<lambda>(ns_malloc, h').
     cpp_bind (bench clk (tsc 4) (flat_body bench_flat) g2) (\<lambda>(ns_flat, g3).
     cpp_bind (bench clk (tsc 5) (umap_body bench_umap) g3) (\<lambda>(ns_umap, g4).
     Inr \<lparr>mb_status = 0,
        mb_out = bench_head clk @
          pad_right 28 ''experiment'' @ '' '' @ pad_left 8 ''A(ns)'' @ '' '' @ pad_left 8 ''B(ns)'' @ ''   ratio B/A'' @ [NL] @
          bench_row ''dispatch  crtp vs virtual'' ns_crtp ns_virt @
          bench_row ''alloc     pool vs malloc'' ns_pool ns_malloc @
          bench_row ''map       flat vs unordered'' ns_flat ns_umap @ bench_tail g4,
        mb_sink = g4, mb_pool = pool', mb_heap = h'\<rparr>))))))))"

section \<open>The same pairs under the benchmark framework\<close>

text \<open>
  The framework runs each loop for a number \<open>n\<close> of iterations of its choice. The results are what the
  loop shows to \<^verbatim>\<open>DoNotOptimize\<close>; \<^verbatim>\<open>new\<close> without memory throws, which ends the loop with \<open>None\<close>.
\<close>

fun BM_PoolAcquireRelease :: "nat \<Rightarrow> order_ctx pool \<Rightarrow> (nat option list \<times> order_ctx pool) cpp" where
  "BM_PoolAcquireRelease 0 p = Inr ([], p)"
| "BM_PoolAcquireRelease (Suc n) p =
     cpp_bind (pool_acquire ctx0 p) (\<lambda>(c, p1).
     cpp_bind (if c = None then Inr p1 else pool_release c p1) (\<lambda>p2.
     cpp_bind (BM_PoolAcquireRelease n p2) (\<lambda>(cs, p3). Inr (c # cs, p3))))"

fun BM_MallocNewDelete :: "(heap \<Rightarrow> u64 option) \<Rightarrow> nat \<Rightarrow> heap \<Rightarrow> heap option cpp" where
  "BM_MallocNewDelete op_new 0 h = Inr (Some h)"
| "BM_MallocNewDelete op_new (Suc n) h =
     (case op_new h of None \<Rightarrow> Inr None
      | Some a \<Rightarrow> cpp_bind (heap_delete a (h(a \<mapsto> None))) (BM_MallocNewDelete op_new n))"

fun BM_DispatchCRTP :: "nat \<Rightarrow> u64 \<Rightarrow> order list cpp" where
  "BM_DispatchCRTP 0 i = Inr []"
| "BM_DispatchCRTP (Suc n) i =
     cpp_bind (crtp_on_tick AltStrategy_rule base_tick i) (\<lambda>od.
     cpp_bind (BM_DispatchCRTP n (i + 1)) (\<lambda>ods. Inr (od # ods)))"

fun BM_DispatchVirtual :: "istrategy \<Rightarrow> nat \<Rightarrow> u64 \<Rightarrow> order list cpp" where
  "BM_DispatchVirtual p 0 i = Inr []"
| "BM_DispatchVirtual p (Suc n) i =
     cpp_bind (virtual_on_tick p base_tick i) (\<lambda>od.
     cpp_bind (BM_DispatchVirtual p n (i + 1)) (\<lambda>ods. Inr (od # ods)))"

section \<open>What a measurement runs and returns\<close>

text \<open>The indices the body is called with, in order, and the shortest trial.\<close>

fun run_body :: "(u64 \<Rightarrow> 's \<Rightarrow> 's cpp) \<Rightarrow> u64 list \<Rightarrow> 's \<Rightarrow> 's cpp" where
  "run_body body [] s = Inr s"
| "run_body body (i # is) s = cpp_bind (body i s) (run_body body is)"

definition bench_indices :: "u64 list" where
  "bench_indices = map of_nat [0..<50000] @ concat (replicate kTrials (map of_nat [0..<kIters]))"

definition best_of :: "(nat \<Rightarrow> u64 \<times> u64) \<Rightarrow> nat \<Rightarrow> u64" where
  "best_of tsc n = Min ((\<lambda>t. snd (tsc t) - fst (tsc t)) ` {..<n})"

lemma run_body_append: "run_body body (xs @ ys) s = cpp_bind (run_body body xs s) (run_body body ys)"
proof (induction xs arbitrary: s)
  case (Cons x xs)
  then show ?case by (cases "body x s") simp_all
qed simp

lemma bench_loop_run: "bench_loop body i n s = run_body body (map (\<lambda>k. i + of_nat k) [0..<n]) s"
proof (induction n arbitrary: i s)
  case (Suc n)
  have "map (\<lambda>k. i + of_nat k) [0..<Suc n] = i # map (\<lambda>k. (i + 1) + of_nat k) [0..<n]"
    by (simp add: upt_conv_Cons map_Suc_upt [symmetric] add.assoc o_def del: upt_Suc)
  then show ?case using Suc by (cases "body i s") (simp_all only: bench_loop.simps run_body.simps cpp_bind_simps)
qed simp

lemma bench_loop_zero: "bench_loop body 0 n s = run_body body (map of_nat [0..<n]) s"
  by (simp add: bench_loop_run)

lemma bench_trials_run:
  "bench_trials tsc body t n best s =
     cpp_bind (run_body body (concat (replicate n (map of_nat [0..<kIters]))) s) (\<lambda>s'.
       Inr (Min (insert best ((\<lambda>k. snd (tsc k) - fst (tsc k)) ` {t..<t + n})), s'))"
proof (induction n arbitrary: t best s)
  case (Suc n)
  let ?d = "\<lambda>k. snd (tsc k) - fst (tsc k)"
  have "{t..<t + Suc n} = insert t {Suc t..<Suc t + n}" by auto
  then have "Min (insert best (?d ` {t..<t + Suc n})) =
      Min (insert (if ?d t < best then ?d t else best) (?d ` {Suc t..<Suc t + n}))"
    by (cases "n = 0") (auto simp: Min_insert min_def)
  then show ?case
    by (cases "bench_loop body 0 kIters s") (simp_all add: Suc bench_loop_zero run_body_append Let_def)
qed simp

lemma best_of_trials: "0 < n \<Longrightarrow> Min (insert (NOT 0) ((\<lambda>t. snd (tsc t) - fst (tsc t)) ` {0..<0 + n})) = best_of tsc n"
proof -
  assume "0 < n"
  moreover have "(x :: u64) \<le> NOT 0" for x by simp
  ultimately show ?thesis by (simp add: best_of_def atLeast0LessThan Min_insert min_absorb2 lessThan_empty_iff)
qed

text \<open>
  A measurement of \<^verbatim>\<open>bench\<close> calls the body for the indices 0 to 49999 once and then 21 times for
  0 to 1999999, in this order, and returns the number of nanoseconds of the shortest of the 21
  trials divided by the number of iterations; it fails only where a call of the body or the
  conversion of that shortest time does.
\<close>

lemma bench_run:
  "bench clk tsc body s =
     cpp_bind (run_body body bench_indices s) (\<lambda>s'.
     cpp_bind (ticks_to_ns clk (best_of tsc kTrials)) (\<lambda>ns.
     Inr (ddiv (dbl_of_nat (unat ns)) (dbl_of_nat kIters), s')))"
proof -
  have k: "0 < kTrials" by (simp add: kTrials_def)
  show ?thesis
    unfolding bench_def bench_trials_run bench_loop_zero best_of_trials [OF k] bench_indices_def run_body_append
    by (cases "run_body body (map of_nat [0..<50000]) s") (auto simp: cpp_bind_def split: sum.splits)
qed

section \<open>The bodies do comparable work\<close>

lemma run_body_sum:
  assumes "\<And>i s. i \<in> set is \<Longrightarrow> body i s = Inr (s + f i)"
  shows "run_body body is s = Inr (s + (\<Sum>i\<leftarrow>is. f i :: u64))"
  using assms by (induction "is" arbitrary: s) (simp_all add: add.assoc)

lemma run_body_id: "(\<And>i. body i s = Inr s) \<Longrightarrow> run_body body is s = Inr s"
  by (induction "is") simp_all

lemma dispatch_sum_step:
  "crtp_body i s = Inr (s + of_int ((20010 + uint (i AND 63)) div 2))"
  "virt_body AltStrategyV i s = Inr (s + of_int ((20010 + uint (i AND 63)) div 2))"
proof -
  have b: "uint (i AND 63) \<le> 63" using word_and_le1 [of i 63] by (simp add: word_le_def)
  then have "decide (base_tick\<lparr>t_bid := 10000 + uint (i AND 63)\<rparr>) i = Inr
      \<lparr>o_t0_tsc = 0, o_clordid = i, o_sym_id = 0, o_side = (if i AND 1 \<noteq> 0 then Buy else Sell),
       o_px = (20010 + uint (i AND 63)) div 2, o_qty = order_qty kLimits, o_fix_len = 0, o_fix = []\<rparr>"
    by (simp add: decide_def base_tick_def i64_defs cdiv_nonneg Let_def)
  with b show "crtp_body i s = Inr (s + of_int ((20010 + uint (i AND 63)) div 2))"
    "virt_body AltStrategyV i s = Inr (s + of_int ((20010 + uint (i AND 63)) div 2))"
    by (simp_all add: crtp_body_def virt_body_def crtp_on_tick_def AltStrategy_rule_def virtual_on_tick_def
        AltStrategyV_def i64_defs base_tick_def)
qed

text \<open>An object taken and given back leaves the pool as it was.\<close>

lemma take_and_return:
  assumes "pool_ok n p" "card (dom (pool_map p)) < n"
  obtains k q where "pool_acquire v p = Inr (Some k, q)" "k < length (pslots q)" "pslots q ! k = Storage v"
    "\<And>w. pool_release (Some k) (q\<lparr>pslots := (pslots q)[k := Storage w]\<rparr>) = Inr p" "pool_release (Some k) q = Inr p"
proof -
  obtain k q where acq: "pool_acquire v p = Inr (Some k, q)" using pool.acquire_succeeds [OF assms] by blast
  then obtain nx where k: "pfree p = Some k" "k < length (pslots p)" "pslots p ! k = Link nx"
    "q = p\<lparr>pfree := nx, pslots := (pslots p)[k := Storage v]\<rparr>"
    by (auto simp: pool_acquire_def slot_next_def cpp_bind_eq_Inr_iff split: option.splits if_splits pslot.splits)
  then have "(pslots p)[k := Link nx] = pslots p" by (metis list_update_id)
  then show thesis using that [OF acq] k by (simp add: pool_release_def destroy_def)
qed

lemma pool_body_same:
  assumes "pool_ok n p" "card (dom (pool_map p)) < n"
  shows "pool_body i p = Inr p"
  by (rule take_and_return [OF assms, of ctx0]) (simp add: pool_body_def set_clordid_def)

lemma malloc_body_same: "(\<And>a. op_new h = Some a \<Longrightarrow> h a = None) \<Longrightarrow> malloc_body op_new i h = Inr h"
  by (auto simp: malloc_body_def heap_store_def heap_delete_def fun_eq_iff split: option.splits)

lemma fold_emplace: "fold (\<lambda>(k, v). emplace k v) kvs m k = (case m k of None \<Rightarrow> map_of kvs k | Some v \<Rightarrow> Some v)"
proof (induction kvs arbitrary: m)
  case (Cons kv kvs)
  have "emplace a b m k = (case m k of None \<Rightarrow> if a = k then Some b else None | Some v \<Rightarrow> Some v)" for a b
    by (simp add: emplace_def split: option.splits)
  then show ?case using Cons.IH [of "case kv of (a, b) \<Rightarrow> emplace a b m"]
    by (cases kv) (auto split: option.splits)
qed (simp split: option.splits)

lemma fill_keys: "distinct (map fst fill_pairs)" "length fill_pairs = 2000"
proof -
  have "inj_on (of_nat :: nat \<Rightarrow> u64) {0..<2000}"
    by (rule inj_onI) (auto dest: arg_cong [where f = unat] simp: unat_of_nat_u64)
  then show "distinct (map fst fill_pairs)" by (simp add: fill_pairs_def o_def distinct_map)
qed (simp add: fill_pairs_def)

lemma fill_values: "(i AND 1999, (i AND 1999) * 3) \<in> set fill_pairs"
proof -
  have "unat (i AND 1999) < 2000" using word_and_le1 [of i 1999] by (simp add: word_le_nat_alt)
  then show ?thesis by (auto simp: fill_pairs_def image_iff intro!: bexI [of _ "unat (i AND 1999)"])
qed

lemma maps_filled:
  "fm_get 4096 (i AND 1999) bench_flat = Some ((i AND 1999) * 3)"
  "bench_umap (i AND 1999) = Some ((i AND 1999) * 3)"
proof -
  have p: "pow2_assert (4096 :: u64)" by (simp add: pow2_assert_def)
  have "card (fst ` set fill_pairs) \<le> 2000"
    using card_image_le [of "set fill_pairs" fst] card_length [of fill_pairs] fill_keys(2) by simp
  then have "card (fst ` set fill_pairs) \<le> unat (4096 :: u64)" by simp
  then show "fm_get 4096 (i AND 1999) bench_flat = Some ((i AND 1999) * 3)"
    using fill_keys(1) fill_values
    by (simp add: bench_flat_def fm_fill_get(2) [OF p] map_of_eq_Some_iff rev_map [symmetric])
  show "bench_umap (i AND 1999) = Some ((i AND 1999) * 3)"
    using fill_keys(1) fill_values by (simp add: bench_umap_def fold_emplace map_of_eq_Some_iff)
qed

lemma lookup_sum_step:
  "flat_body bench_flat i s = Inr (s + (i AND 1999) * 3)" "umap_body bench_umap i s = Inr (s + (i AND 1999) * 3)"
  by (simp_all add: flat_body_def umap_body_def maps_filled)

definition dispatch_sum :: u64 where
  "dispatch_sum = (\<Sum>i\<leftarrow>bench_indices. of_int ((20010 + uint (i AND 63)) div 2))"

definition lookup_sum :: u64 where
  "lookup_sum = (\<Sum>i\<leftarrow>bench_indices. (i AND 1999) * 3)"

definition per_op :: "u64 \<Rightarrow> dbl" where
  "per_op ns = ddiv (dbl_of_nat (unat ns)) (dbl_of_nat kIters)"

lemma bench_results:
  assumes "ticks_to_ns clk (best_of tsc kTrials) = Inr ns"
  shows "bench clk tsc crtp_body g = Inr (per_op ns, g + dispatch_sum)"
    and "bench clk tsc (virt_body AltStrategyV) g = Inr (per_op ns, g + dispatch_sum)"
    and "bench clk tsc (flat_body bench_flat) g = Inr (per_op ns, g + lookup_sum)"
    and "bench clk tsc (umap_body bench_umap) g = Inr (per_op ns, g + lookup_sum)"
    and "(\<And>i. body i s = Inr s) \<Longrightarrow> bench clk tsc body s = Inr (per_op ns, s)"
  using assms
  by (simp_all add: bench_run run_body_id per_op_def dispatch_sum_def lookup_sum_def
      run_body_sum [OF dispatch_sum_step(1)] run_body_sum [OF dispatch_sum_step(2)]
      run_body_sum [OF lookup_sum_step(1)] run_body_sum [OF lookup_sum_step(2)])

text \<open>
  C31. The benchmark program compares like with like. When the six shortest times can be converted and
  \<^verbatim>\<open>operator new\<close> hands out addresses not in use, it returns 0 without a fault; the two dispatch
  loops add the same sum to the sink, and so do the two map loops, every lookup being a hit; the
  pool and the heap end as they began; and the table has, for each pair, the two times per
  operation and their ratio.
\<close>

theorem microbench_fair:
  assumes clk: "calibrate sample = Inr (Some clk)"
    and ns: "\<And>k. k < 6 \<Longrightarrow> ticks_to_ns clk (best_of (tsc k) kTrials) = Inr (ns k)"
    and new: "\<And>a. op_new h = Some a \<Longrightarrow> h a = None"
  shows "\<exists>pool. pool_new 1024 = Inr pool \<and> microbench sample op_new tsc h = Inr
    \<lparr>mb_status = 0,
     mb_out = bench_head clk @ ''experiment                      A(ns)    B(ns)   ratio B/A'' @ [NL] @
       bench_row ''dispatch  crtp vs virtual'' (per_op (ns 0)) (per_op (ns 1)) @
       bench_row ''alloc     pool vs malloc'' (per_op (ns 2)) (per_op (ns 3)) @
       bench_row ''map       flat vs unordered'' (per_op (ns 4)) (per_op (ns 5)) @
       bench_tail (2 * dispatch_sum + 2 * lookup_sum),
     mb_sink = 2 * dispatch_sum + 2 * lookup_sum, mb_pool = pool, mb_heap = h\<rparr>"
proof -
  obtain pool :: "order_ctx pool" where pool: "pool_new 1024 = Inr pool" "pool_ok 1024 pool" "pool_map pool = Map.empty"
    using pool_new_ok [of 1024] by auto
  have same: "pool_body i pool = Inr pool" for i by (rule pool_body_same [OF pool(2)]) (simp add: pool(3))
  have "pad_right 28 ''experiment'' @ '' '' @ pad_left 8 ''A(ns)'' @ '' '' @ pad_left 8 ''B(ns)'' @ ''   ratio B/A'' @ r
    = ''experiment                      A(ns)    B(ns)   ratio B/A'' @ r" for r
    by (simp add: pad_left_def pad_right_def numeral_eq_Suc)
  then show ?thesis
    using clk pool(1) bench_results(1) [OF ns] bench_results(2) [OF ns] bench_results(3) [OF ns] bench_results(4) [OF ns]
      bench_results(5) [OF ns, where body = pool_body and s = pool, OF _ same]
      bench_results(5) [OF ns, where body = "malloc_body op_new" and s = h, OF _ malloc_body_same [OF new]]
    by (simp add: microbench_def algebra_simps)
qed

theorem microbench_fair_witness:
  "\<exists>clk pool. calibrate \<lparr>cs_w0 = \<lparr>tv_sec = 7, tv_nsec = 0\<rparr>, cs_c0 = 10, cs_c1 = 11, cs_w1 = \<lparr>tv_sec = 7, tv_nsec = 1\<rparr>\<rparr> =
       Inr (Some clk) \<and> pool_new 1024 = Inr pool \<and>
     microbench \<lparr>cs_w0 = \<lparr>tv_sec = 7, tv_nsec = 0\<rparr>, cs_c0 = 10, cs_c1 = 11, cs_w1 = \<lparr>tv_sec = 7, tv_nsec = 1\<rparr>\<rparr>
       (\<lambda>h. if h 64 = None then Some 64 else None) (\<lambda>k t. (5, 4000005)) Map.empty = Inr
     \<lparr>mb_status = 0,
      mb_out = bench_head clk @ ''experiment                      A(ns)    B(ns)   ratio B/A'' @ [NL] @
        bench_row ''dispatch  crtp vs virtual'' (per_op 4000000) (per_op 4000000) @
        bench_row ''alloc     pool vs malloc'' (per_op 4000000) (per_op 4000000) @
        bench_row ''map       flat vs unordered'' (per_op 4000000) (per_op 4000000) @
        bench_tail (2 * dispatch_sum + 2 * lookup_sum),
      mb_sink = 2 * dispatch_sum + 2 * lookup_sum, mb_pool = pool, mb_heap = Map.empty\<rparr>"
proof -
  let ?s = "\<lparr>cs_w0 = \<lparr>tv_sec = 7, tv_nsec = 0\<rparr>, cs_c0 = 10, cs_c1 = 11, cs_w1 = \<lparr>tv_sec = 7, tv_nsec = 1\<rparr>\<rparr>"
  let ?clk = "\<lparr>ns_per_tick = Dbl 4503599627370496 (- 52)\<rparr>"
  have c: "calibrate ?s = Inr (Some ?clk)" using ddiv_one by (simp add: calibrate_def elapsed_ns_def i64_defs)
  have "{..<kTrials} \<noteq> {}" by (simp add: kTrials_def lessThan_empty_iff)
  then have "best_of (\<lambda>t. (5, 4000005)) kTrials = 4000000" by (simp add: best_of_def)
  moreover have "nbits (4000000 * 2 ^ 52) = 74" using nbits_unique [of 73 "4000000 * 2 ^ 52"] by simp
  ultimately have t: "ticks_to_ns ?clk (best_of (\<lambda>t. (5, 4000005)) kTrials) = Inr 4000000"
    by (simp add: ticks_to_ns_def dbl_of_nat_small dmul_def dround_def excess_def rne_def dbl_to_u64_def dtrunc_def)
  show ?thesis
    using microbench_fair [OF c t, where op_new = "\<lambda>h. if h 64 = None then Some 64 else None" and h = Map.empty] c by auto
qed

text \<open>The loops under the framework: the same orders from both dispatches, and a pool that is never empty.\<close>

lemma gbench_dispatch: "BM_DispatchVirtual AltStrategyV n i = BM_DispatchCRTP n i"
  by (induction n arbitrary: i)
    (simp_all add: crtp_on_tick_def AltStrategy_rule_def virtual_on_tick_def AltStrategyV_def)

lemma gbench_pool:
  assumes "pool_ok n p" "card (dom (pool_map p)) < n"
  shows "\<exists>cs. BM_PoolAcquireRelease m p = Inr (cs, p) \<and> length cs = m \<and> None \<notin> set cs"
proof (induction m)
  case (Suc m)
  then obtain cs where cs: "BM_PoolAcquireRelease m p = Inr (cs, p)" "length cs = m" "None \<notin> set cs" by blast
  show ?case by (rule take_and_return [OF assms, of ctx0]) (simp add: cs)
qed simp

lemma gbench_malloc:
  assumes "\<And>a. op_new h = Some a \<Longrightarrow> h a = None"
  shows "BM_MallocNewDelete op_new n h = Inr (if n = 0 \<or> op_new h \<noteq> None then Some h else None)"
  using assms by (induction n) (auto simp: heap_delete_def fun_upd_idem split: option.splits)

end
