(* ===== verification/Spec2Isabelle.thy ===== *)
theory Spec2Isabelle
  imports Scrape Recording Pipe_Spec Market_Runs Tests Bench
begin

text \<open>
  \<^bold>\<open>A verification library for the trading engine and its mock exchange\<close>

  \<^bold>\<open>The program.\<close> The C++ sources under \<^verbatim>\<open>src/roles/trading-app-deploy/files/cpp\<close> are two processes.
  The engine (\<^verbatim>\<open>src/engine_main.cpp\<close>) runs a pipeline of threads: market data makes ticks and pushes
  them into a ring; the strategy pops a tick, decides an order, encodes it as a FIX message into a
  pooled scratch object and pushes the order into a second ring; the gateway pops it, remembers
  its time stamp, sends the message, reads ExecutionReports and records latencies in two
  histograms; the logger drains a third ring; a metrics thread serves the counters over HTTP. The
  exchange (\<^verbatim>\<open>src/exchange_main.cpp\<close>) answers logons, orders and test requests. The headers under
  \<^verbatim>\<open>include/\<close> hold the data structures both are made of; \<^verbatim>\<open>tests/\<close> tests and \<^verbatim>\<open>bench/\<close> times some of them.

  \<^bold>\<open>Theories, and the code each models.\<close>

  \<^item> \<open>Trade_Prelude\<close>: fixed-width integers, the faults of the C++ machine (signed overflow, a write
    past a fixed array, an index out of range, a cast out of range, an access to dead storage) as
    values of the sum type \<open>'a cpp\<close>, power-of-two masks, alignment.
  \<^item> \<open>Interfaces\<close>: the contracts as locales (invariants of step relations, machines that come to
    rest up to steps that set them back, simulation of an abstract machine, bounded queue, bounded map, slot pool, arena), with the
    lemmas their clients use. Every locale is interpreted on the model of the code in the theory
    that provides it. \<open>Fair_Runs\<close>: infinite runs, weak and strong fairness, and a stream between two parts
    of a machine as a further contract.
  \<^item> \<open>Spsc\<close>: \<^verbatim>\<open>spsc.hpp\<close>. The ring's operations on wrapping indices, refining a bounded list queue; and
    the concurrent object, producer and consumer stepping one memory access at a time with
    acquire loads that may return old values: FIFO delivery, absence of races on the slots,
    wait-freedom, agreement of whole calls with the sequential operations.
  \<^item> \<open>Ring_Spec\<close>: the concurrent ring refines an atomic bounded queue, its release stores being the
    atomic operations; a call that reports full or empty after an outdated load changes nothing.
  \<^item> \<open>Doubles\<close>, \<open>Hist\<close>: \<^verbatim>\<open>hist.hpp\<close>. Binary64 rounding on naturals; buckets, recording, percentiles;
    the resolution of the buckets, the exact domain of the index computation.
  \<^item> \<open>Hist_Threads\<close>: the same class with any number of threads inside \<^verbatim>\<open>record\<close> and one that takes snapshots, one
    relaxed atomic operation per step (\<open>hs_step\<close>): no update is lost, a snapshot reports on some of the
    samples recorded so far, and the counts of successive snapshots do not go down.
  \<^item> \<open>Flatmap\<close>: \<^verbatim>\<open>flatmap.hpp\<close>, the probe loops against a finite map.
  \<^item> \<open>Pool\<close>: \<^verbatim>\<open>pool.hpp\<close>, slots as a tagged union, the free list, lifetimes.
  \<^item> \<open>Arena\<close>: \<^verbatim>\<open>bump.hpp\<close> and \<^verbatim>\<open>huge.hpp\<close>, the address arithmetic on 64-bit words and the mapping with
    its fallback; \<^verbatim>\<open>mmap\<close> is a parameter.
  \<^item> \<open>Tsc\<close>: \<^verbatim>\<open>tsc.hpp\<close>, calibration and conversion of counter differences.
  \<^item> \<open>Cpp_Strings\<close>, \<open>Fix\<close>: \<^verbatim>\<open>find\<close>, \<^verbatim>\<open>substr\<close>, \<^verbatim>\<open>to_chars\<close>, \<^verbatim>\<open>from_chars\<close>; \<^verbatim>\<open>fix.hpp\<close>: builder, view, framer,
    checksum, binary orders. Round trips between them, framing under any chunking, exact
    overflow conditions.
  \<^item> \<open>Messages\<close>: \<^verbatim>\<open>types.hpp\<close>, \<^verbatim>\<open>config.hpp\<close>, \<^verbatim>\<open>messages.hpp\<close>, \<^verbatim>\<open>strategy.hpp\<close>.
  \<^item> \<open>Platform\<close>: \<^verbatim>\<open>net.hpp\<close>, \<^verbatim>\<open>affinity.hpp\<close>, \<^verbatim>\<open>setup_core\<close>; the kernel's answers are arguments, and the
    system calls on sockets a list, from which \<open>open_fds\<close> computes the descriptors left open.
  \<^item> \<open>Exchange\<close>: \<^verbatim>\<open>exchange_main.cpp\<close>: replies (\<open>exch_reply\<close>), the session (\<open>exch_handle\<close>), the signal
    handler, the accept loop and \<^verbatim>\<open>main\<close> (\<open>exch_on_signal\<close>, \<open>accept_loop\<close>, \<open>exch_main\<close>).
  \<^item> \<open>Engine\<close>: \<^verbatim>\<open>engine_main.cpp\<close>: configuration, \<^verbatim>\<open>HotState\<close> as the record \<open>hot_state\<close>, and the loop
    bodies \<open>md_run\<close>, \<open>st_run\<close>, \<open>gw_send\<close>, \<open>gw_log\<close>, \<open>gw_recv\<close>, \<open>lg_run\<close>.
  \<^item> \<open>Pipeline\<close>: the four threads interleaved (\<open>thread_step\<close>, and \<open>engine_step\<close> with the receive calls of the
    gateway on arbitrary bytes), the invariant of the running engine, order and content of what goes through it.
  \<^item> \<open>Recording\<close>: what the running engine leaves behind: types of the payloads in the rings, lines of the log file, and
    the contents of the histograms against the orders sent and the messages that the gateway framed on the run (\<open>engine_trace\<close>).
  \<^item> \<open>Shutdown\<close>: the end of a run: a measure on the state bounds the steps after the signal, with three
    more for each ring operation that fails on an outdated index; a run in which the last log event is lost.
  \<^item> \<open>Stall\<close>: what the steps of the threads leave alone; back-pressure: how many ticks can be under way; the engine after
    its gateway has returned, which stalls and neither reconnects nor ends.
  \<^item> \<open>Pipe_Spec\<close>: the pipeline without rings, buffers and program counters, as a specification the
    engine refines.
  \<^item> \<open>Metrics\<close>: the metrics page, its HTTP response and the thread that serves it, a client in one step (\<open>mx_run\<close>).
  \<^item> \<open>Session\<close>: \<^verbatim>\<open>do_logon\<close>, placement of the hot state, the facts that join engine and exchange.
  \<^item> \<open>Market\<close>: the two processes after the logon as one closed system (\<open>market_step\<close>): the threads of the engine, the loop of
    the exchange's \<^verbatim>\<open>handle\<close>, and the two byte streams between them, delivered in order and cut anywhere.
    Replies match orders, fills count replies, neither side gets stuck on a piece of the stream, and
    an engine with nothing more to send can end with as many fills as orders.
  \<^item> \<open>Market_Runs\<close>: the exchange's side of that system is one call of \<^verbatim>\<open>handle\<close>, from the logon on; on every infinite run
    that is fair every order is filled. Fairness is assumed of the scheduler (the gateway thread takes its next step at some
    point) and of the network (pending bytes are received at some point), not of the program.
  \<^item> \<open>Startup\<close>: \<^verbatim>\<open>main\<close> of the engine: start-up (\<open>engine_boot\<close>), the five threads (\<open>system_step\<close>), the joins
    and the clean-up (\<open>engine_end\<close>), complete runs (\<open>engine_main\<close>).
  \<^item> \<open>Scrape\<close>: the metrics thread again, one load at a time between steps of the other threads (\<open>scrape_run\<close>,
    \<open>process_step\<close>): from when the values on a page are. Every step of \<open>Startup\<close> is a run of this finer process.
  \<^item> \<open>Bench\<close>: \<^verbatim>\<open>bench/microbench.cpp\<close> and \<^verbatim>\<open>bench/bench_gbench.cpp\<close>: the harness, the bodies of the three
    comparisons, the printed table.
  \<^item> \<open>Tests\<close>: \<^verbatim>\<open>tests/test_hist.cpp\<close> and \<^verbatim>\<open>tests/test_spsc.cpp\<close> as programs over the models; the threaded test under
    every interleaving of its accesses.
  \<^item> This theory: the logon between the two processes.

  \<^bold>\<open>How the code is represented.\<close> Classes are records, unions and enumerations datatypes, unsigned
  integers words, signed 64-bit integers \<^typ>\<open>int\<close> values with a range check at every operation that
  could overflow. Template arguments are parameters with their \<^verbatim>\<open>static_assert\<close> as a hypothesis.
  Fixed character arrays are the bytes written so far with their size as a constant; every
  write is checked against it. What the code gets from outside (counter and clock readings,
  results of system calls, received chunks, whether an allocation succeeds) is an argument, so
  a theorem holds for all of it unless a hypothesis says otherwise; the hypotheses used are that
  \<^verbatim>\<open>mmap\<close> returns a non-null address, that \<^verbatim>\<open>gmtime_r\<close> and the clock return fields in their documented
  ranges, that the kernel hands out descriptors and \<^verbatim>\<open>operator new\<close> addresses that are not in use.

  \<^bold>\<open>Loops.\<close> The loops of \<^verbatim>\<open>View::get\<close>, of the probes and of the histogram are total functions with a
  termination proof. The loops over \<^verbatim>\<open>Framer::next\<close> may run forever and are \<open>partial_function (option)\<close>
  (\<open>None\<close> when they do); that they return on well-formed streams is part of the theorems, and
  the buffers on which they do not are characterised (\<open>framer_drain_diverges\<close>).
  \<^verbatim>\<open>send_all\<close> is given a finite list of kernel answers and returns \<open>None\<close> when they are used up
  before it is done; a theorem says which answers suffice, and a thread whose \<^verbatim>\<open>send_all\<close> does not
  return takes no step. \<open>exch_loop\<close> recurs over the received chunks, \<open>logon_wait\<close> over at most fifty of
  them, as the code does, where the end of the list is the flag found cleared; \<open>accept_loop\<close> recurs over what happens at \<^verbatim>\<open>accept\<close> and says whether the loop was
  left. The loops of the threads are step relations. No other fuel is used.

  \<^bold>\<open>Interleaving.\<close> In \<open>Pipeline\<close> a thread makes at most one access per step to something another thread
  writes: one load of the flag \<^verbatim>\<open>g_running\<close>, one ring operation, one read of \<^verbatim>\<open>size_approx\<close>; each such access
  has its own value of the thread's program counter. A ring operation is one step that acts on the newest
  indices, or a step of \<open>stale_step\<close>, in which it fails because the index it loaded is out of date: these are
  the outcomes that \<open>Spsc\<close> and \<open>Ring_Spec\<close> leave, where calls are interleaved at single accesses. The remaining shared
  data are counters and histograms with one writer each; \<open>Hist_Threads\<close> shows what a reader of a histogram
  sees. A load of \<^verbatim>\<open>g_running\<close> returns its newest value: a delay in seeing it is a delay of the step.

  \<^bold>\<open>Not modelled.\<close> \<^verbatim>\<open>rdtsc\<close> and \<^verbatim>\<open>cpu_relax\<close> (single instructions: a reading is an argument, a pause has no
  effect), the build file, and the Ansible roles and shell scripts around the
  program. Messages on the standard error stream are values of a datatype, not text. The doubles
  have no exponent range: overflow and subnormal results do not occur in the computations of the code
  on the ranges the theorems assume. In \<open>Startup\<close> the metrics thread waits for the request of a client, builds the page and sends it
  in one step; \<open>Scrape\<close> takes this apart into single loads. In both a load returns the newest value, and what the gateway writes in one of
  its steps (the sample and the count of an order, the fills of one receive call) appears together; what a snapshot sees of a
  histogram under loads that are out of date, between the single writes of \<^verbatim>\<open>record\<close>, is the subject of \<open>Hist_Threads\<close>. A fault of
  the page builder (\<open>Metrics\<close> says when there is one) leaves the metrics thread without a step in \<open>Scrape\<close>.
  In \<open>Market\<close> the sends of the exchange succeed, and its theorems speak of states in which no send of the engine has failed.
\<close>

section \<open>Properties of the whole system\<close>

text \<open>
  C25. The logon handshake completes: the exchange answers the engine's logon message, in whatever chunks
  it arrives, with one message, and \<^verbatim>\<open>do_logon\<close> returns true on that answer, in whatever chunks it
  comes back as long as fifty reads suffice and the request was sent.
\<close>

theorem logon_handshake:
  assumes "tm_ok g" "0 \<le> ns" "ns < 10 ^ 9" "clock_ok clock"
  shows "\<exists>req reply. logon_message g ns = Inr req \<and>
    (\<forall>cs. concat cs = req \<longrightarrow> xh_out (exch_handle k xc clock fd cs th) = Some (Inr ([reply], [], 2))) \<and>
    (\<forall>srs cs. fst (send_all srs req) = Some True \<and> concat cs = reply \<and> length cs \<le> 50 \<longrightarrow>
       do_logon g ns srs (map Recv cs) = Inr (req, Some True))"
  using assms by (rule logon_completes)

theorem logon_handshake_witness:
  "\<exists>req. logon_message (fst (sample_clock 1)) 0 = Inr req \<and>
     (\<exists>reply. do_logon (fst (sample_clock 1)) 0 [Sent (length req)] (map Recv [take 7 reply, drop 7 reply]) = Inr (req, Some True))"
proof -
  let ?g = "fst (sample_clock 1)"
  have g: "tm_ok ?g" using sample_clock_ok by (simp add: clock_ok_def)
  obtain req reply where r: "logon_message ?g 0 = Inr req"
    "\<forall>srs cs. fst (send_all srs req) = Some True \<and> concat cs = reply \<and> length cs \<le> 50 \<longrightarrow>
       do_logon ?g 0 srs (map Recv cs) = Inr (req, Some True)"
    using logon_handshake [OF g _ _ sample_clock_ok, where ns = 0 and k = sample_os and xc = exch_cfg_default and fd = 5
      and th = "\<lparr>th_mask = {0}, th_fifo = None\<rparr>"] by auto
  obtain ts where "built_from logon_cap (logon_fields ts) req" using logon_message_built [OF g, of 0] r(1) by auto
  then have "0 < length req" using built_from_frame frame_nonempty by blast
  then have "fst (send_all [Sent (length req)] req) = Some True"
    using send_loop_returns [of "[Sent (length req)]" req 0] by (simp add: send_all_def accepted_def)
  then have "do_logon ?g 0 [Sent (length req)] (map Recv [take 7 reply, drop 7 reply]) = Inr (req, Some True)"
    by (intro r(2) [rule_format]) simp
  then show ?thesis using r(1) by blast
qed

end
